(* ===== verification/Bcp_Prelude.thy ===== *)
theory Bcp_Prelude
  imports Main "HOL-Library.Word"
begin

text \<open>
  Shared types, collections and lemmas: machine words at the widths the code
  uses, little-endian digit sequences read as natural numbers, and the list
  facts several components need.
\<close>

unbundle bit_operations_syntax

type_synonym u8 = "8 word"
type_synonym u16 = "16 word"
type_synonym u32 = "32 word"
type_synonym u64 = "64 word"

named_theorems len_simps \<open>lengths of the results of the operations\<close>
named_theorems val_simps \<open>numeric values of the results of the operations\<close>

subsection \<open>Digit sequences\<close>

text \<open>The value of a little-endian sequence of machine words.\<close>

fun limbs_val :: "'a::len word list \<Rightarrow> nat" where
  "limbs_val [] = 0"
| "limbs_val (d # ds) = unat d + 2 ^ LENGTH('a) * limbs_val ds"

lemma limbs_val_append:
  fixes xs ys :: "'a::len word list"
  shows "limbs_val (xs @ ys) = limbs_val xs + 2 ^ (LENGTH('a) * length xs) * limbs_val ys"
  by (induction xs) (simp_all add: algebra_simps power_add)

lemma digit_cons_less:
  fixes a b x :: nat
  assumes "x < b" "y < c"
  shows "x + b * y < b * c"
proof -
  have "x + b * y < b * Suc y" using assms(1) by simp
  also have "\<dots> \<le> b * c" using assms(2) by (intro mult_le_mono2) simp
  finally show ?thesis .
qed

lemma unat_bound: "unat (w :: 'a::len word) < 2 ^ LENGTH('a)"
  by (rule unsigned_less)

lemma limbs_val_less:
  fixes xs :: "'a::len word list"
  shows "limbs_val xs < 2 ^ (LENGTH('a) * length xs)"
proof (induction xs)
  case Nil
  then show ?case by simp
next
  case (Cons d ds)
  have "limbs_val (d # ds) < 2 ^ LENGTH('a) * 2 ^ (LENGTH('a) * length ds)"
    using digit_cons_less [OF unat_bound [of d] Cons.IH] by simp
  then show ?case by (simp add: power_add)
qed

lemma limbs_val_replicate_0 [simp]: "limbs_val (replicate n 0) = 0"
  by (induction n) simp_all

lemma limbs_val_eq_0: "limbs_val xs = 0 \<longleftrightarrow> (\<forall>d \<in> set xs. d = 0)"
  by (induction xs) (simp_all add: unat_eq_zero)

lemma digit_cons_eq:
  fixes x x' b y y' :: nat
  assumes "x < b" "x' < b"
  shows "x + b * y = x' + b * y' \<longleftrightarrow> x = x' \<and> y = y'"
proof
  assume eq: "x + b * y = x' + b * y'"
  have "(x + b * y) mod b = (x' + b * y') mod b" using eq by simp
  then have "x = x'" using assms by simp
  then show "x = x' \<and> y = y'" using eq assms by simp
qed simp

lemma limbs_val_inj:
  fixes xs ys :: "'a::len word list"
  assumes "length xs = length ys"
  shows "limbs_val xs = limbs_val ys \<longleftrightarrow> xs = ys"
  using assms
proof (induction xs ys rule: list_induct2)
  case (Cons x xs y ys)
  then show ?case
    using digit_cons_eq [OF unat_bound [of x] unat_bound [of y]]
    by (simp add: word_unat_eq_iff)
qed simp

lemma limbs_val_take_drop:
  fixes xs :: "'a::len word list"
  assumes "n \<le> length xs"
  shows "limbs_val xs = limbs_val (take n xs) + 2 ^ (LENGTH('a) * n) * limbs_val (drop n xs)"
  using limbs_val_append [of "take n xs" "drop n xs"] assms by simp

lemma limbs_val_nth:
  fixes xs :: "'a::len word list"
  assumes "i < length xs"
  shows "unat (xs ! i) = limbs_val xs div 2 ^ (LENGTH('a) * i) mod 2 ^ LENGTH('a)"
  using assms
proof (induction xs arbitrary: i)
  case (Cons d ds)
  show ?case
  proof (cases i)
    case 0
    then show ?thesis by simp
  next
    case (Suc j)
    have "limbs_val (d # ds) div 2 ^ (LENGTH('a) * i)
        = limbs_val (d # ds) div 2 ^ LENGTH('a) div 2 ^ (LENGTH('a) * j)"
      by (simp add: Suc power_add div_mult2_eq)
    also have "limbs_val (d # ds) div 2 ^ LENGTH('a) = limbs_val ds"
      using unat_bound [of d] by simp
    finally show ?thesis using Cons Suc by simp
  qed
qed simp

lemma limbs_val_snoc_high:
  fixes xs :: "'a::len word list"
  shows "limbs_val (xs @ [d]) = limbs_val xs + 2 ^ (LENGTH('a) * length xs) * unat d"
  by (simp add: limbs_val_append)

lemma mod_sub_once:
  fixes a b n :: nat
  assumes "a < n" "b < n" "\<not> a + b < n"
  shows "(a + b) mod n = a + b - n"
  using assms by (simp add: le_mod_geq)

subsection \<open>Shifts and bits of words as arithmetic\<close>

lemma unat_drop_bit_div: "unat (drop_bit n w) = unat w div 2 ^ n"
  unfolding unat_drop_bit_eq by (rule drop_bit_eq_div)

lemma unat_push_bit_mod:
  fixes w :: "'a::len word"
  shows "unat (push_bit n w) = (unat w * 2 ^ n) mod 2 ^ LENGTH('a)"
  unfolding unsigned_push_bit_eq by (simp add: take_bit_eq_mod push_bit_eq_mult)

lemma unat_take_bit_mod: "unat (take_bit n w) = unat w mod 2 ^ n"
  unfolding unsigned_take_bit_eq by (rule take_bit_eq_mod)

lemma unat_ucast_mod:
  "unat (ucast (w :: 'a::len word) :: 'b::len word) = unat w mod 2 ^ LENGTH('b)"
  by (simp add: unsigned_ucast_eq unat_take_bit_mod take_bit_eq_mod)

text \<open>Filling the low bits of a shifted word: \<open>OR\<close> adds.\<close>

lemma unat_push_bit_or:
  fixes w c :: "'a::len word"
  assumes "n \<le> LENGTH('a)" "unat c < 2 ^ n"
  shows "unat (push_bit n w OR c) = unat (push_bit n w) + unat c"
proof -
  have "push_bit n w AND c = 0"
  proof (rule bit_word_eqI)
    fix i
    assume "i < LENGTH('a)"
    have "\<not> bit c i" if "n \<le> i"
    proof -
      have "unat c < 2 ^ i" using assms(2) that
        by (meson less_le_trans one_le_numeral power_increasing)
      then have "\<not> bit (unat c) i" by (simp add: bit_nat_iff bit_iff_odd)
      then show ?thesis by (simp add: bit_unsigned_iff)
    qed
    then show "bit (push_bit n w AND c) i \<longleftrightarrow> bit (0 :: 'a word) i"
      by (auto simp: bit_and_iff bit_push_bit_iff)
  qed
  then have "push_bit n w OR c = push_bit n w + c"
    by (simp add: disjunctive_add_eq_or)
  moreover have "unat (push_bit n w) + unat c < 2 ^ LENGTH('a)"
  proof -
    have "unat (push_bit n w) = 2 ^ n * (unat w mod 2 ^ (LENGTH('a) - n))"
      using assms(1) by (simp add: unat_push_bit_mod mult.commute
          mult_mod_right power_add [symmetric])
    moreover have "unat w mod 2 ^ (LENGTH('a) - n) < 2 ^ (LENGTH('a) - n)" by simp
    ultimately show ?thesis
      using digit_cons_less [OF assms(2)] assms(1)
      by (metis add.commute le_add_diff_inverse power_add)
  qed
  ultimately show ?thesis by (simp add: unat_word_ariths)
qed

lemma word_lt_unat: "w < v \<longleftrightarrow> unat w < unat v"
  by (rule word_less_nat_alt)

lemma word_eq_unat: "w = v \<longleftrightarrow> unat w = unat v"
  by (rule word_unat_eq_iff)

lemma unat_of_bool_word [simp]: "unat (of_bool b :: 'a::len word) = of_bool b"
  by simp

lemma odd_unat: "odd (unat (w :: 'a::len word)) \<longleftrightarrow> bit w 0"
  using bit_unsigned_iff [where w = w and n = 0 and 'a = nat] by (simp add: bit_0)

lemma and_1_odd: "w AND 1 = of_bool (odd (unat (w :: 'a::len word)))"
  by (cases "bit w 0") (auto intro!: bit_word_eqI simp: bit_and_iff bit_1_iff odd_unat)

lemma length_4_cases:
  assumes "length xs = 4"
  obtains a b c d where "xs = [a, b, c, d]"
  using assms by (auto simp: numeral_eq_Suc length_Suc_conv)

lemma length_8_cases:
  assumes "length xs = 8"
  obtains a b c d e f g h where "xs = [a, b, c, d, e, f, g, h]"
  using assms by (auto simp: numeral_eq_Suc length_Suc_conv)

subsection \<open>Words and their bytes\<close>

text \<open>A word put together from bytes, least significant first, and split into \<open>k\<close> bytes.\<close>

fun le_join :: "u8 list \<Rightarrow> 'a::len word" where
  "le_join [] = 0"
| "le_join (b # bs) = ucast b OR push_bit 8 (le_join bs)"

definition le_split :: "nat \<Rightarrow> 'a::len word \<Rightarrow> u8 list" where
  "le_split k w = map (\<lambda>i. ucast (drop_bit (8 * i) w)) [0..<k]"

lemma length_le_split [len_simps]: "length (le_split k w) = k"
  by (simp add: le_split_def)

lemma bit_le_join:
  "bit (le_join bs :: 'a::len word) n \<longleftrightarrow>
     n < LENGTH('a) \<and> n div 8 < length bs \<and> bit (bs ! (n div 8)) (n mod 8)"
proof (induction bs arbitrary: n)
  case Nil
  then show ?case by simp
next
  case (Cons b bs)
  show ?case
  proof (cases "n < 8")
    case True
    then show ?thesis by (auto simp: bit_simps)
  next
    case False
    then have d: "n div 8 = Suc ((n - 8) div 8)" "n mod 8 = (n - 8) mod 8"
      by (simp_all add: div_if mod_if)
    have "\<not> bit b n" using False by (auto dest: bit_imp_le_length)
    then have "bit (le_join (b # bs) :: 'a word) n \<longleftrightarrow>
        n < LENGTH('a) \<and> bit (le_join bs :: 'a word) (n - 8)"
      using False by (auto simp: bit_or_iff bit_unsigned_iff bit_push_bit_iff)
    then show ?thesis using False by (auto simp: Cons.IH d)
  qed
qed

lemma le_join_split:
  assumes "LENGTH('a::len) = 8 * k"
  shows "le_join (le_split k (w :: 'a word)) = w"
proof (rule bit_word_eqI)
  fix n
  assume n: "n < LENGTH('a)"
  then have "n div 8 < k" using assms by auto
  then show "bit (le_join (le_split k w) :: 'a word) n \<longleftrightarrow> bit w n"
    using n by (simp add: bit_le_join le_split_def bit_unsigned_iff bit_drop_bit_eq)
qed

lemma le_split_join:
  assumes "length bs = k" "8 * k \<le> LENGTH('a::len)"
  shows "le_split k (le_join bs :: 'a word) = bs"
proof (rule nth_equalityI)
  show "length (le_split k (le_join bs :: 'a word)) = length bs" using assms by (simp add: le_split_def)
  fix i
  assume "i < length (le_split k (le_join bs :: 'a word))"
  then have i: "i < k" by (simp add: le_split_def)
  have "le_split k (le_join bs :: 'a word) ! i = ucast (drop_bit (8 * i) (le_join bs :: 'a word))"
    using i by (simp add: le_split_def)
  also have "\<dots> = bs ! i"
  proof (rule bit_word_eqI)
    fix n
    assume "n < LENGTH(8)"
    then have n: "n < 8" by simp
    then have "8 * i + n < LENGTH('a)" using i assms(2) by linarith
    moreover have "(8 * i + n) div 8 = i" "(8 * i + n) mod 8 = n" using n by simp_all
    ultimately show "bit (ucast (drop_bit (8 * i) (le_join bs :: 'a word)) :: u8) n \<longleftrightarrow> bit (bs ! i) n"
      using n i assms(1) by (simp add: bit_unsigned_iff bit_drop_bit_eq bit_le_join)
  qed
  finally show "le_split k (le_join bs :: 'a word) ! i = bs ! i" .
qed

lemma le_join_append:
  "le_join (xs @ ys) = (le_join xs OR push_bit (8 * length xs) (le_join ys) :: 'a::len word)"
  by (induction xs) (simp_all add: or.assoc add.commute)

lemma le_join_val: "unat (le_join bs :: 'a::len word) = limbs_val bs" if "8 * length bs \<le> LENGTH('a)"
  using that
proof (induction bs)
  case (Cons b bs)
  have l: "limbs_val bs < 2 ^ (8 * length bs)" using limbs_val_less [of bs] by simp
  have ih: "unat (le_join bs :: 'a word) = limbs_val bs" using Cons by simp
  have "(2 :: nat) ^ 8 \<le> 2 ^ LENGTH('a)" using Cons.prems by (intro power_increasing) simp_all
  then have "unat b < 2 ^ LENGTH('a)" using unat_bound [of b] by simp
  then have b: "unat (ucast b :: 'a word) = unat b" unfolding unat_ucast_mod by (rule mod_less)
  have "unat (ucast b OR push_bit 8 (le_join bs) :: 'a word)
      = unat (push_bit 8 (le_join bs) :: 'a word) + unat b"
    using unat_push_bit_or [of 8 "ucast b :: 'a word" "le_join bs", unfolded b] unat_bound [of b] Cons.prems
    by (simp add: or.commute [of "ucast b"])
  moreover have "unat (push_bit 8 (le_join bs) :: 'a word) = limbs_val bs * 2 ^ 8"
  proof -
    have "limbs_val bs * 2 ^ 8 < 2 ^ (8 * length bs) * 2 ^ 8" using l by simp
    also have "\<dots> = 2 ^ (8 * length (b # bs))" by (simp add: power_add)
    also have "\<dots> \<le> 2 ^ LENGTH('a)" using Cons.prems by (intro power_increasing) simp_all
    finally show ?thesis by (simp add: unat_push_bit_mod ih)
  qed
  ultimately show ?case by simp
qed simp

end
