(* ===== verification/Vli.thy ===== *)
theory Vli
  imports Bcp_Prelude
begin

text \<open>
  Multi-precision integers of bryllite-core/secp256r1.cpp (lines 10-29 and
  139-444): a \<open>uint64_t[NUM_ECC_DIGITS]\<close> array is the list of its digits, least
  significant first. Each operation reads the first \<open>NUM_ECC_DIGITS\<close> digits at
  its pointer; a result that the code stores through a pointer is returned, next
  to the carry, borrow or flag the code returns.
\<close>

type_synonym vli = "u64 list"

definition ECC_BYTES :: nat where
  "ECC_BYTES = 32"

definition NUM_ECC_DIGITS :: nat where
  "NUM_ECC_DIGITS = ECC_BYTES div 8"

lemma NUM_ECC_DIGITS_4 [simp]: "NUM_ECC_DIGITS = 4"
  by (simp add: NUM_ECC_DIGITS_def ECC_BYTES_def)

abbreviation vli_val :: "vli \<Rightarrow> nat" where
  "vli_val \<equiv> limbs_val"

definition is_vli :: "vli \<Rightarrow> bool" where
  "is_vli x \<longleftrightarrow> length x = NUM_ECC_DIGITS"

lemma is_vli_length [len_simps]: "is_vli x \<Longrightarrow> length x = 4"
  by (simp add: is_vli_def)

lemma vli_val_bound: "is_vli x \<Longrightarrow> vli_val x < 2 ^ 256"
  using limbs_val_less [of x] by (simp add: is_vli_def)

lemma vli_val_inj: "is_vli x \<Longrightarrow> is_vli y \<Longrightarrow> vli_val x = vli_val y \<longleftrightarrow> x = y"
  by (simp add: is_vli_def limbs_val_inj)

subsection \<open>Clearing, testing and measuring\<close>

definition vli_clear :: vli where
  "vli_clear = replicate NUM_ECC_DIGITS 0"

fun vli_isZero_loop :: "vli \<Rightarrow> bool" where
  "vli_isZero_loop [] = True"
| "vli_isZero_loop (d # ds) = (if d \<noteq> 0 then False else vli_isZero_loop ds)"

definition vli_isZero :: "vli \<Rightarrow> bool" where
  "vli_isZero p_vli = vli_isZero_loop (take NUM_ECC_DIGITS p_vli)"

definition vli_testBit :: "vli \<Rightarrow> nat \<Rightarrow> u64" where
  "vli_testBit p_vli p_bit = (p_vli ! (p_bit div 64)) AND push_bit (p_bit mod 64) 1"

fun vli_numDigits_loop :: "vli \<Rightarrow> nat \<Rightarrow> nat" where
  "vli_numDigits_loop p_vli 0 = 0"
| "vli_numDigits_loop p_vli (Suc i) =
     (if p_vli ! i = 0 then vli_numDigits_loop p_vli i else Suc i)"

definition vli_numDigits :: "vli \<Rightarrow> nat" where
  "vli_numDigits p_vli = vli_numDigits_loop p_vli NUM_ECC_DIGITS"

function digit_bits :: "u64 \<Rightarrow> nat" where
  "digit_bits l_digit = (if l_digit = 0 then 0 else Suc (digit_bits (drop_bit 1 l_digit)))"
  by pat_completeness auto
termination
  by (relation "measure unat")
    (auto simp: unat_drop_bit_div unat_gt_0)

declare digit_bits.simps [simp del]

definition vli_numBits :: "vli \<Rightarrow> nat" where
  "vli_numBits p_vli =
     (let l_numDigits = vli_numDigits p_vli in
      if l_numDigits = 0 then 0
      else (l_numDigits - 1) * 64 + digit_bits (p_vli ! (l_numDigits - 1)))"

definition vli_set :: "vli \<Rightarrow> vli" where
  "vli_set p_src = take NUM_ECC_DIGITS p_src"

fun vli_cmp_loop :: "vli \<Rightarrow> vli \<Rightarrow> nat \<Rightarrow> int" where
  "vli_cmp_loop p_left p_right 0 = 0"
| "vli_cmp_loop p_left p_right (Suc i) =
     (if p_left ! i > p_right ! i then 1
      else if p_left ! i < p_right ! i then -1
      else vli_cmp_loop p_left p_right i)"

definition vli_cmp :: "vli \<Rightarrow> vli \<Rightarrow> int" where
  "vli_cmp p_left p_right = vli_cmp_loop p_left p_right NUM_ECC_DIGITS"

subsection \<open>Shifts, addition and subtraction\<close>

fun vli_lshift_loop :: "nat \<Rightarrow> u64 \<Rightarrow> vli \<Rightarrow> vli \<times> u64" where
  "vli_lshift_loop p_shift l_carry [] = ([], l_carry)"
| "vli_lshift_loop p_shift l_carry (l_temp # ds) =
     (let (res, c) = vli_lshift_loop p_shift (drop_bit (64 - p_shift) l_temp) ds
      in ((push_bit p_shift l_temp OR l_carry) # res, c))"

definition vli_lshift :: "vli \<Rightarrow> nat \<Rightarrow> vli \<times> u64" where
  "vli_lshift p_in p_shift = vli_lshift_loop p_shift 0 (take NUM_ECC_DIGITS p_in)"

text \<open>The loop of \<open>vli_rshift1\<close> runs from the most significant digit down.\<close>

fun vli_rshift1_loop :: "u64 \<Rightarrow> vli \<Rightarrow> vli" where
  "vli_rshift1_loop l_carry [] = []"
| "vli_rshift1_loop l_carry (l_temp # ds) =
     (drop_bit 1 l_temp OR l_carry) # vli_rshift1_loop (push_bit 63 l_temp) ds"

definition vli_rshift1 :: "vli \<Rightarrow> vli" where
  "vli_rshift1 p_vli = rev (vli_rshift1_loop 0 (rev (take NUM_ECC_DIGITS p_vli)))"

fun vli_add_loop :: "u64 \<Rightarrow> vli \<Rightarrow> vli \<Rightarrow> vli \<times> u64" where
  "vli_add_loop l_carry (l # ls) (r # rs) =
     (let l_sum = l + r + l_carry;
          l_carry' = (if l_sum \<noteq> l then of_bool (l_sum < l) else l_carry);
          (res, c) = vli_add_loop l_carry' ls rs
      in (l_sum # res, c))"
| "vli_add_loop l_carry _ _ = ([], l_carry)"

definition vli_add :: "vli \<Rightarrow> vli \<Rightarrow> vli \<times> u64" where
  "vli_add p_left p_right =
     vli_add_loop 0 (take NUM_ECC_DIGITS p_left) (take NUM_ECC_DIGITS p_right)"

fun vli_sub_loop :: "u64 \<Rightarrow> vli \<Rightarrow> vli \<Rightarrow> vli \<times> u64" where
  "vli_sub_loop l_borrow (l # ls) (r # rs) =
     (let l_diff = l - r - l_borrow;
          l_borrow' = (if l_diff \<noteq> l then of_bool (l_diff > l) else l_borrow);
          (res, b) = vli_sub_loop l_borrow' ls rs
      in (l_diff # res, b))"
| "vli_sub_loop l_borrow _ _ = ([], l_borrow)"

definition vli_sub :: "vli \<Rightarrow> vli \<Rightarrow> vli \<times> u64" where
  "vli_sub p_left p_right =
     vli_sub_loop 0 (take NUM_ECC_DIGITS p_left) (take NUM_ECC_DIGITS p_right)"

lemma exp256: "64 * 4 = (256 :: nat)"
  by simp

subsection \<open>Correctness of the digit loops\<close>

lemma is_vli_clear [len_simps]: "is_vli vli_clear"
  by (simp add: is_vli_def vli_clear_def)

lemma vli_val_clear [val_simps]: "vli_val vli_clear = 0"
  by (simp add: vli_clear_def)

lemma vli_set_id [simp]: "is_vli x \<Longrightarrow> vli_set x = x"
  by (simp add: vli_set_def is_vli_def)

lemma vli_isZero_loop_val: "vli_isZero_loop ds \<longleftrightarrow> limbs_val ds = 0"
  by (induction ds) (auto simp: unat_eq_zero)

lemma vli_isZero_val [val_simps]: "is_vli x \<Longrightarrow> vli_isZero x \<longleftrightarrow> vli_val x = 0"
  by (simp add: vli_isZero_def vli_isZero_loop_val is_vli_def)

text \<open>One digit of an addition: the code's carry test is exact.\<close>

lemma add_digit:
  fixes l r c :: u64
  assumes "unat c \<le> 1"
  shows "unat (l + r + c) + 2 ^ 64 * unat (if l + r + c \<noteq> l then of_bool (l + r + c < l) else c)
         = unat l + unat r + unat c"
    and "unat (if l + r + c \<noteq> l then of_bool (l + r + c < l) else c :: u64) \<le> 1"
proof -
  have b: "unat l < 2 ^ 64" "unat r < 2 ^ 64"
    using unat_bound [of l] unat_bound [of r] by simp_all
  have s: "unat (l + r + c) = (unat l + unat r + unat c) mod 2 ^ 64"
    by (simp add: unat_word_ariths mod_simps)
  show "unat (l + r + c) + 2 ^ 64 * unat (if l + r + c \<noteq> l then of_bool (l + r + c < l) else c)
         = unat l + unat r + unat c"
  proof (cases "unat l + unat r + unat c < 2 ^ 64")
    case True
    then have "unat (l + r + c) = unat l + unat r + unat c" by (simp add: s)
    then show ?thesis by (auto simp: word_lt_unat word_eq_unat)
  next
    case False
    then have "unat (l + r + c) = unat l + unat r + unat c - 2 ^ 64"
      using b assms by (simp add: s le_mod_geq)
    then show ?thesis using b assms False by (auto simp: word_lt_unat word_eq_unat)
  qed
  show "unat (if l + r + c \<noteq> l then of_bool (l + r + c < l) else c :: u64) \<le> 1"
    using assms by simp
qed

lemma len64: "LENGTH(64) = 64"
  by simp

lemma add_compose:
  fixes B M :: nat
  assumes "s + B * d = l + r + c" "v + M * c' = L + R + d"
  shows "(s + B * v) + (B * M) * c' = (l + B * L) + (r + B * R) + c"
proof -
  have "(s + B * v) + (B * M) * c' = s + B * (v + M * c')" by (simp add: algebra_simps)
  also have "\<dots> = (s + B * d) + B * (L + R)" by (simp add: assms(2) algebra_simps)
  finally show ?thesis by (simp add: assms(1) algebra_simps)
qed

lemma sub_compose:
  fixes B M :: nat
  assumes "s + r + b = l + B * d" "v + R + d = L + M * b'"
  shows "(s + B * v) + (r + B * R) + b = (l + B * L) + (B * M) * b'"
proof -
  have "(s + B * v) + (r + B * R) + b = (s + r + b) + B * (v + R)" by (simp add: algebra_simps)
  also have "\<dots> = l + B * (v + R + d)" unfolding assms(1) by (simp add: algebra_simps)
  finally show ?thesis unfolding assms(2) by (simp add: algebra_simps)
qed

lemma vli_add_loop_val:
  assumes "length ls = length rs" "unat c \<le> 1" "vli_add_loop c ls rs = (res, c')"
  shows "vli_val res + 2 ^ (64 * length ls) * unat c' = vli_val ls + vli_val rs + unat c \<and>
         length res = length ls \<and> unat c' \<le> 1"
  using assms
proof (induction ls rs arbitrary: c res c' rule: list_induct2)
  case (Cons l ls r rs)
  define d where "d = (if l + r + c \<noteq> l then of_bool (l + r + c < l) else c)"
  obtain res1 c1 where rec: "vli_add_loop d ls rs = (res1, c1)" by force
  have res: "res = (l + r + c) # res1" "c' = c1"
    using Cons.prems(2) rec by (auto simp: d_def Let_def split: prod.splits)
  note digit = add_digit [OF Cons.prems(1), of l r, folded d_def]
  from Cons.IH [OF digit(2) rec]
  have ih: "vli_val res1 + 2 ^ (64 * length ls) * unat c1 = vli_val ls + vli_val rs + unat d"
    "length res1 = length ls" "unat c1 \<le> 1" by simp_all
  have "vli_val res + 2 ^ (64 * length (l # ls)) * unat c'
      = vli_val (l # ls) + vli_val (r # rs) + unat c"
    using add_compose [OF digit(1) ih(1)] by (simp only: res limbs_val.simps len64
        list.size power_add mult_Suc_right add_0_right Nat.add_0_right add_Suc_right)
  then show ?case using ih(2,3) res by simp
qed simp

text \<open>\<open>vli_add\<close>: the sum with the returned carry as bit 256.\<close>

lemma vli_add_val:
  assumes "is_vli x" "is_vli y"
  shows "vli_val (fst (vli_add x y)) + 2 ^ 256 * unat (snd (vli_add x y)) = vli_val x + vli_val y"
    and "is_vli (fst (vli_add x y))" and "unat (snd (vli_add x y)) \<le> 1"
proof -
  have len: "length x = 4" "length y = 4" using assms by (simp_all add: len_simps)
  obtain res c where loop: "vli_add_loop 0 x y = (res, c)" by force
  then have eq: "vli_add x y = (res, c)" using len by (simp add: vli_add_def)
  have z: "unat (0 :: u64) \<le> 1" by simp
  note key = vli_add_loop_val [OF trans [OF len(1) len(2) [symmetric]] z loop,
      unfolded len exp256 unsigned_0 add_0_right]
  show "vli_val (fst (vli_add x y)) + 2 ^ 256 * unat (snd (vli_add x y)) = vli_val x + vli_val y"
    "is_vli (fst (vli_add x y))" "unat (snd (vli_add x y)) \<le> 1"
    unfolding eq fst_conv snd_conv is_vli_def NUM_ECC_DIGITS_4
    by (rule key [THEN conjunct1] key [THEN conjunct2, THEN conjunct1]
        key [THEN conjunct2, THEN conjunct2])+
qed

lemma sub_digit:
  fixes l r b :: u64
  assumes "unat b \<le> 1"
  shows "unat (l - r - b) + unat r + unat b
         = unat l + 2 ^ 64 * unat (if l - r - b \<noteq> l then of_bool (l - r - b > l) else b)"
    and "unat (if l - r - b \<noteq> l then of_bool (l - r - b > l) else b :: u64) \<le> 1"
proof -
  have bd: "unat l < 2 ^ 64" "unat r < 2 ^ 64" "unat (l - r - b) < 2 ^ 64"
    using unat_bound [of l] unat_bound [of r] unat_bound [of "l - r - b"] by simp_all
  have "l = (l - r - b) + r + b" by simp
  then have e: "unat l = (unat (l - r - b) + unat r + unat b) mod 2 ^ 64"
    by (metis (no_types, lifting) unat_word_ariths(1) mod_add_left_eq len64)
  show "unat (l - r - b) + unat r + unat b
         = unat l + 2 ^ 64 * unat (if l - r - b \<noteq> l then of_bool (l - r - b > l) else b)"
  proof (cases "unat (l - r - b) + unat r + unat b < 2 ^ 64")
    case True
    then have "unat l = unat (l - r - b) + unat r + unat b" using e by simp
    then show ?thesis by (auto simp: word_lt_unat word_eq_unat)
  next
    case False
    then have "unat l = unat (l - r - b) + unat r + unat b - 2 ^ 64"
      using e bd assms by (simp add: le_mod_geq)
    then show ?thesis using bd assms False by (auto simp: word_lt_unat word_eq_unat)
  qed
  show "unat (if l - r - b \<noteq> l then of_bool (l - r - b > l) else b :: u64) \<le> 1"
    using assms by simp
qed

lemma vli_sub_loop_val:
  assumes "length ls = length rs" "unat b \<le> 1" "vli_sub_loop b ls rs = (res, b')"
  shows "vli_val res + vli_val rs + unat b = vli_val ls + 2 ^ (64 * length ls) * unat b' \<and>
         length res = length ls \<and> unat b' \<le> 1"
  using assms
proof (induction ls rs arbitrary: b res b' rule: list_induct2)
  case (Cons l ls r rs)
  define d where "d = (if l - r - b \<noteq> l then of_bool (l - r - b > l) else b)"
  obtain res1 b1 where rec: "vli_sub_loop d ls rs = (res1, b1)" by force
  have res: "res = (l - r - b) # res1" "b' = b1"
    using Cons.prems(2) rec by (auto simp: d_def Let_def split: prod.splits)
  note digit = sub_digit [OF Cons.prems(1), of l r, folded d_def]
  from Cons.IH [OF digit(2) rec]
  have ih: "vli_val res1 + vli_val rs + unat d = vli_val ls + 2 ^ (64 * length ls) * unat b1"
    "length res1 = length ls" "unat b1 \<le> 1" by simp_all
  have "vli_val res + vli_val (r # rs) + unat b
      = vli_val (l # ls) + 2 ^ (64 * length (l # ls)) * unat b'"
    using sub_compose [OF digit(1) ih(1)] by (simp only: res limbs_val.simps len64
        list.size power_add mult_Suc_right add_0_right Nat.add_0_right add_Suc_right)
  then show ?case using ih(2,3) res by simp
qed simp

lemma vli_sub_val:
  assumes "is_vli x" "is_vli y"
  shows "vli_val (fst (vli_sub x y)) + vli_val y = vli_val x + 2 ^ 256 * unat (snd (vli_sub x y))"
    and "is_vli (fst (vli_sub x y))" and "unat (snd (vli_sub x y)) \<le> 1"
proof -
  have len: "length x = 4" "length y = 4" using assms by (simp_all add: len_simps)
  obtain res b where loop: "vli_sub_loop 0 x y = (res, b)" by force
  then have eq: "vli_sub x y = (res, b)" using len by (simp add: vli_sub_def)
  have z: "unat (0 :: u64) \<le> 1" by simp
  note key = vli_sub_loop_val [OF trans [OF len(1) len(2) [symmetric]] z loop,
      unfolded len exp256 unsigned_0 add_0_right]
  show "vli_val (fst (vli_sub x y)) + vli_val y = vli_val x + 2 ^ 256 * unat (snd (vli_sub x y))"
    "is_vli (fst (vli_sub x y))" "unat (snd (vli_sub x y)) \<le> 1"
    unfolding eq fst_conv snd_conv is_vli_def NUM_ECC_DIGITS_4
    by (rule key [THEN conjunct1] key [THEN conjunct2, THEN conjunct1]
        key [THEN conjunct2, THEN conjunct2])+
qed

subsection \<open>Shifts\<close>

lemma drop_bit_high_less:
  fixes w :: u64
  assumes "n \<le> 64"
  shows "unat (drop_bit (64 - n) w) < 2 ^ n"
proof -
  have "unat w < 2 ^ (64 - n) * 2 ^ n"
    using unat_bound [of w] assms by (simp add: power_add [symmetric])
  then show ?thesis by (simp add: unat_drop_bit_div less_mult_imp_div_less mult.commute)
qed

lemma shift_digit:
  fixes w c :: u64
  assumes "n \<le> 64" "unat c < 2 ^ n"
  shows "unat (push_bit n w OR c) + 2 ^ 64 * unat (drop_bit (64 - n) w) = 2 ^ n * unat w + unat c"
proof -
  have split: "(2 :: nat) ^ 64 = 2 ^ n * 2 ^ (64 - n)"
    using assms(1) by (simp add: power_add [symmetric])
  have "(unat w * 2 ^ n) mod 2 ^ 64 = 2 ^ n * (unat w mod 2 ^ (64 - n))"
    unfolding split by (simp only: mult.commute [of "unat w"] mult_mod_right)
  then have "unat (push_bit n w OR c) = 2 ^ n * (unat w mod 2 ^ (64 - n)) + unat c"
    using unat_push_bit_or [where w = w and c = c and n = n] assms
    by (simp only: len64 unat_push_bit_mod)
  moreover have "2 ^ 64 * unat (drop_bit (64 - n) w) = 2 ^ n * (2 ^ (64 - n) * (unat w div 2 ^ (64 - n)))"
    by (simp only: split unat_drop_bit_div mult.assoc)
  moreover have "2 ^ n * (unat w mod k) + unat c + 2 ^ n * (k * (unat w div k)) = 2 ^ n * unat w + unat c"
    for k :: nat
    by (simp only: add.commute [of _ "unat c"] add.assoc distrib_left [symmetric] mod_mult_div_eq)
  ultimately show ?thesis by (simp only:)
qed

lemma vli_lshift_loop_val:
  assumes "n \<le> 64" "unat c < 2 ^ n" "vli_lshift_loop n c ds = (res, c')"
  shows "vli_val res + 2 ^ (64 * length ds) * unat c' = 2 ^ n * vli_val ds + unat c \<and>
         length res = length ds \<and> unat c' < 2 ^ n"
  using assms(2,3)
proof (induction ds arbitrary: c res c')
  case (Cons d ds)
  obtain res1 c1 where rec: "vli_lshift_loop n (drop_bit (64 - n) d) ds = (res1, c1)" by force
  have res: "res = (push_bit n d OR c) # res1" "c' = c1"
    using Cons.prems(2) rec by simp_all
  from Cons.IH [OF drop_bit_high_less [OF assms(1)] rec]
  have ih: "vli_val res1 + 2 ^ (64 * length ds) * unat c1
      = 2 ^ n * vli_val ds + unat (drop_bit (64 - n) d)"
    "length res1 = length ds" "unat c1 < 2 ^ n" by simp_all
  have comp: "(s + B * v) + (B * M) * e = m * (x + B * y) + a"
    if "s + B * h = m * x + a" "v + M * e = m * y + h" for s B v M e m x y a h :: nat
  proof -
    have "(s + B * v) + (B * M) * e = s + B * (v + M * e)" by (simp add: algebra_simps)
    also have "\<dots> = (s + B * h) + B * (m * y)" unfolding that(2) by (simp add: algebra_simps)
    finally show ?thesis unfolding that(1) by (simp add: algebra_simps)
  qed
  have "vli_val res + 2 ^ (64 * length (d # ds)) * unat c' = 2 ^ n * vli_val (d # ds) + unat c"
    using comp [OF shift_digit [OF assms(1) Cons.prems(1)] ih(1)] by (simp only: res limbs_val.simps
        len64 list.size power_add mult_Suc_right add_0_right Nat.add_0_right add_Suc_right)
  then show ?case using ih(2,3) res by simp
qed simp

lemma vli_lshift_val:
  assumes "is_vli x" "n \<le> 64"
  shows "vli_val (fst (vli_lshift x n)) + 2 ^ 256 * unat (snd (vli_lshift x n)) = 2 ^ n * vli_val x"
    and "is_vli (fst (vli_lshift x n))" and "unat (snd (vli_lshift x n)) < 2 ^ n"
proof -
  have len: "length x = 4" using assms by (simp add: len_simps)
  obtain res c where loop: "vli_lshift_loop n 0 x = (res, c)" by force
  then have eq: "vli_lshift x n = (res, c)" using len by (simp add: vli_lshift_def)
  have z: "unat (0 :: u64) < 2 ^ n" by simp
  note key = vli_lshift_loop_val [OF assms(2) z loop, unfolded len exp256 unsigned_0 add_0_right]
  show "vli_val (fst (vli_lshift x n)) + 2 ^ 256 * unat (snd (vli_lshift x n)) = 2 ^ n * vli_val x"
    "is_vli (fst (vli_lshift x n))" "unat (snd (vli_lshift x n)) < 2 ^ n"
    unfolding eq fst_conv snd_conv is_vli_def NUM_ECC_DIGITS_4
    by (rule key [THEN conjunct1] key [THEN conjunct2, THEN conjunct1]
        key [THEN conjunct2, THEN conjunct2])+
qed

lemma rshift1_digit:
  fixes w c :: u64
  assumes "unat c = 2 ^ 63 * g" "g \<le> 1"
  shows "unat (drop_bit 1 w OR c) = unat w div 2 + 2 ^ 63 * g"
proof -
  have "unat (drop_bit 1 w) < 2 ^ 63"
    using drop_bit_high_less [of 63 w] by simp
  moreover have "c = push_bit 63 (of_nat g)"
    using assms by (auto simp: word_eq_unat unat_push_bit_mod le_Suc_eq)
  ultimately show ?thesis
    using assms unat_push_bit_or [of 63 "drop_bit 1 w" "of_nat g :: u64"]
    by (simp add: or.commute unat_drop_bit_div)
qed

lemma push_bit_63: "unat (push_bit 63 (w :: u64)) = 2 ^ 63 * (unat w mod 2)"
proof -
  have "(unat w * 2 ^ 63) mod (2 * 2 ^ 63) = (unat w mod 2) * 2 ^ 63"
    by (rule mod_mult_mult2)
  then show ?thesis by (simp add: unat_push_bit_mod)
qed

lemma vli_rshift1_loop_val:
  assumes "unat c = 2 ^ 63 * g" "g \<le> 1"
  shows "vli_val (rev (vli_rshift1_loop c ds)) = (vli_val (rev ds) + 2 ^ (64 * length ds) * g) div 2 \<and>
         length (vli_rshift1_loop c ds) = length ds"
  using assms
proof (induction ds arbitrary: c g)
  case (Cons d ds)
  have g: "unat d mod 2 \<le> 1" by simp
  note ih = Cons.IH [OF push_bit_63 g]
  define M :: nat where "M = 2 ^ (64 * length ds)"
  define V where "V = vli_val (rev ds)"
  have len: "length (vli_rshift1_loop (push_bit 63 d) ds) = length ds" using ih by simp
  have gen: "(V + M * e) + 2 * (M * (f + N * g)) = V + M * (e + 2 * f) + (M * (2 * N)) * g" for e f N
    by (simp add: algebra_simps)
  have "vli_val (rev (vli_rshift1_loop c (d # ds)))
      = (V + M * (unat d mod 2)) div 2 + M * (unat d div 2 + 2 ^ 63 * g)"
    using ih len by (simp add: limbs_val_append rshift1_digit [OF Cons.prems, unfolded One_nat_def] M_def V_def)
  also have "\<dots> = ((V + M * (unat d mod 2)) + 2 * (M * (unat d div 2 + 2 ^ 63 * g))) div 2"
    by simp
  also have "(V + M * (unat d mod 2)) + 2 * (M * (unat d div 2 + 2 ^ 63 * g))
      = V + M * (unat d mod 2 + 2 * (unat d div 2)) + (M * 2 ^ 64) * g"
    using gen [of "unat d mod 2" "unat d div 2" "2 ^ 63"] by simp
  also have "unat d mod 2 + 2 * (unat d div 2) = unat d" by simp
  also have "V + M * unat d + (M * 2 ^ 64) * g
      = vli_val (rev (d # ds)) + 2 ^ (64 * length (d # ds)) * g"
    by (simp add: limbs_val_append M_def V_def power_add)
  finally show ?case using len by simp
qed simp

lemma vli_rshift1_val [val_simps]:
  assumes "is_vli x"
  shows "vli_val (vli_rshift1 x) = vli_val x div 2"
  using vli_rshift1_loop_val [of 0 0 "rev x"] assms
  by (simp add: vli_rshift1_def is_vli_def)

lemma is_vli_rshift1 [len_simps]: "is_vli x \<Longrightarrow> is_vli (vli_rshift1 x)"
  using vli_rshift1_loop_val [of 0 0 "rev x"] by (simp add: vli_rshift1_def is_vli_def)

subsection \<open>Comparison and bit counts\<close>

lemma vli_val_take_Suc:
  fixes x :: vli
  assumes "i < length x"
  shows "limbs_val (take (Suc i) x) = limbs_val (take i x) + 2 ^ (64 * i) * unat (x ! i)"
    and "limbs_val (take i x) < 2 ^ (64 * i)"
proof -
  have "take (Suc i) x = take i x @ [x ! i]" using assms by (rule take_Suc_conv_app_nth)
  then show "limbs_val (take (Suc i) x) = limbs_val (take i x) + 2 ^ (64 * i) * unat (x ! i)"
    using assms by (simp add: limbs_val_snoc_high)
  show "limbs_val (take i x) < 2 ^ (64 * i)"
    using limbs_val_less [of "take i x"] assms by simp
qed

lemma high_digit_less:
  fixes a b B x y :: nat
  assumes "x < B" "a < b"
  shows "x + B * a < y + B * b"
proof -
  have "x + B * a < B * Suc a" using assms(1) by simp
  also have "\<dots> \<le> B * b" using assms(2) by (intro mult_le_mono2) simp
  finally show ?thesis by simp
qed

lemma sgn_diff_nat:
  "a < b \<Longrightarrow> sgn (int b - int a) = 1" "a < b \<Longrightarrow> sgn (int a - int b) = -1"
  by simp_all

lemma vli_cmp_loop_val:
  assumes "n \<le> length x" "n \<le> length y"
  shows "vli_cmp_loop x y n = sgn (int (vli_val (take n x)) - int (vli_val (take n y)))"
  using assms
proof (induction n)
  case (Suc n)
  then have n: "n < length x" "n < length y" by simp_all
  note X = vli_val_take_Suc [OF n(1)] and Y = vli_val_take_Suc [OF n(2)]
  consider "unat (x ! n) > unat (y ! n)" | "unat (x ! n) < unat (y ! n)" | "x ! n = y ! n"
    by (metis linorder_neqE word_eq_unat)
  then show ?case
  proof cases
    case 1
    then have "limbs_val (take (Suc n) y) < limbs_val (take (Suc n) x)"
      unfolding X(1) Y(1) using Y(2) by (intro high_digit_less)
    then show ?thesis using 1 by (simp only: vli_cmp_loop.simps word_lt_unat if_True sgn_diff_nat)
  next
    case 2
    then have "limbs_val (take (Suc n) x) < limbs_val (take (Suc n) y)"
      unfolding X(1) Y(1) using X(2) by (intro high_digit_less)
    then show ?thesis using 2
      by (simp only: vli_cmp_loop.simps word_lt_unat if_True if_False not_less_iff_gr_or_eq
          sgn_diff_nat if_not_P less_not_sym)
  next
    case 3
    then show ?thesis using Suc by (simp add: X(1) Y(1))
  qed
qed simp

lemma vli_cmp_val:
  assumes "is_vli x" "is_vli y"
  shows "vli_cmp x y = sgn (int (vli_val x) - int (vli_val y))"
  using vli_cmp_loop_val [of 4 x y] assms by (simp add: vli_cmp_def is_vli_def)

lemma vli_cmp_cases:
  assumes "is_vli x" "is_vli y"
  shows "vli_cmp x y < 0 \<longleftrightarrow> vli_val x < vli_val y"
    and "vli_cmp x y = 0 \<longleftrightarrow> x = y"
    and "vli_cmp x y > 0 \<longleftrightarrow> vli_val y < vli_val x"
    and "vli_cmp x y \<ge> 0 \<longleftrightarrow> vli_val y \<le> vli_val x"
    and "vli_cmp x y \<le> 0 \<longleftrightarrow> vli_val x \<le> vli_val y"
    and "vli_cmp x y = 1 \<longleftrightarrow> vli_val y < vli_val x"
  using vli_val_inj [OF assms]
  by (auto simp: vli_cmp_val [OF assms] sgn_if split: if_splits)

lemma vli_testBit_val:
  assumes "is_vli x" "i < 256"
  shows "vli_testBit x i \<noteq> 0 \<longleftrightarrow> bit (vli_val x) i"
proof -
  have q: "i div 64 < length x" using assms by (simp add: is_vli_def)
  have "vli_testBit x i \<noteq> 0 \<longleftrightarrow> bit (x ! (i div 64)) (i mod 64)"
    by (simp add: vli_testBit_def and_exp_eq_0_iff_not_bit push_bit_of_1)
  also have "\<dots> \<longleftrightarrow> odd (unat (x ! (i div 64)) div 2 ^ (i mod 64))"
    by (simp add: bit_iff_odd [symmetric] bit_unsigned_iff)
  also have "unat (x ! (i div 64)) = vli_val x div 2 ^ (64 * (i div 64)) mod 2 ^ 64"
    by (rule limbs_val_nth [OF q, unfolded len64])
  also have "odd (vli_val x div 2 ^ (64 * (i div 64)) mod 2 ^ 64 div 2 ^ (i mod 64))
      \<longleftrightarrow> bit (take_bit 64 (drop_bit (64 * (i div 64)) (vli_val x))) (i mod 64)"
    by (simp add: bit_iff_odd take_bit_eq_mod drop_bit_eq_div)
  also have "\<dots> \<longleftrightarrow> bit (vli_val x) i"
    by (simp add: bit_take_bit_iff bit_drop_bit_eq)
  finally show ?thesis .
qed

lemma digit_bits_bounds:
  "unat d < 2 ^ digit_bits d" "d \<noteq> 0 \<Longrightarrow> 2 ^ (digit_bits d - 1) \<le> unat d" "d \<noteq> 0 \<Longrightarrow> 0 < digit_bits d"
proof (induction d rule: digit_bits.induct)
  case (1 d)
  have e: "digit_bits d = (if d = 0 then 0 else Suc (digit_bits (drop_bit 1 d)))"
    by (rule digit_bits.simps)
  have h: "unat (drop_bit 1 d) = unat d div 2" by (simp only: unat_drop_bit_div power_one_right)
  {
    case 1
    show ?case
    proof (cases "d = 0")
      case False
      then have "unat d div 2 < 2 ^ digit_bits (drop_bit 1 d)" using "1.IH"(1) False by (simp only: h not_False_eq_True)
      then have "unat d < 2 * 2 ^ digit_bits (drop_bit 1 d)" by linarith
      then show ?thesis using False by (simp add: e)
    qed (simp add: e)
  next
    case 2
    show ?case
    proof (cases "drop_bit 1 d = 0")
      case True
      then have "digit_bits d = 1" using 2 by (simp add: e digit_bits.simps [of 0])
      then show ?thesis using 2 by (simp add: unat_gt_0 Suc_le_eq)
    next
      case False
      then have "2 ^ (digit_bits (drop_bit 1 d) - 1) \<le> unat d div 2" "0 < digit_bits (drop_bit 1 d)"
        using "1.IH"(2,3) 2 by (simp_all add: h [unfolded One_nat_def])
      then have "2 * 2 ^ (digit_bits (drop_bit 1 d) - 1) \<le> unat d" by linarith
      then show ?thesis using 2 \<open>0 < digit_bits (drop_bit 1 d)\<close>
        by (simp add: e power_eq_if)
    qed
  next
    case 3
    then show ?case by (simp add: e)
  }
qed

lemma digit_bits_le: "digit_bits d \<le> 64"
proof (rule ccontr)
  assume a: "\<not> digit_bits d \<le> 64"
  then have "d \<noteq> 0" by (auto simp: digit_bits.simps [of 0])
  then have "2 ^ (digit_bits d - 1) < (2 :: nat) ^ 64"
    by (rule le_less_trans [OF digit_bits_bounds(2) unat_bound [of d, unfolded len64]])
  then have "digit_bits d - 1 < 64" by (rule power_less_imp_less_exp [rotated]) simp
  then show False using a by simp
qed

text \<open>\<open>vli_numBits\<close> is the position of the highest set bit, plus one.\<close>

lemma vli_numDigits_loop_val:
  assumes "n \<le> length x"
  shows "vli_numDigits_loop x n \<le> n \<and>
    vli_val (take n x) = vli_val (take (vli_numDigits_loop x n) x) \<and>
    (vli_numDigits_loop x n \<noteq> 0 \<longrightarrow> x ! (vli_numDigits_loop x n - 1) \<noteq> 0)"
  using assms
proof (induction n)
  case (Suc n)
  then show ?case by (auto simp: vli_val_take_Suc(1))
qed simp

lemma vli_numBits_bounds:
  assumes "is_vli x"
  shows "vli_val x < 2 ^ vli_numBits x"
    and "vli_val x \<noteq> 0 \<Longrightarrow> 2 ^ (vli_numBits x - 1) \<le> vli_val x"
    and "vli_numBits x = 0 \<longleftrightarrow> vli_val x = 0"
    and "vli_numBits x \<le> 256"
proof -
  define n where "n = vli_numDigits x"
  have len: "length x = 4" using assms by (simp add: len_simps)
  have n: "n \<le> 4" "vli_val x = vli_val (take n x)" "n \<noteq> 0 \<longrightarrow> x ! (n - 1) \<noteq> 0"
    using vli_numDigits_loop_val [of 4 x] len by (simp_all add: n_def vli_numDigits_def)
  have all: "vli_val x < 2 ^ vli_numBits x \<and> (vli_val x \<noteq> 0 \<longrightarrow> 2 ^ (vli_numBits x - 1) \<le> vli_val x) \<and>
     (vli_numBits x = 0 \<longleftrightarrow> vli_val x = 0) \<and> vli_numBits x \<le> 256"
  proof (cases n)
    case 0
    then have "vli_val x = 0" "vli_numBits x = 0" using n(2) by (simp_all add: vli_numBits_def n_def)
    then show ?thesis by simp
  next
    case (Suc m)
    have m: "m < length x" using Suc n(1) len by simp
    define d where "d = x ! m"
    have d: "d \<noteq> 0" using n(3) Suc by (simp add: d_def)
    have nb: "vli_numBits x = 64 * m + digit_bits d"
      using Suc by (simp add: vli_numBits_def n_def [symmetric] d_def Let_def)
    note X = vli_val_take_Suc [OF m]
    have v: "vli_val x = vli_val (take m x) + 2 ^ (64 * m) * unat d" using X n(2) Suc by (simp add: d_def)
    have "vli_val x < 2 ^ (64 * m) * 2 ^ digit_bits d"
      unfolding v using X(2) digit_bits_bounds(1) by (rule digit_cons_less)
    moreover have "2 ^ (64 * m) * 2 ^ (digit_bits d - 1) \<le> vli_val x"
      using digit_bits_bounds(2) [OF d] by (simp add: v trans_le_add2)
    moreover have "0 < digit_bits d" by (rule digit_bits_bounds(3) [OF d])
    moreover have "vli_numBits x \<le> 256" using nb digit_bits_le [of d] Suc n(1) by simp
    moreover have "vli_val x \<noteq> 0" using d by (simp add: v unat_eq_zero)
    ultimately show ?thesis
      by (simp add: nb power_add [symmetric])
  qed
  then show "vli_val x < 2 ^ vli_numBits x"
    "vli_val x \<noteq> 0 \<Longrightarrow> 2 ^ (vli_numBits x - 1) \<le> vli_val x"
    "vli_numBits x = 0 \<longleftrightarrow> vli_val x = 0" "vli_numBits x \<le> 256"
    by blast+
qed

end
