(* ===== verification/Vli_Mult.thy ===== *)
theory Vli_Mult
  imports Vli
begin

text \<open>
  Multiplication and squaring of bryllite-core/secp256r1.cpp (lines 294-444), in both
  versions the preprocessor can select: the one over \<open>unsigned __int128\<close>, which is
  proved to compute the exact 512-bit product, and the portable one over a pair of
  64-bit halves, whose carry test is too weak.
\<close>

type_synonym u128 = "128 word"

subsection \<open>With 128-bit integers\<close>

definition l_min :: "nat \<Rightarrow> nat" where
  "l_min k = (if k < NUM_ECC_DIGITS then 0 else (k + 1) - NUM_ECC_DIGITS)"

definition vli_mult_step :: "vli \<Rightarrow> vli \<Rightarrow> nat \<Rightarrow> u128 \<times> u64 \<Rightarrow> nat \<Rightarrow> u128 \<times> u64" where
  "vli_mult_step p_left p_right k = (\<lambda>(r01, r2) i.
     let l_product = ucast (p_left ! i) * ucast (p_right ! (k - i));
         r01 = r01 + l_product;
         r2 = r2 + of_bool (r01 < l_product)
     in (r01, r2))"

text \<open>
  One iteration of the outer loop for digit \<open>k\<close>: it stores the low half of \<open>r01\<close>
  and shifts the accumulator; the indices \<open>i\<close> the inner loop visits are the last
  argument.
\<close>

definition vli_column :: "(nat \<Rightarrow> u128 \<times> u64 \<Rightarrow> nat \<Rightarrow> u128 \<times> u64) \<Rightarrow> nat \<Rightarrow> u128 \<Rightarrow> nat list
    \<Rightarrow> u64 \<times> u128" where
  "vli_column inner k r01 is =
     (let (r01, r2) = foldl (inner k) (r01, 0) is
      in (ucast r01, drop_bit 64 r01 OR push_bit 64 (ucast r2)))"

fun vli_columns :: "(nat \<Rightarrow> u128 \<times> u64 \<Rightarrow> nat \<Rightarrow> u128 \<times> u64) \<Rightarrow> (nat \<Rightarrow> nat list) \<Rightarrow> u128 \<Rightarrow> nat list
    \<Rightarrow> vli" where
  "vli_columns inner idx r01 [] = [ucast r01]"
| "vli_columns inner idx r01 (k # ks) =
     (let (d, r01) = vli_column inner k r01 (idx k) in d # vli_columns inner idx r01 ks)"

definition vli_mult :: "vli \<Rightarrow> vli \<Rightarrow> vli" where
  "vli_mult p_left p_right =
     vli_columns (vli_mult_step p_left p_right) (\<lambda>k. [l_min k..<min (k + 1) NUM_ECC_DIGITS]) 0
       [0..<NUM_ECC_DIGITS * 2 - 1]"

definition vli_square_step :: "vli \<Rightarrow> nat \<Rightarrow> u128 \<times> u64 \<Rightarrow> nat \<Rightarrow> u128 \<times> u64" where
  "vli_square_step p_left k = (\<lambda>(r01, r2) i.
     let l_product = ucast (p_left ! i) * ucast (p_left ! (k - i));
         (r2, l_product) =
           (if i < k - i then (r2 + ucast (drop_bit 127 l_product), l_product * 2)
            else (r2, l_product));
         r01 = r01 + l_product;
         r2 = r2 + of_bool (r01 < l_product)
     in (r01, r2))"

definition vli_square :: "vli \<Rightarrow> vli" where
  "vli_square p_left =
     vli_columns (vli_square_step p_left) (\<lambda>k. filter (\<lambda>i. i \<le> k - i) [l_min k..<k + 1]) 0
       [0..<NUM_ECC_DIGITS * 2 - 1]"

subsection \<open>The portable version\<close>

record uint128 =
  m_low :: u64
  m_high :: u64

definition mul_64_64 :: "u64 \<Rightarrow> u64 \<Rightarrow> uint128" where
  "mul_64_64 p_left p_right =
     (let a0 = p_left AND 0xffffffff;
          a1 = drop_bit 32 p_left;
          b0 = p_right AND 0xffffffff;
          b1 = drop_bit 32 p_right;
          m0 = a0 * b0;
          m1 = a0 * b1;
          m2 = a1 * b0;
          m3 = a1 * b1;
          m2 = m2 + drop_bit 32 m0;
          m2 = m2 + m1;
          m3 = (if m2 < m1 then m3 + 0x100000000 else m3)
      in \<lparr>m_low = (m0 AND 0xffffffff) OR push_bit 32 m2, m_high = m3 + drop_bit 32 m2\<rparr>)"

definition add_128_128 :: "uint128 \<Rightarrow> uint128 \<Rightarrow> uint128" where
  "add_128_128 a b =
     (let low = m_low a + m_low b
      in \<lparr>m_low = low, m_high = m_high a + m_high b + of_bool (low < m_low a)\<rparr>)"

definition vli_mult_step_portable ::
    "vli \<Rightarrow> vli \<Rightarrow> nat \<Rightarrow> uint128 \<times> u64 \<Rightarrow> nat \<Rightarrow> uint128 \<times> u64" where
  "vli_mult_step_portable p_left p_right k = (\<lambda>(r01, r2) i.
     let l_product = mul_64_64 (p_left ! i) (p_right ! (k - i));
         r01 = add_128_128 r01 l_product;
         r2 = r2 + of_bool (m_high r01 < m_high l_product)
     in (r01, r2))"

fun vli_columns_portable :: "(nat \<Rightarrow> uint128 \<times> u64 \<Rightarrow> nat \<Rightarrow> uint128 \<times> u64) \<Rightarrow> (nat \<Rightarrow> nat list)
    \<Rightarrow> uint128 \<Rightarrow> nat list \<Rightarrow> vli" where
  "vli_columns_portable inner idx r01 [] = [m_low r01]"
| "vli_columns_portable inner idx r01 (k # ks) =
     (let (r01, r2) = foldl (inner k) (r01, 0) (idx k)
      in m_low r01 # vli_columns_portable inner idx \<lparr>m_low = m_high r01, m_high = r2\<rparr> ks)"

definition vli_mult_portable :: "vli \<Rightarrow> vli \<Rightarrow> vli" where
  "vli_mult_portable p_left p_right =
     vli_columns_portable (vli_mult_step_portable p_left p_right)
       (\<lambda>k. [l_min k..<min (k + 1) NUM_ECC_DIGITS]) \<lparr>m_low = 0, m_high = 0\<rparr>
       [0..<NUM_ECC_DIGITS * 2 - 1]"

definition vli_square_step_portable :: "vli \<Rightarrow> nat \<Rightarrow> uint128 \<times> u64 \<Rightarrow> nat \<Rightarrow> uint128 \<times> u64" where
  "vli_square_step_portable p_left k = (\<lambda>(r01, r2) i.
     let l_product = mul_64_64 (p_left ! i) (p_left ! (k - i));
         (r2, l_product) =
           (if i < k - i
            then (r2 + drop_bit 63 (m_high l_product),
                  \<lparr>m_low = push_bit 1 (m_low l_product),
                   m_high = push_bit 1 (m_high l_product) OR drop_bit 63 (m_low l_product)\<rparr>)
            else (r2, l_product));
         r01 = add_128_128 r01 l_product;
         r2 = r2 + of_bool (m_high r01 < m_high l_product)
     in (r01, r2))"

definition vli_square_portable :: "vli \<Rightarrow> vli" where
  "vli_square_portable p_left =
     vli_columns_portable (vli_square_step_portable p_left)
       (\<lambda>k. filter (\<lambda>i. i \<le> k - i) [l_min k..<k + 1]) \<lparr>m_low = 0, m_high = 0\<rparr>
       [0..<NUM_ECC_DIGITS * 2 - 1]"

subsection \<open>The 128-bit versions are exact\<close>

definition acc_val :: "u128 \<times> u64 \<Rightarrow> nat" where
  "acc_val r = unat (fst r) + 2 ^ 128 * unat (snd r)"

text \<open>An inner loop body that adds \<open>m i\<close> to the accumulator, with room for its carries.\<close>

definition adds :: "(u128 \<times> u64 \<Rightarrow> nat \<Rightarrow> u128 \<times> u64) \<Rightarrow> (nat \<Rightarrow> nat) \<Rightarrow> bool" where
  "adds step m \<longleftrightarrow> (\<forall>r i. unat (snd r) < 1000 \<longrightarrow>
     acc_val (step r i) = acc_val r + m i \<and> unat (snd (step r i)) \<le> unat (snd r) + 2)"

lemma len128: "LENGTH(128) = 128"
  by simp

lemma word_add_carry:
  fixes q p :: "'a::len word"
  shows "unat (q + p) + 2 ^ LENGTH('a) * of_bool (q + p < p) = unat q + unat p"
proof -
  have b: "unat q < 2 ^ LENGTH('a)" "unat p < 2 ^ LENGTH('a)" by (rule unat_bound)+
  have s: "unat (q + p) = (unat q + unat p) mod 2 ^ LENGTH('a)" by (simp add: unat_word_ariths)
  show ?thesis
  proof (cases "unat q + unat p < 2 ^ LENGTH('a)")
    case True
    then show ?thesis by (simp add: s word_lt_unat)
  next
    case False
    then have "unat (q + p) = unat q + unat p - 2 ^ LENGTH('a)"
      unfolding s by (rule mod_sub_once [OF b])
    moreover have "unat q + unat p - 2 ^ LENGTH('a) < unat p" using b False by linarith
    ultimately show ?thesis using False by (simp add: word_lt_unat)
  qed
qed

lemma unat_ucast_64_128 [simp]: "unat (ucast (a :: u64) :: u128) = unat a"
  using unat_bound [of a] by (simp add: unat_ucast_mod)

lemma unat_mult_le: "unat (a :: u64) * unat (b :: u64) \<le> (2 ^ 64 - 1) * (2 ^ 64 - 1)"
  using unat_bound [of a] unat_bound [of b] by (intro mult_le_mono) simp_all

lemma unat_product: "unat (ucast (a :: u64) * ucast (b :: u64) :: u128) = unat a * unat b"
proof -
  have "unat a * unat b < 2 ^ 128" by (rule le_less_trans [OF unat_mult_le]) simp
  then show ?thesis by (simp add: unat_word_ariths)
qed

lemma unat_add_small:
  fixes r d :: u64
  assumes "unat r < 2000" "unat d \<le> 1"
  shows "unat (r + d) = unat r + unat d"
  using assms by (simp add: unat_word_ariths)

lemma acc_add:
  assumes "unat r2 < 2000"
  shows "acc_val (r01 + p, r2 + of_bool (r01 + p < p)) = acc_val (r01, r2) + unat p"
    and "unat (r2 + of_bool (r01 + p < p)) \<le> unat r2 + 1"
proof -
  have s: "unat (r2 + of_bool (r01 + p < p)) = unat r2 + of_bool (r01 + p < p)"
    using unat_add_small [OF assms, of "of_bool (r01 + p < p)"] by simp
  show "acc_val (r01 + p, r2 + of_bool (r01 + p < p)) = acc_val (r01, r2) + unat p"
    using word_add_carry [of r01 p, unfolded len128]
    by (simp only: acc_val_def fst_conv snd_conv s distrib_left)
  show "unat (r2 + of_bool (r01 + p < p)) \<le> unat r2 + 1"
    unfolding s by simp
qed

lemma adds_mult: "adds (vli_mult_step x y k) (\<lambda>i. unat (x ! i) * unat (y ! (k - i)))"
  unfolding adds_def
proof (intro allI impI)
  fix r :: "u128 \<times> u64" and i
  assume small: "unat (snd r) < 1000"
  obtain r01 r2 where r: "r = (r01, r2)" by force
  have r2: "unat r2 < 2000" using small by (simp add: r)
  show "acc_val (vli_mult_step x y k r i) = acc_val r + unat (x ! i) * unat (y ! (k - i)) \<and>
        unat (snd (vli_mult_step x y k r i)) \<le> unat (snd r) + 2"
    using acc_add [OF r2, of r01 "ucast (x ! i) * ucast (y ! (k - i))"]
    by (simp add: r vli_mult_step_def Let_def unat_product)
qed

lemma double_128:
  fixes p :: u128
  shows "unat (p * 2) + 2 ^ 128 * unat (ucast (drop_bit 127 p) :: u64) = 2 * unat p"
    and "unat (ucast (drop_bit 127 p) :: u64) \<le> 1"
proof -
  have b: "unat p < 2 ^ 128" using unat_bound [of p] by simp
  have d: "unat p div 2 ^ 127 \<le> 1"
    using b by (simp add: less_mult_imp_div_less less_Suc_eq_le [symmetric])
  have u: "unat (ucast (drop_bit 127 p) :: u64) = unat p div 2 ^ 127"
    using d by (simp add: unat_ucast_mod unat_drop_bit_div)
  have "unat (p * 2) = (unat p * 2) mod (2 ^ 127 * 2)" by (simp add: unat_word_ariths)
  also have "\<dots> = (unat p mod 2 ^ 127) * 2" by (rule mod_mult_mult2)
  finally have "unat (p * 2) + 2 ^ 128 * unat (ucast (drop_bit 127 p) :: u64)
      = (unat p mod 2 ^ 127 + 2 ^ 127 * (unat p div 2 ^ 127)) * 2"
    unfolding u by (simp only: distrib_right) simp
  then show "unat (p * 2) + 2 ^ 128 * unat (ucast (drop_bit 127 p) :: u64) = 2 * unat p" by simp
  show "unat (ucast (drop_bit 127 p) :: u64) \<le> 1" using d by (simp add: u)
qed

lemma adds_square:
  "adds (vli_square_step x k)
     (\<lambda>i. (if i < k - i then 2 else 1) * (unat (x ! i) * unat (x ! (k - i))))"
  unfolding adds_def
proof (intro allI impI)
  fix r :: "u128 \<times> u64" and i
  assume small: "unat (snd r) < 1000"
  obtain r01 r2 where r: "r = (r01, r2)" by force
  define p :: u128 where "p = ucast (x ! i) * ucast (x ! (k - i))"
  define h :: u64 where "h = ucast (drop_bit 127 p)"
  have h: "unat (p * 2) + 2 ^ 128 * unat h = 2 * unat p" "unat h \<le> 1"
    using double_128 [of p] by (simp_all only: h_def)
  have s: "unat (r2 + h) = unat r2 + unat h"
    using small h(2) by (intro unat_add_small) (simp_all add: r)
  have r2: "unat r2 < 2000" "unat (r2 + h) < 2000" using small h(2) by (simp_all add: r s)
  have p: "unat p = unat (x ! i) * unat (x ! (k - i))" by (simp add: p_def unat_product)
  show "acc_val (vli_square_step x k r i)
          = acc_val r + (if i < k - i then 2 else 1) * (unat (x ! i) * unat (x ! (k - i))) \<and>
        unat (snd (vli_square_step x k r i)) \<le> unat (snd r) + 2"
  proof (cases "i < k - i")
    case True
    have "vli_square_step x k r i
        = (r01 + p * 2, r2 + h + of_bool (r01 + p * 2 < p * 2))"
      using True by (simp add: r vli_square_step_def Let_def p_def h_def)
    moreover have "acc_val (r01, r2 + h) + unat (p * 2) = acc_val (r01, r2) + 2 * unat p"
      using h(1) by (simp only: acc_val_def fst_conv snd_conv s distrib_left)
    ultimately show ?thesis using True acc_add [OF r2(2), of r01 "p * 2"] s h(2)
      by (simp add: r p)
  next
    case False
    then have "vli_square_step x k r i = (r01 + p, r2 + of_bool (r01 + p < p))"
      by (simp add: r vli_square_step_def Let_def p_def)
    then show ?thesis using False acc_add [OF r2(1), of r01 p]
      by (simp add: r p)
  qed
qed

lemma foldl_adds:
  assumes "adds step m" "unat (snd r) + 2 * length is < 1000"
  shows "acc_val (foldl step r is) = acc_val r + (\<Sum>i\<leftarrow>is. m i) \<and>
         unat (snd (foldl step r is)) \<le> unat (snd r) + 2 * length is"
  using assms(2)
proof (induction "is" arbitrary: r)
  case (Cons i "is")
  have one: "acc_val (step r i) = acc_val r + m i" "unat (snd (step r i)) \<le> unat (snd r) + 2"
    using assms(1) Cons.prems by (simp_all add: adds_def split_paired_all del: split_paired_All)
  then have "unat (snd (step r i)) + 2 * length is < 1000" using Cons.prems by simp
  from Cons.IH [OF this] one show ?case by simp
qed simp

lemma shift_acc:
  fixes r01 :: u128 and r2 :: u64
  shows "unat (ucast r01 :: u64) + 2 ^ 64 * unat (drop_bit 64 r01 OR push_bit 64 (ucast r2) :: u128)
         = acc_val (r01, r2)"
proof -
  have b: "unat r01 div 2 ^ 64 < 2 ^ 64" "unat r2 < 2 ^ 64"
    using unat_bound [of r01] unat_bound [of r2] by (simp_all add: less_mult_imp_div_less)
  have "unat (drop_bit 64 r01) < 2 ^ 64" using b by (simp only: unat_drop_bit_div)
  then have "unat (push_bit 64 (ucast r2) OR drop_bit 64 r01 :: u128)
      = unat (push_bit 64 (ucast r2) :: u128) + unat r01 div 2 ^ 64"
    by (simp add: unat_push_bit_or unat_drop_bit_div)
  moreover have "unat (push_bit 64 (ucast r2) :: u128) = unat r2 * 2 ^ 64"
    unfolding unat_push_bit_mod unat_ucast_64_128 len128
    by (rule mod_less) (use b(2) in simp)
  ultimately show ?thesis
    by (simp add: acc_val_def or.commute unat_ucast_mod distrib_left)
qed

lemma vli_column_val:
  assumes "adds (inner k) m" "length is \<le> 100" "vli_column inner k r01 is = (d, r01')"
  shows "unat d + 2 ^ 64 * unat r01' = unat r01 + (\<Sum>i\<leftarrow>is. m i)"
proof -
  obtain q r2 where q: "foldl (inner k) (r01, 0) is = (q, r2)" by force
  have "acc_val (q, r2) = acc_val (r01, 0) + (\<Sum>i\<leftarrow>is. m i)"
    using foldl_adds [OF assms(1), of "(r01, 0)" "is"] assms(2) by (simp add: q)
  then show ?thesis using assms(3) shift_acc [of q r2]
    by (auto simp: vli_column_def q acc_val_def)
qed

fun columns_val :: "nat \<Rightarrow> (nat \<Rightarrow> nat \<Rightarrow> nat) \<Rightarrow> (nat \<Rightarrow> nat list) \<Rightarrow> nat list \<Rightarrow> nat" where
  "columns_val B m idx [] = 0"
| "columns_val B m idx (k # ks) = (\<Sum>i\<leftarrow>idx k. m k i) + B * columns_val B m idx ks"

lemma vli_columns_val:
  assumes "\<And>k. adds (inner k) (m k)" "\<And>k. k \<in> set ks \<Longrightarrow> length (idx k) \<le> 100"
  shows "\<exists>hi. limbs_val (vli_columns inner idx r01 ks) + 2 ^ (64 * Suc (length ks)) * hi
           = unat r01 + columns_val (2 ^ 64) m idx ks"
  using assms(2)
proof (induction ks arbitrary: r01)
  case Nil
  have "unat (ucast r01 :: u64) + 2 ^ 64 * (unat r01 div 2 ^ 64) = unat r01"
    by (simp add: unat_ucast_mod)
  then show ?case by (auto intro!: exI [of _ "unat r01 div 2 ^ 64"])
next
  case (Cons k ks)
  obtain d r where d: "vli_column inner k r01 (idx k) = (d, r)" by force
  have v: "unat d + 2 ^ 64 * unat r = unat r01 + (\<Sum>i\<leftarrow>idx k. m k i)"
    using vli_column_val [OF assms(1) _ d] Cons.prems by simp
  obtain hi where hi: "limbs_val (vli_columns inner idx r ks) + 2 ^ (64 * Suc (length ks)) * hi
      = unat r + columns_val (2 ^ 64) m idx ks"
    using Cons.IH [of r] Cons.prems by auto
  have comp: "(s + B * v) + (B * M) * h = a + (c + B * e)"
    if "s + B * q = a + c" "v + M * h = q + e" for s B v M h q a c e :: nat
  proof -
    have "(s + B * v) + (B * M) * h = s + B * (v + M * h)" by (simp add: algebra_simps)
    also have "\<dots> = (s + B * q) + B * e" unfolding that(2) by (simp add: algebra_simps)
    finally show ?thesis unfolding that(1) by simp
  qed
  have "limbs_val (vli_columns inner idx r01 (k # ks)) + 2 ^ (64 * Suc (length (k # ks))) * hi
      = unat r01 + columns_val (2 ^ 64) m idx (k # ks)"
    using comp [OF v hi] by (simp add: d power_add)
  then show ?case by blast
qed

lemma length_vli_columns: "length (vli_columns inner idx r01 ks) = Suc (length ks)"
  by (induction ks arbitrary: r01) (simp_all split: prod.split)

text \<open>The column sums are the product, in any base.\<close>

lemma columns_mult_base:
  fixes a b c d e f g h :: u64 and B :: nat
  shows "columns_val B (\<lambda>k i. unat ([a, b, c, d] ! i) * unat ([e, f, g, h] ! (k - i)))
           (\<lambda>k. [l_min k..<min (k + 1) NUM_ECC_DIGITS]) [0..<7]
         = (unat a + B * (unat b + B * (unat c + B * unat d)))
           * (unat e + B * (unat f + B * (unat g + B * unat h)))"
  by (simp add: l_min_def upt_rec) (simp only: algebra_simps)

lemma upt_7: "[0..<7] = [0, 1, 2, 3, 4, 5, 6 :: nat]"
  by (simp add: upt_rec)

lemma columns_square_base:
  fixes a b c d :: u64 and B :: nat
  shows "columns_val B
           (\<lambda>k i. (if i < k - i then 2 else 1) * (unat ([a, b, c, d] ! i) * unat ([a, b, c, d] ! (k - i))))
           (\<lambda>k. filter (\<lambda>i. i \<le> k - i) [l_min k..<k + 1]) [0..<7]
         = (unat a + B * (unat b + B * (unat c + B * unat d)))
           * (unat a + B * (unat b + B * (unat c + B * unat d)))"
  unfolding upt_7 columns_val.simps by (simp add: l_min_def upt_rec) (simp add: algebra_simps)

lemma vli_val_4:
  "vli_val [a, b, c, d] = unat a + 2 ^ 64 * (unat b + 2 ^ 64 * (unat c + 2 ^ 64 * unat d))"
  by simp

lemma columns_mult:
  assumes "is_vli x" "is_vli y"
  shows "columns_val (2 ^ 64) (\<lambda>k i. unat (x ! i) * unat (y ! (k - i)))
           (\<lambda>k. [l_min k..<min (k + 1) NUM_ECC_DIGITS]) [0..<7]
         = vli_val x * vli_val y"
proof -
  obtain a b c d e f g h where xy: "x = [a, b, c, d]" "y = [e, f, g, h]"
    using assms length_4_cases by (metis is_vli_length)
  show ?thesis unfolding xy vli_val_4 by (rule columns_mult_base)
qed

lemma columns_square:
  assumes "is_vli x"
  shows "columns_val (2 ^ 64)
           (\<lambda>k i. (if i < k - i then 2 else 1) * (unat (x ! i) * unat (x ! (k - i))))
           (\<lambda>k. filter (\<lambda>i. i \<le> k - i) [l_min k..<k + 1]) [0..<7]
         = vli_val x * vli_val x"
proof -
  obtain a b c d where x: "x = [a, b, c, d]"
    using assms length_4_cases by (metis is_vli_length)
  show ?thesis unfolding x vli_val_4 by (rule columns_square_base)
qed

lemma columns_range: "NUM_ECC_DIGITS * 2 - 1 = 7"
  by simp

lemma vli_prod_bound:
  assumes "is_vli x" "is_vli y"
  shows "vli_val x * vli_val y < 2 ^ 512"
proof -
  have "vli_val x * vli_val y < 2 ^ 256 * 2 ^ 256"
    using vli_val_bound [OF assms(1)] vli_val_bound [OF assms(2)] by (intro mult_strict_mono) simp_all
  then show ?thesis by (simp add: power_add [symmetric])
qed

lemma no_high_part:
  fixes v hi B p :: nat
  assumes "v + B * hi = p" "p < B"
  shows "v = p"
proof -
  have "hi = 0"
  proof (rule ccontr)
    assume "hi \<noteq> 0"
    then have "B \<le> B * hi" by simp
    then show False using assms by linarith
  qed
  then show ?thesis using assms(1) by simp
qed

lemma vli_mult_val [val_simps]:
  assumes "is_vli x" "is_vli y"
  shows "vli_val (vli_mult x y) = vli_val x * vli_val y"
proof -
  let ?m = "\<lambda>k i. unat (x ! i) * unat (y ! (k - i))"
  let ?idx = "\<lambda>k. [l_min k..<min (k + 1) NUM_ECC_DIGITS]"
  have "\<exists>hi. vli_val (vli_mult x y) + 2 ^ (64 * Suc (length [0..<7])) * hi
      = unat (0 :: u128) + columns_val (2 ^ 64) ?m ?idx [0..<7]"
    unfolding columns_range vli_mult_def by (rule vli_columns_val [OF adds_mult]) (auto simp: l_min_def)
  then obtain hi where "vli_val (vli_mult x y) + 2 ^ 512 * hi = vli_val x * vli_val y"
    unfolding columns_mult [OF assms] by auto
  then show ?thesis by (rule no_high_part) (rule vli_prod_bound [OF assms])
qed

lemma vli_square_val [val_simps]:
  assumes "is_vli x"
  shows "vli_val (vli_square x) = vli_val x * vli_val x"
proof -
  let ?m = "\<lambda>k i. (if i < k - i then 2 else 1) * (unat (x ! i) * unat (x ! (k - i)))"
  let ?idx = "\<lambda>k. filter (\<lambda>i. i \<le> k - i) [l_min k..<k + 1]"
  have short: "length (?idx k) \<le> 100" if "k \<in> set [0..<7]" for k
    using that by (intro order_trans [OF length_filter_le]) (simp add: l_min_def)
  have "\<exists>hi. vli_val (vli_square x) + 2 ^ (64 * Suc (length [0..<7])) * hi
      = unat (0 :: u128) + columns_val (2 ^ 64) ?m ?idx [0..<7]"
    unfolding columns_range vli_square_def by (rule vli_columns_val [OF adds_square short])
  then obtain hi where "vli_val (vli_square x) + 2 ^ 512 * hi = vli_val x * vli_val x"
    unfolding columns_square [OF assms] by auto
  then show ?thesis by (rule no_high_part) (rule vli_prod_bound [OF assms assms])
qed

lemma length_vli_mult [len_simps]: "length (vli_mult x y) = 8"
  by (simp add: vli_mult_def length_vli_columns)

lemma length_vli_square [len_simps]: "length (vli_square x) = 8"
  by (simp add: vli_square_def length_vli_columns)

text \<open>Both routines agree digit by digit.\<close>

lemma vli_square_mult: "is_vli x \<Longrightarrow> vli_square x = vli_mult x x"
  by (rule limbs_val_inj [THEN iffD1]) (simp_all add: len_simps val_simps)

subsection \<open>The portable halves\<close>

definition uint128_val :: "uint128 \<Rightarrow> nat" where
  "uint128_val a = unat (m_low a) + 2 ^ 64 * unat (m_high a)"

lemma and_32_mask: "unat (w AND 0xffffffff :: u64) = unat w mod 2 ^ 32"
proof -
  have "w AND 0xffffffff = take_bit 32 w"
    by (simp add: take_bit_eq_mask mask_eq_exp_minus_1)
  then show ?thesis by (simp add: unat_take_bit_mod)
qed

text \<open>The four partial products of \<open>mul_64_64\<close> lose nothing.\<close>

lemma mul_halves_bound:
  fixes x y :: nat
  assumes "x < 2 ^ 32" "y < 2 ^ 32"
  shows "x * y \<le> (2 ^ 32 - 1) * (2 ^ 32 - 1)"
  using assms by (intro mult_le_mono) simp_all

lemma high_low_split:
  fixes s B :: nat
  shows "(s * B) mod (B * B) + (B * B) * (s div B) = B * s"
proof -
  have "(s * B) mod (B * B) + (B * B) * (s div B) = B * (s mod B + B * (s div B))"
    unfolding mod_mult_mult2 by (simp only: distrib_left mult.assoc mult.commute)
  then show ?thesis by simp
qed

lemma mul_64_64_val [val_simps]: "uint128_val (mul_64_64 x y) = unat x * unat y"
proof -
  define a0 a1 b0 b1 where "a0 = x AND 0xffffffff" and "a1 = drop_bit 32 x"
    and "b0 = y AND 0xffffffff" and "b1 = drop_bit 32 y"
  have half: "unat x = unat a0 + 2 ^ 32 * unat a1" "unat y = unat b0 + 2 ^ 32 * unat b1"
    by (simp_all add: a0_def a1_def b0_def b1_def and_32_mask unat_drop_bit_div)
  have small: "unat a0 < 2 ^ 32" "unat b0 < 2 ^ 32" "unat a1 < 2 ^ 32" "unat b1 < 2 ^ 32"
    using drop_bit_high_less [of 32 x] drop_bit_high_less [of 32 y]
    by (simp_all add: a0_def b0_def and_32_mask a1_def b1_def)
  have exact: "unat (p * q) = unat p * unat q" if "unat p < 2 ^ 32" "unat q < 2 ^ 32" for p q :: u64
    using mul_halves_bound [OF that] by (simp add: unat_word_ariths)
  define m0 m1 m2 m3 where "m0 = a0 * b0" and "m1 = a0 * b1" and "m2 = a1 * b0" and "m3 = a1 * b1"
  have m: "unat m0 = unat a0 * unat b0" "unat m1 = unat a0 * unat b1" "unat m2 = unat a1 * unat b0"
    "unat m3 = unat a1 * unat b1"
    by (simp_all only: m0_def m1_def m2_def m3_def exact small)
  have mb: "unat m2 \<le> (2 ^ 32 - 1) * (2 ^ 32 - 1)" "unat m3 \<le> (2 ^ 32 - 1) * (2 ^ 32 - 1)"
    unfolding m by (intro mul_halves_bound small)+
  define n2 where "n2 = m2 + drop_bit 32 m0"
  have "unat m0 div 2 ^ 32 < 2 ^ 32"
    using drop_bit_high_less [of 32 m0] by (simp add: unat_drop_bit_div)
  then have n2: "unat n2 = unat m2 + unat m0 div 2 ^ 32"
    using mb(1) by (simp add: n2_def unat_word_ariths unat_drop_bit_div)
  define s where "s = n2 + m1"
  have s: "unat s + 2 ^ 64 * of_bool (s < m1) = unat n2 + unat m1"
    unfolding s_def by (rule word_add_carry [of n2 m1, unfolded len64])
  define h where "h = (if s < m1 then m3 + 0x100000000 else m3)"
  have h: "unat h = unat m3 + 2 ^ 32 * of_bool (s < m1)"
    using mb(2) by (simp add: h_def unat_word_ariths)
  have total: "unat m0 mod 2 ^ 32 + 2 ^ 32 * unat s + 2 ^ 64 * unat h = unat x * unat y"
  proof -
    have "unat m0 mod 2 ^ 32 + 2 ^ 32 * unat s + 2 ^ 64 * unat h
        = unat m0 mod 2 ^ 32 + 2 ^ 32 * (unat s + 2 ^ 64 * of_bool (s < m1)) + 2 ^ 64 * unat m3"
      by (simp add: h)
    also have "\<dots> = unat m0 + 2 ^ 32 * (unat m1 + unat m2) + 2 ^ 64 * unat m3"
      unfolding s n2 using mod_mult_div_eq [of "unat m0" "2 ^ 32"] by simp
    also have "\<dots> = unat x * unat y"
      unfolding m half by (simp add: algebra_simps)
    finally show ?thesis .
  qed
  have "2 ^ 32 * (unat s div 2 ^ 32) \<le> unat s" by simp
  then have "2 ^ 64 * (unat h + unat s div 2 ^ 32) \<le> unat x * unat y"
    using total by simp
  also have "\<dots> \<le> (2 ^ 64 - 1) * (2 ^ 64 - 1)" by (rule unat_mult_le)
  finally have "unat h + unat s div 2 ^ 32 < 2 ^ 64" by simp
  then have hi: "unat (h + drop_bit 32 s) = unat h + unat s div 2 ^ 32"
    by (simp add: unat_word_ariths unat_drop_bit_div)
  have "unat (m0 AND 0xffffffff) < 2 ^ 32" by (simp add: and_32_mask)
  then have lo: "unat ((m0 AND 0xffffffff) OR push_bit 32 s)
      = (unat s * 2 ^ 32) mod 2 ^ 64 + unat m0 mod 2 ^ 32"
    using unat_push_bit_or [of 32 "m0 AND 0xffffffff" s]
    by (simp only: or.commute [of "m0 AND 0xffffffff"] and_32_mask unat_push_bit_mod len64)
  have split: "(unat s * 2 ^ 32) mod 2 ^ 64 + 2 ^ 64 * (unat s div 2 ^ 32) = 2 ^ 32 * unat s"
    using high_low_split [of "unat s" "2 ^ 32"] by (simp only: power_add [symmetric]) simp
  have "uint128_val (mul_64_64 x y)
      = unat ((m0 AND 0xffffffff) OR push_bit 32 s) + 2 ^ 64 * unat (h + drop_bit 32 s)"
    by (simp add: uint128_val_def mul_64_64_def Let_def s_def n2_def h_def
        m0_def m1_def m2_def m3_def a0_def a1_def b0_def b1_def)
  also have "\<dots> = unat m0 mod 2 ^ 32 + 2 ^ 32 * unat s + 2 ^ 64 * unat h"
    using split by (simp only: lo hi distrib_left)
  finally show ?thesis unfolding total .
qed

lemma uint128_eqI:
  fixes a b :: uint128
  assumes "uint128_val a = uint128_val b"
  shows "a = b"
  using assms digit_cons_eq [OF unat_bound [of "m_low a"] unat_bound [of "m_low b"]]
  by (cases a, cases b) (simp add: uint128_val_def word_eq_unat)

lemma uint128_val_less: "uint128_val a < 2 ^ 128"
  using digit_cons_less [OF unat_bound [of "m_low a"] unat_bound [of "m_high a"]]
  by (simp add: uint128_val_def)

lemma digits_mod:
  fixes l h B C :: nat
  assumes "l < B"
  shows "l + B * (h mod C) = (l + B * h) mod (B * C)"
  using assms by (simp add: mod_mult2_eq)

lemma carry_compose:
  fixes l h a b c d k B :: nat
  assumes "l + B * k = a + b" "h = c + d + k"
  shows "l + B * h = (a + B * c) + (b + B * d)"
proof -
  have "l + B * h = (l + B * k) + B * c + B * d" unfolding assms(2) by (simp add: algebra_simps)
  then show ?thesis unfolding assms(1) by simp
qed

lemma add_128_128_val [val_simps]:
  "uint128_val (add_128_128 a b) = (uint128_val a + uint128_val b) mod 2 ^ 128"
proof -
  define l where "l = m_low a + m_low b"
  define h where "h = unat (m_high a) + unat (m_high b) + of_bool (l < m_low a)"
  have l: "unat l + 2 ^ 64 * of_bool (l < m_low a) = unat (m_low a) + unat (m_low b)"
    using word_add_carry [of "m_low b" "m_low a", unfolded len64]
    by (simp only: l_def add.commute [of "m_low a" "m_low b"] add.commute [of "unat (m_low a)"])
  have v: "uint128_val (add_128_128 a b) = unat l + 2 ^ 64 * (h mod 2 ^ 64)"
    by (simp add: uint128_val_def add_128_128_def Let_def l_def h_def unat_word_ariths mod_simps)
  have "unat l < 2 ^ 64" using unat_bound [of l] by simp
  then have "uint128_val (add_128_128 a b) = (unat l + 2 ^ 64 * h) mod (2 ^ 64 * 2 ^ 64)"
    unfolding v by (rule digits_mod)
  also have "unat l + 2 ^ 64 * h = uint128_val a + uint128_val b"
    unfolding uint128_val_def by (rule carry_compose [OF l h_def])
  also have "2 ^ 64 * 2 ^ 64 = (2 ^ 128 :: nat)" by (simp only: power_add [symmetric]) simp
  finally show ?thesis .
qed

subsection \<open>The portable carry test\<close>

text \<open>Evaluation of \<open>mul_64_64\<close> through the product of the operands' values.\<close>

lemma mul_64_64_eq:
  "mul_64_64 x y = \<lparr>m_low = of_nat (unat x * unat y mod 2 ^ 64),
                    m_high = of_nat (unat x * unat y div 2 ^ 64)\<rparr>" (is "_ = ?r")
proof (rule uint128_eqI)
  have "unat x * unat y div 2 ^ 64 < 2 ^ 64"
    using le_less_trans [OF unat_mult_le [of x y], of "2 ^ 64 * 2 ^ 64"]
    by (simp add: less_mult_imp_div_less)
  then have h: "unat (of_nat (unat x * unat y div 2 ^ 64) :: u64) = unat x * unat y div 2 ^ 64"
    by (simp only: unat_of_nat take_bit_eq_mod len64 mod_less)
  have l: "unat (of_nat (unat x * unat y mod 2 ^ 64) :: u64) = (unat x * unat y) mod 2 ^ 64"
    by (simp only: unat_of_nat take_bit_eq_mod len64 mod_mod_trivial)
  show "uint128_val (mul_64_64 x y) = uint128_val ?r"
    unfolding mul_64_64_val by (simp only: uint128_val_def uint128.simps h l mod_mult_div_eq)
qed

text \<open>The index ranges of the outer loop.\<close>

abbreviation mult_range :: "nat \<Rightarrow> nat list" where
  "mult_range \<equiv> (\<lambda>k. [l_min k..<min (k + 1) NUM_ECC_DIGITS])"

lemma mult_range_eval:
  "[l_min 0..<min (0 + 1) NUM_ECC_DIGITS] = [0]"
  "[l_min 1..<min (1 + 1) NUM_ECC_DIGITS] = [0, 1]"
  "[l_min 2..<min (2 + 1) NUM_ECC_DIGITS] = [0, 1, 2]"
  "[l_min 3..<min (3 + 1) NUM_ECC_DIGITS] = [0, 1, 2, 3]"
  "[l_min 4..<min (4 + 1) NUM_ECC_DIGITS] = [1, 2, 3]"
  "[l_min 5..<min (5 + 1) NUM_ECC_DIGITS] = [2, 3]"
  "[l_min 6..<min (6 + 1) NUM_ECC_DIGITS] = [3]"
  by (simp_all add: l_min_def upt_rec)

lemma portable_columns:
  fixes step :: "nat \<Rightarrow> uint128 \<times> u64 \<Rightarrow> nat \<Rightarrow> uint128 \<times> u64"
  defines "step \<equiv> vli_mult_step_portable
      [0x7fffffffffffffff, 0x7fffffffffffffff, 0xffffffffffffffff, 0xffffffff]
      [0xc000000000000000, 0xfffffffffffffffe, 0xfffffffffffffffe, 0x2]"
  shows
    "foldl (step 0) (\<lparr>m_low = 0, m_high = 0\<rparr>, 0) [0] =
       (\<lparr>m_low = 0x4000000000000000, m_high = 0x5fffffffffffffff\<rparr>, 0)"
    "foldl (step 1) (\<lparr>m_low = 0x5fffffffffffffff, m_high = 0\<rparr>, 0) [0, 1] =
       (\<lparr>m_low = 0xa000000000000001, m_high = 0xdffffffffffffffd\<rparr>, 0)"
    "foldl (step 2) (\<lparr>m_low = 0xdffffffffffffffd, m_high = 0\<rparr>, 0) [0, 1, 2] =
       (\<lparr>m_low = 0x2000000000000001, m_high = 0xbffffffffffffffc\<rparr>, 1)"
    "foldl (step 3) (\<lparr>m_low = 0xbffffffffffffffc, m_high = 1\<rparr>, 0) [0, 1, 2, 3] =
       (\<lparr>m_low = 0xfffffffffffffffe, m_high = 0x80000000bffffffc\<rparr>, 1)"
    "foldl (step 4) (\<lparr>m_low = 0x80000000bffffffc, m_high = 1\<rparr>, 0) [1, 2, 3] =
       (\<lparr>m_low = 0x7ffffffebffffffe, m_high = 0xfffffffe\<rparr>, 0)"
    "foldl (step 5) (\<lparr>m_low = 0xfffffffe, m_high = 0\<rparr>, 0) [2, 3] =
       (\<lparr>m_low = 0xfffffffefffffffe, m_high = 0x100000000\<rparr>, 0)"
    "foldl (step 6) (\<lparr>m_low = 0x100000000, m_high = 0\<rparr>, 0) [3] =
       (\<lparr>m_low = 0x2fffffffe, m_high = 0\<rparr>, 0)"
  unfolding step_def
  by (simp_all add: vli_mult_step_portable_def mul_64_64_eq add_128_128_def Let_def)

lemma vli_mult_portable_run:
  "vli_mult_portable [0x7fffffffffffffff, 0x7fffffffffffffff, 0xffffffffffffffff, 0xffffffff] [0xc000000000000000, 0xfffffffffffffffe, 0xfffffffffffffffe, 0x2] = [0x4000000000000000, 0xa000000000000001, 0x2000000000000001, 0xfffffffffffffffe, 0x7ffffffebffffffe, 0xfffffffefffffffe, 0x2fffffffe, 0]"
  unfolding vli_mult_portable_def columns_range upt_7
  by (simp only: vli_columns_portable.simps mult_range_eval Let_def portable_columns prod.case
      uint128.simps)

lemma carry_test_nat:
  fixes h k c B :: nat
  assumes "h < B" "k < B" "c \<le> 1"
  shows "(h + k + c) mod B < k \<longleftrightarrow> B \<le> h + k + c \<and> \<not> (h = B - 1 \<and> c = 1)"
proof (cases "h + k + c < B")
  case False
  then have "(h + k + c) mod B = h + k + c - B"
    using assms by (simp add: le_mod_geq)
  then show ?thesis using False assms by auto
qed (use assms in auto)

lemma digits_add_div:
  fixes l m h k B :: nat
  assumes "l < B" "m < B"
  shows "((l + B * h) + (m + B * k)) div B = h + k + of_bool (B \<le> l + m)"
proof -
  have "((l + B * h) + (m + B * k)) div B = ((l + m) + B * (h + k)) div B"
    by (simp add: algebra_simps)
  also have "\<dots> = h + k + (l + m) div B" using assms by simp
  also have "(l + m) div B = of_bool (B \<le> l + m)"
    using assms by (auto simp: div_if not_less)
  finally show ?thesis .
qed

lemma uint128_high: "unat (m_high a) = uint128_val a div 2 ^ 64"
  using unat_bound [of "m_low a"] by (simp add: uint128_val_def)


text \<open>
  When the portable carry test is wrong: it misses the carry out of the 128-bit
  addition exactly when the accumulator's high half is all ones and the low halves carry.
\<close>

theorem portable_carry_test:
  "m_high (add_128_128 r p) < m_high p \<longleftrightarrow>
   2 ^ 128 \<le> uint128_val r + uint128_val p \<and>
   \<not> (m_high r = - 1 \<and> 2 ^ 64 \<le> unat (m_low r) + unat (m_low p))"
proof -
  define c :: nat where "c = of_bool (2 ^ 64 \<le> unat (m_low r) + unat (m_low p))"
  have b: "unat (m_low r) < 2 ^ 64" "unat (m_low p) < 2 ^ 64" "unat (m_high r) < 2 ^ 64"
    "unat (m_high p) < 2 ^ 64"
    using unat_bound [of "m_low r"] unat_bound [of "m_low p"] unat_bound [of "m_high r"]
      unat_bound [of "m_high p"] by simp_all
  have sum: "(uint128_val r + uint128_val p) div 2 ^ 64 = unat (m_high r) + unat (m_high p) + c"
    unfolding uint128_val_def c_def by (rule digits_add_div [OF b(1) b(2)])
  have "unat (m_high (add_128_128 r p))
      = ((uint128_val r + uint128_val p) mod (2 ^ 64 * 2 ^ 64)) div 2 ^ 64"
    unfolding uint128_high add_128_128_val by (simp only: power_add [symmetric]) simp
  also have "\<dots> = (unat (m_high r) + unat (m_high p) + c) mod 2 ^ 64"
    unfolding mod_mult2_eq sum by simp
  finally have "m_high (add_128_128 r p) < m_high p
      \<longleftrightarrow> (unat (m_high r) + unat (m_high p) + c) mod 2 ^ 64 < unat (m_high p)"
    unfolding word_lt_unat by (rule arg_cong)
  also have "\<dots> \<longleftrightarrow> 2 ^ 64 \<le> unat (m_high r) + unat (m_high p) + c \<and>
      \<not> (unat (m_high r) = 2 ^ 64 - 1 \<and> c = 1)"
    by (rule carry_test_nat [OF b(3) b(4)]) (simp add: c_def)
  also have "2 ^ 64 \<le> unat (m_high r) + unat (m_high p) + c
      \<longleftrightarrow> 2 ^ 128 \<le> uint128_val r + uint128_val p"
    unfolding sum [symmetric] by (simp add: less_eq_div_iff_mult_less_eq)
  also have "unat (m_high r) = 2 ^ 64 - 1 \<longleftrightarrow> m_high r = - 1"
    by (simp add: word_eq_unat unsigned_minus_1_eq_mask mask_eq_exp_minus_1)
  also have "c = 1 \<longleftrightarrow> 2 ^ 64 \<le> unat (m_low r) + unat (m_low p)"
    by (simp add: c_def)
  finally show ?thesis .
qed

subsection \<open>The exact product\<close>

text \<open>
  C29. The 512-bit product and the square are exact: the digits of \<open>vli_mult\<close> denote the
  product of the operands, no carry is lost, and \<open>vli_square\<close> gives the same digits as
  multiplying a number by itself.
\<close>

theorem vli_mult_exact:
  assumes "is_vli x" "is_vli y"
  shows "vli_val (vli_mult x y) = vli_val x * vli_val y \<and> length (vli_mult x y) = 8 \<and>
         vli_square x = vli_mult x x"
  using vli_mult_val [OF assms] length_vli_mult vli_square_mult [OF assms(1)] by simp

theorem vli_mult_exact_witness:
  "vli_val (vli_mult [0xffffffffffffffff, 1, 0, 2] [3, 0xffffffffffffffff, 0, 5])
   = vli_val [0xffffffffffffffff, 1, 0, 2] * vli_val [3, 0xffffffffffffffff, 0, 5]"
  using vli_mult_exact [of "[0xffffffffffffffff, 1, 0, 2]" "[3, 0xffffffffffffffff, 0, 5]"]
  by (simp only: is_vli_def) simp

end
