(* ===== verification/Vli_Mod.thy ===== *)
theory Vli_Mod
  imports Vli_Mult "HOL-Library.While_Combinator"
begin

text \<open>
  Modular arithmetic of bryllite-core/secp256r1.cpp: the constants of the curve
  (lines 37-73), modular addition and subtraction, the fast reduction modulo
  the field prime, multiplication and squaring in the field, the inverse by the binary
  Euclidean algorithm (lines 446-700) and the reduction modulo an arbitrary modulus
  (lines 968-1055).
\<close>

subsection \<open>The constants of the curve\<close>

definition curve_p :: vli where
  "curve_p = [0xFFFFFFFFFFFFFFFF, 0x00000000FFFFFFFF, 0x0000000000000000, 0xFFFFFFFF00000001]"

definition curve_b :: vli where
  "curve_b = [0x3BCE3C3E27D2604B, 0x651D06B0CC53B0F6, 0xB3EBBD55769886BC, 0x5AC635D8AA3A93E7]"

definition curve_n :: vli where
  "curve_n = [0xF3B9CAC2FC632551, 0xBCE6FAADA7179E84, 0xFFFFFFFFFFFFFFFF, 0xFFFFFFFF00000000]"

text \<open>The field prime and the group order as numbers.\<close>

definition P256 :: nat where
  "P256 = 2 ^ 256 - 2 ^ 224 + 2 ^ 192 + 2 ^ 96 - 1"

definition N256 :: nat where
  "N256 = 0xffffffff00000000ffffffffffffffffbce6faada7179e84f3b9cac2fc632551"

lemma curve_p_val [val_simps]: "vli_val curve_p = P256"
  by (simp add: curve_p_def P256_def)

lemma curve_n_val [val_simps]: "vli_val curve_n = N256"
  by (simp add: curve_n_def N256_def)

lemma is_vli_curve [len_simps]: "is_vli curve_p" "is_vli curve_n" "is_vli curve_b"
  by (simp_all add: is_vli_def curve_p_def curve_n_def curve_b_def)

lemma P256_bounds: "2 ^ 255 < P256" "P256 < 2 ^ 256" "0 < P256"
  by (simp_all add: P256_def)

lemma N256_bounds: "2 ^ 255 < N256" "N256 < 2 ^ 256" "N256 < P256" "P256 < 2 * N256"
  by (simp_all add: N256_def P256_def)

subsection \<open>Modular addition and subtraction\<close>

definition vli_modAdd :: "vli \<Rightarrow> vli \<Rightarrow> vli \<Rightarrow> vli" where
  "vli_modAdd p_left p_right p_mod =
     (let (p_result, l_carry) = vli_add p_left p_right
      in if l_carry \<noteq> 0 \<or> vli_cmp p_result p_mod \<ge> 0 then fst (vli_sub p_result p_mod)
         else p_result)"

definition vli_modSub :: "vli \<Rightarrow> vli \<Rightarrow> vli \<Rightarrow> vli" where
  "vli_modSub p_left p_right p_mod =
     (let (p_result, l_borrow) = vli_sub p_left p_right
      in if l_borrow \<noteq> 0 then fst (vli_add p_result p_mod) else p_result)"

text \<open>The carries as booleans, for case distinctions.\<close>

lemma carry_cases:
  fixes c :: u64
  assumes "unat c \<le> 1"
  obtains "c = 0" | "c = 1"
proof -
  have "unat c = 0 \<or> unat c = 1" using assms by linarith
  then have "c = 0 \<or> c = 1" by (simp only: word_unat_eq_iff unsigned_0 unsigned_1)
  then show thesis using that by blast
qed

text \<open>Arithmetic modulo \<open>B\<close> whose result is known to be small.\<close>

lemma wrapped_result:
  fixes s m r t B :: nat
  assumes "r + B * c = t" "s + m = r + B * b" "c \<le> 1" "b \<le> 1" "s < B" "r < B" "m \<le> t" "t < m + B"
  shows "s = t - m"
proof -
  have "c = 0 \<or> c = 1" "b = 0 \<or> b = 1" using assms(3,4) by auto
  then show ?thesis using assms by auto
qed

lemma wrapped_diff:
  fixes s m r x y B :: nat
  assumes "r + y = x + B * 1" "s + B * c = r + m" "c \<le> 1" "s < B" "x < y" "y < m" "m < B"
  shows "s = x + (m - y)"
proof -
  have "c = 0 \<or> c = 1" using assms(3) by auto
  then show ?thesis using assms by auto
qed

lemma is_vli_mod_ops [len_simps]:
  assumes "is_vli x" "is_vli y" "is_vli m"
  shows "is_vli (vli_modAdd x y m)" "is_vli (vli_modSub x y m)"
  using vli_add_val(2) [OF assms(1,2)] vli_sub_val(2) [OF assms(1,2)]
    vli_sub_val(2) [OF vli_add_val(2) [OF assms(1,2)] assms(3)]
    vli_add_val(2) [OF vli_sub_val(2) [OF assms(1,2)] assms(3)]
  by (simp_all only: vli_modAdd_def vli_modSub_def Let_def split_def split: if_split) simp_all

lemma vli_modAdd_val:
  assumes "is_vli x" "is_vli y" "is_vli m" "vli_val x < vli_val m" "vli_val y < vli_val m"
  shows "vli_val (vli_modAdd x y m) = (vli_val x + vli_val y) mod vli_val m"
proof -
  obtain r c where r: "vli_add x y = (r, c)" by force
  have v: "vli_val r + 2 ^ 256 * unat c = vli_val x + vli_val y" "is_vli r" "unat c \<le> 1"
    using vli_add_val [OF assms(1,2)] by (simp_all only: r fst_conv snd_conv)
  obtain s b where s: "vli_sub r m = (s, b)" by force
  have w: "vli_val s + vli_val m = vli_val r + 2 ^ 256 * unat b" "is_vli s" "unat b \<le> 1"
    using vli_sub_val [OF v(2) assms(3)] by (simp_all only: s fst_conv snd_conv)
  have bounds: "vli_val m < 2 ^ 256" "vli_val s < 2 ^ 256" "vli_val r < 2 ^ 256"
    using vli_val_bound assms(3) v(2) w(2) by blast+
  show ?thesis
  proof (cases "vli_val x + vli_val y < vli_val m")
    case True
    have "unat c = 0" using v(1) bounds(1) True by (cases rule: carry_cases [OF v(3)]) simp_all
    then have "c = 0" by (simp add: unat_eq_zero)
    moreover have "vli_cmp r m < 0"
      using v(1) True \<open>unat c = 0\<close> vli_cmp_cases(1) [OF v(2) assms(3)] by simp
    ultimately show ?thesis using v(1) True by (simp add: vli_modAdd_def r)
  next
    case False
    have "c \<noteq> 0 \<or> vli_cmp r m \<ge> 0"
      using v(1) False vli_cmp_cases(1) [OF v(2) assms(3)] by (auto simp: not_less [symmetric])
    then have "vli_modAdd x y m = s" by (simp add: vli_modAdd_def r s)
    moreover have "vli_val s = vli_val x + vli_val y - vli_val m"
      using wrapped_result [OF v(1) w(1) v(3) w(3) bounds(2,3)] bounds assms(4,5) False
      by linarith
    ultimately show ?thesis using mod_sub_once [OF assms(4,5) False] by simp
  qed
qed

lemma vli_modSub_val:
  assumes "is_vli x" "is_vli y" "is_vli m" "vli_val x < vli_val m" "vli_val y < vli_val m"
  shows "vli_val (vli_modSub x y m) = (vli_val x + (vli_val m - vli_val y)) mod vli_val m"
proof -
  obtain r b where r: "vli_sub x y = (r, b)" by force
  have v: "vli_val r + vli_val y = vli_val x + 2 ^ 256 * unat b" "is_vli r" "unat b \<le> 1"
    using vli_sub_val [OF assms(1,2)] by (simp_all only: r fst_conv snd_conv)
  obtain s c where s: "vli_add r m = (s, c)" by force
  have w: "vli_val s + 2 ^ 256 * unat c = vli_val r + vli_val m" "is_vli s" "unat c \<le> 1"
    using vli_add_val [OF v(2) assms(3)] by (simp_all only: s fst_conv snd_conv)
  have bounds: "vli_val m < 2 ^ 256" "vli_val s < 2 ^ 256" "vli_val r < 2 ^ 256"
    using vli_val_bound assms(3) v(2) w(2) by blast+
  show ?thesis
  proof (cases "vli_val y \<le> vli_val x")
    case True
    have b: "unat b = 0"
      using v(1) bounds(3) True by (cases rule: carry_cases [OF v(3)]) simp_all
    then have "vli_modSub x y m = r" by (simp add: vli_modSub_def r unat_eq_zero)
    moreover have "vli_val x + (vli_val m - vli_val y) = (vli_val x - vli_val y) + vli_val m"
      using True assms(5) by linarith
    moreover have "vli_val r = vli_val x - vli_val y" using v(1) b by simp
    moreover have "vli_val x - vli_val y < vli_val m" using assms(4) by simp
    ultimately show ?thesis by (simp only: mod_add_self2 mod_less)
  next
    case False
    have "unat b = 1" using v(1) False by (cases rule: carry_cases [OF v(3)]) simp_all
    then have "vli_modSub x y m = s" by (auto simp: vli_modSub_def r s)
    moreover have "vli_val s = vli_val x + (vli_val m - vli_val y)"
      using wrapped_diff [OF v(1) [unfolded \<open>unat b = 1\<close>] w(1) w(3)] bounds False assms(4,5) by linarith
    ultimately show ?thesis using False assms(5) by simp
  qed
qed

subsection \<open>Fast reduction modulo the field prime\<close>

text \<open>
  The operands \<open>l_tmp\<close> of \<open>vli_mmod_fast\<close>, assembled from the eight digits of the product.
\<close>

definition mmod_s1 :: "vli \<Rightarrow> vli" where
  "mmod_s1 p_product =
     [0, p_product ! 5 AND 0xffffffff00000000, p_product ! 6, p_product ! 7]"

definition mmod_s2 :: "vli \<Rightarrow> vli" where
  "mmod_s2 p_product =
     [0, push_bit 32 (p_product ! 6),
      drop_bit 32 (p_product ! 6) OR push_bit 32 (p_product ! 7),
      drop_bit 32 (p_product ! 7)]"

definition mmod_s3 :: "vli \<Rightarrow> vli" where
  "mmod_s3 p_product =
     [p_product ! 4, p_product ! 5 AND 0xffffffff, 0, p_product ! 7]"

definition mmod_s4 :: "vli \<Rightarrow> vli" where
  "mmod_s4 p_product =
     [drop_bit 32 (p_product ! 4) OR push_bit 32 (p_product ! 5),
      drop_bit 32 (p_product ! 5) OR (p_product ! 6 AND 0xffffffff00000000),
      p_product ! 7,
      drop_bit 32 (p_product ! 6) OR push_bit 32 (p_product ! 4)]"

definition mmod_d1 :: "vli \<Rightarrow> vli" where
  "mmod_d1 p_product =
     [drop_bit 32 (p_product ! 5) OR push_bit 32 (p_product ! 6),
      drop_bit 32 (p_product ! 6),
      0,
      (p_product ! 4 AND 0xffffffff) OR push_bit 32 (p_product ! 5)]"

definition mmod_d2 :: "vli \<Rightarrow> vli" where
  "mmod_d2 p_product =
     [p_product ! 6, p_product ! 7, 0,
      drop_bit 32 (p_product ! 4) OR (p_product ! 5 AND 0xffffffff00000000)]"

definition mmod_d3 :: "vli \<Rightarrow> vli" where
  "mmod_d3 p_product =
     [drop_bit 32 (p_product ! 6) OR push_bit 32 (p_product ! 7),
      drop_bit 32 (p_product ! 7) OR push_bit 32 (p_product ! 4),
      drop_bit 32 (p_product ! 4) OR push_bit 32 (p_product ! 5),
      push_bit 32 (p_product ! 6)]"

definition mmod_d4 :: "vli \<Rightarrow> vli" where
  "mmod_d4 p_product =
     [p_product ! 7, p_product ! 4 AND 0xffffffff00000000, p_product ! 5,
      p_product ! 6 AND 0xffffffff00000000]"

text \<open>
  The statements \<open>l_carry += vli_add(...)\<close> and \<open>l_carry -= vli_sub(...)\<close>. The carry is
  an \<open>int\<close> of the code that stays between \<open>-4\<close> and \<open>6\<close>, so it is an integer here.
\<close>

definition mmod_add :: "vli \<Rightarrow> vli \<times> int \<Rightarrow> vli \<times> int" where
  "mmod_add l_tmp = (\<lambda>(p_result, l_carry).
     let (p_result, c) = vli_add p_result l_tmp in (p_result, l_carry + int (unat c)))"

definition mmod_sub :: "vli \<Rightarrow> vli \<times> int \<Rightarrow> vli \<times> int" where
  "mmod_sub l_tmp = (\<lambda>(p_result, l_carry).
     let (p_result, b) = vli_sub p_result l_tmp in (p_result, l_carry - int (unat b)))"

text \<open>The doubled operands \<open>s1\<close> and \<open>s2\<close>: shifted in place, then added.\<close>

definition mmod_add_twice :: "vli \<Rightarrow> vli \<times> int \<Rightarrow> vli \<times> int" where
  "mmod_add_twice l_tmp = (\<lambda>(p_result, l_carry).
     let (l_tmp, c) = vli_lshift l_tmp 1
     in mmod_add l_tmp (p_result, l_carry + int (unat c)))"

definition mmod_sum :: "vli \<Rightarrow> vli \<times> int" where
  "mmod_sum p_product =
     (let r = (vli_set p_product, 0);
          r = mmod_add_twice (mmod_s1 p_product) r;
          r = mmod_add_twice (mmod_s2 p_product) r;
          r = mmod_add (mmod_s3 p_product) r;
          r = mmod_add (mmod_s4 p_product) r;
          r = mmod_sub (mmod_d1 p_product) r;
          r = mmod_sub (mmod_d2 p_product) r;
          r = mmod_sub (mmod_d3 p_product) r;
          r = mmod_sub (mmod_d4 p_product) r
      in r)"

text \<open>The closing loops: add the prime while negative, or subtract it while too large.\<close>

definition mmod_high :: "vli \<times> int \<Rightarrow> bool" where
  "mmod_high = (\<lambda>(p_result, l_carry). l_carry \<noteq> 0 \<or> vli_cmp curve_p p_result \<noteq> 1)"

definition mmod_finish :: "vli \<times> int \<Rightarrow> vli \<times> int" where
  "mmod_finish r =
     (if snd r < 0 then while (\<lambda>r. snd r < 0) (mmod_add curve_p) (mmod_add curve_p r)
      else while mmod_high (mmod_sub curve_p) r)"

definition vli_mmod_fast :: "vli \<Rightarrow> vli" where
  "vli_mmod_fast p_product = fst (mmod_finish (mmod_sum p_product))"

definition vli_modMult_fast :: "vli \<Rightarrow> vli \<Rightarrow> vli" where
  "vli_modMult_fast p_left p_right = vli_mmod_fast (vli_mult p_left p_right)"

definition vli_modSquare_fast :: "vli \<Rightarrow> vli" where
  "vli_modSquare_fast p_left = vli_mmod_fast (vli_square p_left)"

text \<open>The number a pair of a result and a signed carry stands for.\<close>

definition signed_val :: "vli \<times> int \<Rightarrow> int" where
  "signed_val r = int (vli_val (fst r)) + 2 ^ 256 * snd r"

lemma mmod_add_val:
  assumes "is_vli (fst r)" "is_vli t"
  shows "signed_val (mmod_add t r) = signed_val r + int (vli_val t)" "is_vli (fst (mmod_add t r))"
proof -
  obtain x c where r: "r = (x, c)" by force
  obtain s b where s: "vli_add x t = (s, b)" by force
  have v: "vli_val s + 2 ^ 256 * unat b = vli_val x + vli_val t" "is_vli s"
    using vli_add_val [OF assms, unfolded r fst_conv] by (simp_all only: s fst_conv snd_conv)
  have "int (vli_val s) + 2 ^ 256 * int (unat b) = int (vli_val x) + int (vli_val t)"
    using arg_cong [OF v(1), of int] by (simp only: of_nat_add of_nat_mult of_nat_power of_nat_numeral)
  then show "signed_val (mmod_add t r) = signed_val r + int (vli_val t)"
    by (simp only: signed_val_def mmod_add_def r s prod.case fst_conv snd_conv Let_def distrib_left)
  show "is_vli (fst (mmod_add t r))" using v(2) by (simp add: mmod_add_def r s)
qed

lemma mmod_sub_val:
  assumes "is_vli (fst r)" "is_vli t"
  shows "signed_val (mmod_sub t r) = signed_val r - int (vli_val t)" "is_vli (fst (mmod_sub t r))"
proof -
  obtain x c where r: "r = (x, c)" by force
  obtain s b where s: "vli_sub x t = (s, b)" by force
  have v: "vli_val s + vli_val t = vli_val x + 2 ^ 256 * unat b" "is_vli s"
    using vli_sub_val [OF assms, unfolded r fst_conv] by (simp_all only: s fst_conv snd_conv)
  have "int (vli_val s) + int (vli_val t) = int (vli_val x) + 2 ^ 256 * int (unat b)"
    using arg_cong [OF v(1), of int] by (simp only: of_nat_add of_nat_mult of_nat_power of_nat_numeral)
  then show "signed_val (mmod_sub t r) = signed_val r - int (vli_val t)"
    by (simp only: signed_val_def mmod_sub_def r s prod.case fst_conv snd_conv Let_def
        right_diff_distrib)
  show "is_vli (fst (mmod_sub t r))" using v(2) by (simp add: mmod_sub_def r s)
qed

lemma mmod_add_twice_val:
  assumes "is_vli (fst r)" "is_vli t"
  shows "signed_val (mmod_add_twice t r) = signed_val r + 2 * int (vli_val t)"
    and "is_vli (fst (mmod_add_twice t r))"
proof -
  obtain x c where r: "r = (x, c)" by force
  obtain s b where s: "vli_lshift t 1 = (s, b)" by force
  have v: "vli_val s + 2 ^ 256 * unat b = 2 ^ 1 * vli_val t" "is_vli s"
    using vli_lshift_val(1,2) [OF assms(2), of 1, unfolded s fst_conv snd_conv]
    by (simp_all only: one_le_numeral)
  have x: "is_vli (fst (x, c + int (unat b)))" using assms(1) by (simp add: r)
  have e: "mmod_add_twice t r = mmod_add s (x, c + int (unat b))"
    by (simp only: mmod_add_twice_def r s prod.case Let_def)
  have "int (vli_val s) + 2 ^ 256 * int (unat b) = 2 * int (vli_val t)"
    using arg_cong [OF v(1), of int] by simp
  then show "signed_val (mmod_add_twice t r) = signed_val r + 2 * int (vli_val t)"
    unfolding e mmod_add_val(1) [OF x v(2)] by (simp add: signed_val_def r distrib_left)
  show "is_vli (fst (mmod_add_twice t r))"
    unfolding e by (rule mmod_add_val(2) [OF x v(2)])
qed

lemma is_vli_mmod_terms [len_simps]:
  "is_vli (mmod_s1 q)" "is_vli (mmod_s2 q)" "is_vli (mmod_s3 q)" "is_vli (mmod_s4 q)"
  "is_vli (mmod_d1 q)" "is_vli (mmod_d2 q)" "is_vli (mmod_d3 q)" "is_vli (mmod_d4 q)"
  by (simp_all add: is_vli_def mmod_s1_def mmod_s2_def mmod_s3_def mmod_s4_def
      mmod_d1_def mmod_d2_def mmod_d3_def mmod_d4_def)

lemma mmod_sum_val:
  assumes "length q = 8"
  shows "signed_val (mmod_sum q) = int (vli_val (take 4 q)) + 2 * int (vli_val (mmod_s1 q))
           + 2 * int (vli_val (mmod_s2 q)) + int (vli_val (mmod_s3 q)) + int (vli_val (mmod_s4 q))
           - int (vli_val (mmod_d1 q)) - int (vli_val (mmod_d2 q)) - int (vli_val (mmod_d3 q))
           - int (vli_val (mmod_d4 q))"
    and "is_vli (fst (mmod_sum q))"
proof -
  have i: "is_vli (fst (vli_set q, 0 :: int))" using assms by (simp add: is_vli_def vli_set_def)
  have v: "signed_val (vli_set q, 0) = int (vli_val (take 4 q))"
    by (simp add: signed_val_def vli_set_def)
  show "signed_val (mmod_sum q) = int (vli_val (take 4 q)) + 2 * int (vli_val (mmod_s1 q))
           + 2 * int (vli_val (mmod_s2 q)) + int (vli_val (mmod_s3 q)) + int (vli_val (mmod_s4 q))
           - int (vli_val (mmod_d1 q)) - int (vli_val (mmod_d2 q)) - int (vli_val (mmod_d3 q))
           - int (vli_val (mmod_d4 q))" "is_vli (fst (mmod_sum q))"
    unfolding mmod_sum_def Let_def
    by (simp_all only: mmod_add_val mmod_sub_val mmod_add_twice_val len_simps i v)
qed

text \<open>The halves of a digit, and the digits put together from halves.\<close>

definition lo32 :: "u64 \<Rightarrow> nat" where
  "lo32 w = unat w mod 2 ^ 32"

definition hi32 :: "u64 \<Rightarrow> nat" where
  "hi32 w = unat w div 2 ^ 32"

lemma halves: "unat w = lo32 w + 2 ^ 32 * hi32 w"
  by (simp add: lo32_def hi32_def)

lemma halves_less: "lo32 w < 2 ^ 32" "hi32 w < 2 ^ 32"
  using unat_bound [of w] by (simp_all add: lo32_def hi32_def less_mult_imp_div_less)

lemma and_high_mask: "(w :: u64) AND 0xffffffff00000000 = push_bit 32 (drop_bit 32 w)"
proof -
  have m: "(0xffffffff00000000 :: u64) = push_bit 32 (mask 32)"
    by (simp add: mask_eq_exp_minus_1 push_bit_eq_mult)
  show ?thesis
    unfolding m by (auto intro!: bit_word_eqI simp: bit_simps)
qed

lemma unat_drop_32: "unat (drop_bit 32 (w :: u64)) = hi32 w"
  by (simp only: unat_drop_bit_div hi32_def)

lemma unat_push_32: "unat (push_bit 32 (w :: u64)) = 2 ^ 32 * lo32 w"
proof -
  have "(unat w * 2 ^ 32) mod (2 ^ 32 * 2 ^ 32) = (unat w mod 2 ^ 32) * 2 ^ 32"
    by (rule mod_mult_mult2)
  then show ?thesis by (simp add: unat_push_bit_mod lo32_def)
qed

lemma lo32_drop_32: "lo32 (drop_bit 32 (w :: u64)) = hi32 w"
  using halves_less(2) [of w] by (simp add: lo32_def unat_drop_32)

lemma unat_or_push_32:
  assumes "unat (c :: u64) < 2 ^ 32"
  shows "unat (c OR push_bit 32 w) = unat c + 2 ^ 32 * lo32 w"
  using unat_push_bit_or [of 32 c w] assms by (simp add: or.commute unat_push_32)

lemma unat_halves:
  "unat (w AND 0xffffffff) = lo32 w"
  "unat (w AND 0xffffffff00000000) = 2 ^ 32 * hi32 w"
  "unat (drop_bit 32 w OR push_bit 32 v) = hi32 w + 2 ^ 32 * lo32 v"
  "unat (drop_bit 32 w OR (v AND 0xffffffff00000000)) = hi32 w + 2 ^ 32 * hi32 v"
  "unat ((w AND 0xffffffff) OR push_bit 32 v) = lo32 w + 2 ^ 32 * lo32 v"
proof -
  have lo: "unat (w AND 0xffffffff) = lo32 w" by (simp only: and_32_mask lo32_def)
  show "unat (w AND 0xffffffff) = lo32 w" by (rule lo)
  show "unat (w AND 0xffffffff00000000) = 2 ^ 32 * hi32 w"
    by (simp only: and_high_mask unat_push_32 lo32_drop_32)
  have h: "unat (drop_bit 32 w) < 2 ^ 32" "unat (w AND 0xffffffff) < 2 ^ 32"
    using halves_less by (simp_all only: unat_drop_32 lo)
  show "unat (drop_bit 32 w OR push_bit 32 v) = hi32 w + 2 ^ 32 * lo32 v"
    by (simp only: unat_or_push_32 [OF h(1)] unat_drop_32)
  show "unat (drop_bit 32 w OR (v AND 0xffffffff00000000)) = hi32 w + 2 ^ 32 * hi32 v"
    by (simp only: and_high_mask unat_or_push_32 [OF h(1)] unat_drop_32 lo32_drop_32)
  show "unat ((w AND 0xffffffff) OR push_bit 32 v) = lo32 w + 2 ^ 32 * lo32 v"
    by (simp only: unat_or_push_32 [OF h(2)] lo)
qed

text \<open>The identity behind the reduction: each half's weight modulo the prime.\<close>

lemma solinas_identity:
  fixes l4 h4 l5 h5 l6 h6 l7 h7 t :: int
  defines "v \<equiv> \<lambda>a b c d :: int. a + 2 ^ 64 * (b + 2 ^ 64 * (c + 2 ^ 64 * d))"
    and "w \<equiv> \<lambda>a b :: int. a + 2 ^ 32 * b"
  shows "t + 2 ^ 256 * v (w l4 h4) (w l5 h5) (w l6 h6) (w l7 h7)
    = (t + 2 * v 0 (w 0 h5) (w l6 h6) (w l7 h7) + 2 * v 0 (w 0 l6) (w h6 l7) h7
       + v (w l4 h4) l5 0 (w l7 h7) + v (w h4 l5) (w h5 h6) (w l7 h7) (w h6 l4)
       - v (w h5 l6) h6 0 (w l4 l5) - v (w l6 h6) (w l7 h7) 0 (w h4 h5)
       - v (w h6 l7) (w h7 l4) (w h4 l5) (w 0 l6) - v (w l7 h7) (w 0 h4) (w l5 h5) (w 0 h6))
      + int P256 * (l4 + 4294967297 * h4 + 18446744078004518912 * l5
        + 79228162532711081667253501951 * h5 + 340282367000166625977638945021017194495 * l6
        + 1461501637671185285124623296161210883009696235519 * h6
        + 6277101736848182401166692341332123086285927382448418586623 * l7
        + 26959946673427741530053695850515137729844644212646842236464328081408 * h7)"
  unfolding v_def w_def P256_def by simp

lemma P256_pos [simp]: "0 < P256" "0 < int P256"
  by (simp_all add: P256_def)

lemma signed_mmod_sum:
  assumes "length q = 8"
  shows "\<exists>k. int (vli_val q) = signed_val (mmod_sum q) + int P256 * k"
    and "- 4 * 2 ^ 256 < signed_val (mmod_sum q)" "signed_val (mmod_sum q) < 7 * 2 ^ 256"
proof -
  obtain e f g h a b c d where q: "q = [e, f, g, h, a, b, c, d]"
    using length_8_cases [OF assms] by metis
  have t: "take 4 q = [e, f, g, h]" by (simp add: q)
  have digits: "int (vli_val q) = int (vli_val [e, f, g, h]) + 2 ^ 256 * int (vli_val [a, b, c, d])"
    using limbs_val_append [of "[e, f, g, h]" "[a, b, c, d]"] by (simp add: q)
  have nths: "q ! 4 = a" "q ! 5 = b" "q ! 6 = c" "q ! 7 = d" by (simp_all add: q)
  let ?v = "\<lambda>a b c d :: int. a + 2 ^ 64 * (b + 2 ^ 64 * (c + 2 ^ 64 * d))"
  have v4: "int (vli_val [w, x, y, z]) = ?v (int (unat w)) (int (unat x)) (int (unat y)) (int (unat z))"
    for w x y z
    unfolding vli_val_4 by (simp only: of_nat_add of_nat_mult of_nat_power of_nat_numeral)
  have full: "int (unat w) = int (lo32 w) + 2 ^ 32 * int (hi32 w)" for w
    by (subst halves) (simp only: of_nat_add of_nat_mult of_nat_power of_nat_numeral)
  define k where "k = int (lo32 a) + 4294967297 * int (hi32 a) + 18446744078004518912 * int (lo32 b)
        + 79228162532711081667253501951 * int (hi32 b) + 340282367000166625977638945021017194495 * int (lo32 c)
        + 1461501637671185285124623296161210883009696235519 * int (hi32 c)
        + 6277101736848182401166692341332123086285927382448418586623 * int (lo32 d)
        + 26959946673427741530053695850515137729844644212646842236464328081408 * int (hi32 d)"
  note sv = mmod_sum_val(1) [OF assms]
  have "int (vli_val q) = signed_val (mmod_sum q) + int P256 * k"
    unfolding digits sv t v4 mmod_s1_def mmod_s2_def mmod_s3_def mmod_s4_def mmod_d1_def mmod_d2_def
      mmod_d3_def mmod_d4_def nths unat_halves unat_push_32 unat_drop_32
      full [of a] full [of b] full [of c] full [of d] k_def
    by (simp only: of_nat_add of_nat_mult of_nat_power of_nat_numeral unsigned_0 of_nat_0 add_0)
      (simp add: P256_def)
  then show "\<exists>k. int (vli_val q) = signed_val (mmod_sum q) + int P256 * k" by blast
  have le: "0 \<le> int (vli_val x)" "int (vli_val x) < 2 ^ 256" if "is_vli x" for x
    using vli_val_bound [OF that] by simp_all
  have t4: "is_vli (take 4 q)" using assms by (simp add: is_vli_def)
  note bounds = le(1) [OF t4] le(2) [OF t4] is_vli_mmod_terms [of q, THEN le(1)]
    is_vli_mmod_terms [of q, THEN le(2)]
  show "- 4 * 2 ^ 256 < signed_val (mmod_sum q)" "signed_val (mmod_sum q) < 7 * 2 ^ 256"
    using bounds unfolding sv by linarith+
qed

text \<open>
  The closing loops end, and leave the residue: adding the prime until the value is not
  negative, or subtracting it until the value is below it.
\<close>

lemma signed_neg_iff:
  assumes "is_vli (fst r)"
  shows "snd r < 0 \<longleftrightarrow> signed_val r < 0"
proof -
  have b: "0 \<le> int (vli_val (fst r))" "int (vli_val (fst r)) < 2 ^ 256"
    using vli_val_bound [OF assms] by simp_all
  show ?thesis
  proof
    assume "snd r < 0"
    then have "snd r \<le> - 1" by simp
    then show "signed_val r < 0" using b by (simp add: signed_val_def)
  next
    assume "signed_val r < 0"
    show "snd r < 0"
    proof (rule ccontr)
      assume "\<not> snd r < 0"
      then have "0 \<le> 2 ^ 256 * snd r" by simp
      then show False using b(1) \<open>signed_val r < 0\<close> by (simp add: signed_val_def)
    qed
  qed
qed

lemma signed_small:
  assumes "is_vli (fst r)" "0 \<le> signed_val r" "signed_val r < 2 ^ 256"
  shows "snd r = 0"
proof -
  have "\<not> snd r < 0" using assms(1,2) signed_neg_iff by simp
  moreover have "\<not> 1 \<le> snd r"
  proof
    assume "1 \<le> snd r"
    then have "2 ^ 256 \<le> 2 ^ 256 * snd r" by simp
    then show False using assms(3) by (simp add: signed_val_def)
  qed
  ultimately show ?thesis by simp
qed

lemma mmod_high_iff:
  assumes "is_vli (fst r)" "0 \<le> signed_val r"
  shows "mmod_high r \<longleftrightarrow> int P256 \<le> signed_val r"
proof (cases "snd r = 0")
  case True
  have "vli_cmp curve_p (fst r) = 1 \<longleftrightarrow> vli_val (fst r) < P256"
    using vli_cmp_val [OF is_vli_curve(1) assms(1)]
    by (auto simp: curve_p_val sgn_if)
  then show ?thesis using True
    by (simp add: mmod_high_def split_def signed_val_def not_less)
next
  case False
  then have "\<not> signed_val r < 2 ^ 256" using signed_small [OF assms] by blast
  then show ?thesis using False P256_bounds(2) by (simp add: mmod_high_def split_def)
qed

lemma mod_step:
  fixes x p :: int
  shows "(x + p) mod p = x mod p" "(x - p) mod p = x mod p"
  using mod_add_self2 [of x p] minus_mod_self2 [of x p] by simp_all

lemma mmod_add_loop:
  assumes "is_vli (fst s)" "signed_val s < int P256"
  shows "\<exists>t. while_option (\<lambda>r. snd r < 0) (mmod_add curve_p) s = Some t \<and> is_vli (fst t) \<and>
           0 \<le> signed_val t \<and> signed_val t < int P256 \<and>
           signed_val t mod int P256 = signed_val s mod int P256"
proof -
  let ?I = "\<lambda>r. is_vli (fst r) \<and> signed_val r < int P256 \<and>
    signed_val r mod int P256 = signed_val s mod int P256"
  have step: "?I (mmod_add curve_p r) \<and> nat (- signed_val (mmod_add curve_p r)) < nat (- signed_val r)"
    if "?I r" "snd r < 0" for r
  proof -
    have v: "signed_val (mmod_add curve_p r) = signed_val r + int P256" "is_vli (fst (mmod_add curve_p r))"
      using mmod_add_val [OF _ is_vli_curve(1)] that(1) by (simp_all add: curve_p_val)
    have "signed_val r < 0" using that signed_neg_iff by blast
    then show ?thesis using that(1) P256_pos by (simp add: v mod_step nat_less_iff)
  qed
  obtain t where t: "while_option (\<lambda>r. snd r < 0) (mmod_add curve_p) s = Some t"
    using measure_while_option_Some [of ?I "\<lambda>r. snd r < 0" "mmod_add curve_p"
        "\<lambda>r. nat (- signed_val r)" s] step assms by blast
  have "?I t" using while_option_rule [of ?I, OF _ t] step assms by blast
  moreover have "\<not> snd t < 0" by (rule while_option_stop [OF t])
  ultimately show ?thesis using t signed_neg_iff [of t] by (auto simp: not_less)
qed

lemma mmod_sub_loop:
  assumes "is_vli (fst s)" "0 \<le> signed_val s"
  shows "\<exists>t. while_option mmod_high (mmod_sub curve_p) s = Some t \<and> is_vli (fst t) \<and>
           0 \<le> signed_val t \<and> signed_val t < int P256 \<and>
           signed_val t mod int P256 = signed_val s mod int P256"
proof -
  let ?I = "\<lambda>r. is_vli (fst r) \<and> 0 \<le> signed_val r \<and>
    signed_val r mod int P256 = signed_val s mod int P256"
  have step: "?I (mmod_sub curve_p r) \<and> nat (signed_val (mmod_sub curve_p r)) < nat (signed_val r)"
    if "?I r" "mmod_high r" for r
  proof -
    have v: "signed_val (mmod_sub curve_p r) = signed_val r - int P256" "is_vli (fst (mmod_sub curve_p r))"
      using mmod_sub_val [OF _ is_vli_curve(1)] that(1) by (simp_all add: curve_p_val)
    have "int P256 \<le> signed_val r" using that mmod_high_iff by blast
    then have "0 \<le> signed_val r - int P256" "nat (signed_val r - int P256) < nat (signed_val r)"
      using P256_pos by linarith+
    then show ?thesis using that(1) unfolding v mod_step by (intro conjI v(2)) simp_all
  qed
  obtain t where t: "while_option mmod_high (mmod_sub curve_p) s = Some t"
    using measure_while_option_Some [of ?I mmod_high "mmod_sub curve_p" "\<lambda>r. nat (signed_val r)" s]
      step assms by blast
  have "?I t" using while_option_rule [of ?I, OF _ t] step assms by blast
  moreover have "\<not> mmod_high t" by (rule while_option_stop [OF t])
  ultimately show ?thesis using t mmod_high_iff [of t] by (auto simp: not_le)
qed

lemma mmod_finish_val:
  assumes "is_vli (fst r)"
  shows "is_vli (fst (mmod_finish r)) \<and>
         int (vli_val (fst (mmod_finish r))) = signed_val r mod int P256"
proof -
  have fin: "is_vli (fst t) \<and> int (vli_val (fst t)) = signed_val t mod int P256"
    if "is_vli (fst t)" "0 \<le> signed_val t" "signed_val t < int P256" for t
  proof -
    have "snd t = 0" using signed_small [OF that(1,2)] that(3) P256_bounds(2) by simp
    then show ?thesis using that by (simp add: signed_val_def)
  qed
  show ?thesis
  proof (cases "snd r < 0")
    case True
    have v: "signed_val (mmod_add curve_p r) = signed_val r + int P256" "is_vli (fst (mmod_add curve_p r))"
      using mmod_add_val [OF assms is_vli_curve(1)] by (simp_all add: curve_p_val)
    have "signed_val r < 0" using True signed_neg_iff [OF assms] by simp
    then obtain t where t: "while_option (\<lambda>r. snd r < 0) (mmod_add curve_p) (mmod_add curve_p r) = Some t"
      "is_vli (fst t)" "0 \<le> signed_val t" "signed_val t < int P256"
      "signed_val t mod int P256 = signed_val (mmod_add curve_p r) mod int P256"
      using mmod_add_loop [OF v(2)] v(1) by auto
    have "mmod_finish r = t" using True t(1) by (simp add: mmod_finish_def while_def)
    then show ?thesis using fin [OF t(2-4)] t(5) by (simp add: v(1) mod_step)
  next
    case False
    then have "0 \<le> signed_val r" using signed_neg_iff [OF assms] by simp
    then obtain t where t: "while_option mmod_high (mmod_sub curve_p) r = Some t"
      "is_vli (fst t)" "0 \<le> signed_val t" "signed_val t < int P256"
      "signed_val t mod int P256 = signed_val r mod int P256"
      using mmod_sub_loop [OF assms] by auto
    have "mmod_finish r = t" using False t(1) by (simp add: mmod_finish_def while_def)
    then show ?thesis using fin [OF t(2-4)] t(5) by simp
  qed
qed

lemma vli_mmod_fast_val:
  assumes "length q = 8"
  shows "is_vli (vli_mmod_fast q)" "vli_val (vli_mmod_fast q) = vli_val q mod P256"
proof -
  note f = mmod_finish_val [OF mmod_sum_val(2) [OF assms]]
  show "is_vli (vli_mmod_fast q)" using f by (simp add: vli_mmod_fast_def)
  obtain k where "int (vli_val q) = signed_val (mmod_sum q) + int P256 * k"
    using signed_mmod_sum(1) [OF assms] by blast
  then have "int (vli_val q) mod int P256 = signed_val (mmod_sum q) mod int P256" by simp
  then have "int (vli_val (vli_mmod_fast q)) = int (vli_val q mod P256)"
    using f by (simp add: vli_mmod_fast_def of_nat_mod)
  then show "vli_val (vli_mmod_fast q) = vli_val q mod P256" by simp
qed

lemma vli_modMult_fast_val:
  assumes "is_vli x" "is_vli y"
  shows "is_vli (vli_modMult_fast x y)"
    and "vli_val (vli_modMult_fast x y) = (vli_val x * vli_val y) mod P256"
  using vli_mmod_fast_val [OF length_vli_mult] vli_mult_val [OF assms]
  by (simp_all add: vli_modMult_fast_def)

lemma vli_modSquare_fast_val:
  assumes "is_vli x"
  shows "is_vli (vli_modSquare_fast x)"
    and "vli_val (vli_modSquare_fast x) = (vli_val x * vli_val x) mod P256"
  using vli_mmod_fast_val [OF length_vli_square] vli_square_val [OF assms]
  by (simp_all add: vli_modSquare_fast_def)

subsection \<open>The modular inverse\<close>

record modInv_state =
  inv_a :: vli
  inv_b :: vli
  inv_u :: vli
  inv_v :: vli

definition vli_even :: "vli \<Rightarrow> bool" where
  "vli_even x \<longleftrightarrow> x ! 0 AND 1 = 0"

text \<open>
  The lines that halve a coefficient modulo \<open>p_mod\<close>; the carry of the addition
  becomes the top bit.
\<close>

definition modInv_halve :: "vli \<Rightarrow> vli \<Rightarrow> vli" where
  "modInv_halve p_mod x =
     (let (x, l_carry) = (if \<not> vli_even x then vli_add x p_mod else (x, 0));
          x = vli_rshift1 x
      in if l_carry \<noteq> 0
         then x[NUM_ECC_DIGITS - 1 := x ! (NUM_ECC_DIGITS - 1) OR 0x8000000000000000]
         else x)"

definition modInv_minus :: "vli \<Rightarrow> vli \<Rightarrow> vli \<Rightarrow> vli" where
  "modInv_minus p_mod x y =
     (let x = (if vli_cmp x y < 0 then fst (vli_add x p_mod) else x)
      in fst (vli_sub x y))"

definition modInv_step :: "vli \<Rightarrow> modInv_state \<Rightarrow> modInv_state" where
  "modInv_step p_mod s =
     (let l_cmpResult = vli_cmp (inv_a s) (inv_b s) in
      if vli_even (inv_a s) then
        s\<lparr>inv_a := vli_rshift1 (inv_a s), inv_u := modInv_halve p_mod (inv_u s)\<rparr>
      else if vli_even (inv_b s) then
        s\<lparr>inv_b := vli_rshift1 (inv_b s), inv_v := modInv_halve p_mod (inv_v s)\<rparr>
      else if l_cmpResult > 0 then
        s\<lparr>inv_a := vli_rshift1 (fst (vli_sub (inv_a s) (inv_b s))),
          inv_u := modInv_halve p_mod (modInv_minus p_mod (inv_u s) (inv_v s))\<rparr>
      else
        s\<lparr>inv_b := vli_rshift1 (fst (vli_sub (inv_b s) (inv_a s))),
          inv_v := modInv_halve p_mod (modInv_minus p_mod (inv_v s) (inv_u s))\<rparr>)"

definition modInv_start :: "vli \<Rightarrow> vli \<Rightarrow> modInv_state" where
  "modInv_start p_input p_mod =
     \<lparr>inv_a = vli_set p_input, inv_b = vli_set p_mod, inv_u = vli_clear[0 := 1], inv_v = vli_clear\<rparr>"

definition vli_modInv :: "vli \<Rightarrow> vli \<Rightarrow> vli" where
  "vli_modInv p_input p_mod =
     (if vli_isZero p_input then vli_clear
      else vli_set (inv_u (while (\<lambda>s. vli_cmp (inv_a s) (inv_b s) \<noteq> 0) (modInv_step p_mod)
             (modInv_start p_input p_mod))))"

lemma vli_even_val:
  assumes "is_vli x"
  shows "vli_even x \<longleftrightarrow> even (vli_val x)"
proof -
  obtain a b c d where x: "x = [a, b, c, d]" using assms length_4_cases by (metis is_vli_length)
  have "even (vli_val x) \<longleftrightarrow> even (unat a)" by (simp add: x)
  also have "\<dots> \<longleftrightarrow> a AND 1 = 0"
    by (simp add: word_unat_eq_iff unat_mod and_one_eq even_iff_mod_2_eq_zero)
  finally show ?thesis by (simp add: vli_even_def x)
qed

lemma set_top_bit:
  assumes "is_vli x" "vli_val x < 2 ^ 255"
  shows "vli_val (x[NUM_ECC_DIGITS - 1 := x ! (NUM_ECC_DIGITS - 1) OR 0x8000000000000000])
         = vli_val x + 2 ^ 255"
proof -
  obtain a b c d where x: "x = [a, b, c, d]" using assms length_4_cases by (metis is_vli_length)
  have "2 ^ 192 * unat d \<le> vli_val x" by (simp add: x)
  then have d: "unat d < 2 ^ 63" using assms(2) by simp
  have "unat (push_bit 63 (1 :: u64)) = 2 ^ 63" by simp
  then have "unat (d OR 0x8000000000000000) = unat d + 2 ^ 63"
    using unat_push_bit_or [of 63 d 1] d by (simp add: or.commute)
  then show ?thesis by (simp add: x)
qed

lemma is_vli_update [len_simps]: "is_vli x \<Longrightarrow> is_vli (x[i := d])"
  by (simp add: is_vli_def)

lemma modInv_halve_val:
  assumes "is_vli x" "is_vli m" "vli_val x < vli_val m" "odd (vli_val m)"
  shows "is_vli (modInv_halve m x)"
    and "2 * vli_val (modInv_halve m x) = vli_val x + (if even (vli_val x) then 0 else vli_val m)"
proof -
  obtain y c where y: "(if \<not> vli_even x then vli_add x m else (x, 0)) = (y, c)" by force
  have v: "is_vli y" "unat c \<le> 1"
    "vli_val y + 2 ^ 256 * unat c = vli_val x + (if even (vli_val x) then 0 else vli_val m)"
    using vli_add_val [OF assms(1,2)] y assms(1) vli_even_val [OF assms(1)]
    by (cases "even (vli_val x)"; force)+
  have e: "even (vli_val x + (if even (vli_val x) then 0 else vli_val m))"
    using assms(4) by simp
  have r: "is_vli (vli_rshift1 y)" "vli_val (vli_rshift1 y) = vli_val y div 2"
    using v(1) by (simp_all add: len_simps val_simps)
  have small: "vli_val y div 2 < 2 ^ 255" using vli_val_bound [OF v(1)] by simp
  have ey: "even (vli_val y)"
    using e unfolding v(3) [symmetric] by simp
  have h: "modInv_halve m x = (if c \<noteq> 0
      then (vli_rshift1 y)[NUM_ECC_DIGITS - 1 := vli_rshift1 y ! (NUM_ECC_DIGITS - 1) OR 0x8000000000000000]
      else vli_rshift1 y)"
    unfolding modInv_halve_def y Let_def prod.case ..
  show "is_vli (modInv_halve m x)"
    unfolding h using is_vli_update [OF r(1)] r(1) by simp
  show "2 * vli_val (modInv_halve m x) = vli_val x + (if even (vli_val x) then 0 else vli_val m)"
  proof (cases rule: carry_cases [OF v(2)])
    case 1
    then show ?thesis using v(3) ey unfolding h r(2) by (simp add: r(2))
  next
    case 2
    then have "vli_val (modInv_halve m x) = vli_val y div 2 + 2 ^ 255"
      unfolding h using set_top_bit [OF r(1)] small by (simp add: r(2))
    then show ?thesis using v(3) ey 2 by simp
  qed
qed

lemma modInv_halve_less:
  assumes "is_vli x" "is_vli m" "vli_val x < vli_val m" "odd (vli_val m)"
  shows "vli_val (modInv_halve m x) < vli_val m"
  using modInv_halve_val(2) [OF assms] assms(3) by (simp split: if_splits)

lemma modInv_minus_val:
  assumes "is_vli x" "is_vli y" "is_vli m" "vli_val x < vli_val m" "vli_val y < vli_val m"
  shows "is_vli (modInv_minus m x y)"
    and "vli_val (modInv_minus m x y) = (if vli_val x < vli_val y then vli_val x + (vli_val m - vli_val y)
           else vli_val x - vli_val y)"
proof -
  obtain w c where w: "vli_add x m = (w, c)" by force
  have v: "vli_val w + 2 ^ 256 * unat c = vli_val x + vli_val m" "is_vli w" "unat c \<le> 1"
    using vli_add_val [OF assms(1,3)] by (simp_all only: w fst_conv snd_conv)
  define z where "z = (if vli_cmp x y < 0 then w else x)"
  have z: "is_vli z" using v(2) assms(1) by (simp add: z_def)
  obtain s b where s: "vli_sub z y = (s, b)" by force
  have r: "vli_val s + vli_val y = vli_val z + 2 ^ 256 * unat b" "is_vli s" "unat b \<le> 1"
    using vli_sub_val [OF z assms(2)] by (simp_all only: s fst_conv snd_conv)
  have e: "modInv_minus m x y = s" by (simp only: modInv_minus_def w fst_conv z_def [symmetric] s Let_def)
  show "is_vli (modInv_minus m x y)" using r(2) by (simp add: e)
  have bounds: "vli_val s < 2 ^ 256" "vli_val m < 2 ^ 256" "vli_val w < 2 ^ 256" "vli_val x < 2 ^ 256"
    using vli_val_bound r(2) assms(1,3) v(2) by blast+
  show "vli_val (modInv_minus m x y) = (if vli_val x < vli_val y then vli_val x + (vli_val m - vli_val y)
           else vli_val x - vli_val y)"
  proof (cases "vli_val x < vli_val y")
    case True
    then have "z = w" using vli_cmp_cases(1) [OF assms(1,2)] by (simp add: z_def)
    then have "vli_val s = (vli_val x + vli_val m) - vli_val y"
      using wrapped_result [OF v(1) _ v(3) r(3) bounds(1,3)] r(1) True assms(4,5) bounds
      by simp
    then show ?thesis using True assms(5) by (simp add: e)
  next
    case False
    then have "z = x" using vli_cmp_cases(1) [OF assms(1,2)] by (simp add: z_def)
    then have "vli_val s = vli_val x - vli_val y"
      using wrapped_result [of "vli_val x" _ 0 _ "vli_val s" "vli_val y" "unat b"] r(1,3) False bounds
      by simp
    then show ?thesis using False by (simp add: e)
  qed
qed

text \<open>
  The invariant of the loop for input \<open>x\<close> and modulus \<open>m\<close>: the coefficients
  times the input are congruent to \<open>a\<close> and \<open>b\<close>, whose greatest common divisor
  stays that of the input and the modulus.
\<close>

definition modInv_inv :: "nat \<Rightarrow> vli \<Rightarrow> modInv_state \<Rightarrow> bool" where
  "modInv_inv x m s \<longleftrightarrow>
     is_vli (inv_a s) \<and> is_vli (inv_b s) \<and> is_vli (inv_u s) \<and> is_vli (inv_v s) \<and>
     0 < vli_val (inv_a s) \<and> 0 < vli_val (inv_b s) \<and>
     vli_val (inv_u s) < vli_val m \<and> vli_val (inv_v s) < vli_val m \<and>
     (odd (vli_val (inv_a s)) \<or> odd (vli_val (inv_b s))) \<and>
     gcd (vli_val (inv_a s)) (vli_val (inv_b s)) = gcd x (vli_val m) \<and>
     int (vli_val m) dvd int (vli_val (inv_u s)) * int x - int (vli_val (inv_a s)) \<and>
     int (vli_val m) dvd int (vli_val (inv_v s)) * int x - int (vli_val (inv_b s))"

lemma gcd_half:
  fixes x y :: nat
  assumes "even x" "odd y"
  shows "gcd (x div 2) y = gcd x y"
proof -
  have "coprime y 2" using assms(2) by simp
  then have "gcd y (2 * (x div 2)) = gcd y (x div 2)"
    by (rule gcd_mult_right_left_cancel)
  then show ?thesis using assms(1) by (simp add: gcd.commute)
qed

lemma dvd_halve:
  fixes m z w c x :: int
  assumes "odd m" "m dvd z * x - 2 * c" "2 * w = z + k * m"
  shows "m dvd w * x - c"
proof -
  have "2 * (w * x - c) = (2 * w) * x - 2 * c" by (simp add: algebra_simps)
  also have "\<dots> = (z * x - 2 * c) + m * (k * x)"
    unfolding assms(3) by (simp add: algebra_simps)
  finally have "m dvd 2 * (w * x - c)"
    by (rule ssubst) (intro dvd_add assms(2) dvd_triv_left)
  moreover have "coprime m 2" using assms(1) by simp
  ultimately show ?thesis using coprime_dvd_mult_right_iff by blast
qed

lemma modInv_halve_dvd:
  assumes "is_vli z" "is_vli m" "vli_val z < vli_val m" "odd (vli_val m)"
    and "int (vli_val m) dvd int (vli_val z) * x - 2 * c"
  shows "int (vli_val m) dvd int (vli_val (modInv_halve m z)) * x - c"
proof (rule dvd_halve [OF _ assms(5)])
  show "odd (int (vli_val m))" using assms(4) by simp
  show "2 * int (vli_val (modInv_halve m z))
      = int (vli_val z) + (if even (vli_val z) then 0 else 1) * int (vli_val m)"
    using arg_cong [OF modInv_halve_val(2) [OF assms(1-4)], of int] by simp
qed

lemma modInv_minus_dvd:
  assumes "is_vli y" "is_vli z" "is_vli m" "vli_val y < vli_val m" "vli_val z < vli_val m"
    and "int (vli_val m) dvd int (vli_val y) * x - c" "int (vli_val m) dvd int (vli_val z) * x - d"
  shows "int (vli_val m) dvd int (vli_val (modInv_minus m y z)) * x - (c - d)"
proof -
  define k :: int where "k = (if vli_val y < vli_val z then 1 else 0)"
  have e: "int (vli_val (modInv_minus m y z)) = int (vli_val y) - int (vli_val z) + k * int (vli_val m)"
    using assms(4,5) unfolding modInv_minus_val(2) [OF assms(1-5)] k_def
    by simp
  have "int (vli_val (modInv_minus m y z)) * x - (c - d)
      = (int (vli_val y) * x - c) - (int (vli_val z) * x - d) + int (vli_val m) * (k * x)"
    unfolding e by (simp add: algebra_simps)
  then show ?thesis
    by (rule ssubst) (intro dvd_add dvd_diff assms(6,7) dvd_triv_left)
qed

lemma modInv_minus_less:
  assumes "is_vli y" "is_vli z" "is_vli m" "vli_val y < vli_val m" "vli_val z < vli_val m"
  shows "vli_val (modInv_minus m y z) < vli_val m"
  using assms(4,5) unfolding modInv_minus_val(2) [OF assms] by auto

text \<open>One halving of the difference of two odd numbers.\<close>

lemma vli_half_diff:
  assumes "is_vli y" "is_vli z" "odd (vli_val y)" "odd (vli_val z)" "vli_val z < vli_val y"
  shows "is_vli (vli_rshift1 (fst (vli_sub y z)))"
    and "2 * vli_val (vli_rshift1 (fst (vli_sub y z))) = vli_val y - vli_val z"
    and "0 < vli_val (vli_rshift1 (fst (vli_sub y z)))"
    and "gcd (vli_val (vli_rshift1 (fst (vli_sub y z)))) (vli_val z) = gcd (vli_val y) (vli_val z)"
proof -
  obtain r b where r: "vli_sub y z = (r, b)" by force
  have v: "vli_val r + vli_val z = vli_val y + 2 ^ 256 * unat b" "is_vli r" "unat b \<le> 1"
    using vli_sub_val [OF assms(1,2)] by (simp_all only: r fst_conv snd_conv)
  have bounds: "vli_val r < 2 ^ 256" "vli_val y < 2 ^ 256"
    using vli_val_bound v(2) assms(1) by blast+
  have d: "vli_val r = vli_val y - vli_val z"
    using wrapped_result [of "vli_val y" _ 0 _ "vli_val r" "vli_val z" "unat b"] v assms(5) bounds
    by simp
  have e: "even (vli_val r)" using assms(3-5) by (simp add: d)
  have h: "vli_val (vli_rshift1 r) = vli_val r div 2" using v(2) by (simp add: val_simps)
  show "is_vli (vli_rshift1 (fst (vli_sub y z)))" using v(2) by (simp add: r len_simps)
  show two: "2 * vli_val (vli_rshift1 (fst (vli_sub y z))) = vli_val y - vli_val z"
    using e by (simp add: r h d)
  show "0 < vli_val (vli_rshift1 (fst (vli_sub y z)))" using two assms(5) by linarith
  have "gcd (vli_val r div 2) (vli_val z) = gcd (vli_val r) (vli_val z)"
    by (rule gcd_half [OF e assms(4)])
  also have "\<dots> = gcd (vli_val y) (vli_val z)"
    using gcd_diff1_nat [of "vli_val z" "vli_val y"] assms(5) by (simp add: d)
  finally show "gcd (vli_val (vli_rshift1 (fst (vli_sub y z)))) (vli_val z) = gcd (vli_val y) (vli_val z)"
    by (simp add: r h)
qed

lemma modInv_inv_step:
  assumes "modInv_inv x m s" "is_vli m" "odd (vli_val m)" "vli_cmp (inv_a s) (inv_b s) \<noteq> 0"
  shows "modInv_inv x m (modInv_step m s) \<and>
         vli_val (inv_a (modInv_step m s)) + vli_val (inv_b (modInv_step m s))
         < vli_val (inv_a s) + vli_val (inv_b s)"
proof -
  obtain a b u v where s: "s = \<lparr>inv_a = a, inv_b = b, inv_u = u, inv_v = v\<rparr>" by (cases s)
  have I: "is_vli a" "is_vli b" "is_vli u" "is_vli v" "0 < vli_val a" "0 < vli_val b"
    "vli_val u < vli_val m" "vli_val v < vli_val m" "odd (vli_val a) \<or> odd (vli_val b)"
    "gcd (vli_val a) (vli_val b) = gcd x (vli_val m)"
    "int (vli_val m) dvd int (vli_val u) * int x - int (vli_val a)"
    "int (vli_val m) dvd int (vli_val v) * int x - int (vli_val b)"
    using assms(1) by (simp_all add: modInv_inv_def s)
  have cmp: "vli_val a \<noteq> vli_val b" "vli_cmp a b > 0 \<longleftrightarrow> vli_val b < vli_val a"
    using assms(4) vli_cmp_cases [OF I(1,2)] vli_val_inj [OF I(1,2)] by (simp_all add: s)
  note even_iff = vli_even_val [OF I(1)] vli_even_val [OF I(2)]
  consider "even (vli_val a)" | "odd (vli_val a)" "even (vli_val b)"
    | "odd (vli_val a)" "odd (vli_val b)" "vli_val b < vli_val a"
    | "odd (vli_val a)" "odd (vli_val b)" "vli_val a < vli_val b"
    using cmp(1) by linarith
  then show ?thesis
  proof cases
    case 1
    define a' u' where "a' = vli_rshift1 a" and "u' = modInv_halve m u"
    have e: "modInv_step m s = \<lparr>inv_a = a', inv_b = b, inv_u = u', inv_v = v\<rparr>"
      using 1 by (simp add: modInv_step_def s even_iff a'_def u'_def)
    have a': "is_vli a'" "vli_val a' = vli_val a div 2"
      using I(1) by (simp_all add: a'_def len_simps val_simps)
    have two: "2 * vli_val a' = vli_val a" using 1 a'(2) by simp
    have "int (vli_val m) dvd int (vli_val u) * int x - 2 * int (vli_val a')"
      using I(11) arg_cong [OF two, of int] by simp
    then have "int (vli_val m) dvd int (vli_val u') * int x - int (vli_val a')"
      unfolding u'_def by (rule modInv_halve_dvd [OF I(3) assms(2) I(7) assms(3)])
    moreover have "gcd (vli_val a') (vli_val b) = gcd x (vli_val m)"
      using gcd_half [of "vli_val a" "vli_val b"] 1 I(9,10) by (simp add: a'(2))
    moreover have "is_vli u'" "vli_val u' < vli_val m"
      unfolding u'_def using modInv_halve_val(1) modInv_halve_less I(3,7) assms(2,3) by blast+
    moreover have "vli_val a' < vli_val a" "0 < vli_val a'" using two I(5) by linarith+
    ultimately show ?thesis using I a'(1) 1 unfolding modInv_inv_def e by (simp add: s)
  next
    case 2
    define b' v' where "b' = vli_rshift1 b" and "v' = modInv_halve m v"
    have e: "modInv_step m s = \<lparr>inv_a = a, inv_b = b', inv_u = u, inv_v = v'\<rparr>"
      using 2 by (simp add: modInv_step_def s even_iff b'_def v'_def)
    have b': "is_vli b'" "vli_val b' = vli_val b div 2"
      using I(2) by (simp_all add: b'_def len_simps val_simps)
    have two: "2 * vli_val b' = vli_val b" using 2 b'(2) by simp
    have "int (vli_val m) dvd int (vli_val v) * int x - 2 * int (vli_val b')"
      using I(12) arg_cong [OF two, of int] by simp
    then have "int (vli_val m) dvd int (vli_val v') * int x - int (vli_val b')"
      unfolding v'_def by (rule modInv_halve_dvd [OF I(4) assms(2) I(8) assms(3)])
    moreover have "gcd (vli_val a) (vli_val b') = gcd x (vli_val m)"
      using gcd_half [of "vli_val b" "vli_val a"] 2 I(10) by (simp add: b'(2) gcd.commute)
    moreover have "is_vli v'" "vli_val v' < vli_val m"
      unfolding v'_def using modInv_halve_val(1) modInv_halve_less I(4,8) assms(2,3) by blast+
    moreover have "vli_val b' < vli_val b" "0 < vli_val b'" using two I(6) by linarith+
    ultimately show ?thesis using I b'(1) 2 unfolding modInv_inv_def e by (simp add: s)
  next
    case 3
    define a' d u' where "a' = vli_rshift1 (fst (vli_sub a b))" and "d = modInv_minus m u v"
      and "u' = modInv_halve m d"
    have e: "modInv_step m s = \<lparr>inv_a = a', inv_b = b, inv_u = u', inv_v = v\<rparr>"
      using 3 cmp(2) by (simp add: modInv_step_def s even_iff a'_def d_def u'_def)
    note a' = vli_half_diff [OF I(1,2) 3, folded a'_def]
    have d: "is_vli d" "vli_val d < vli_val m"
      unfolding d_def using modInv_minus_val(1) modInv_minus_less I assms(2) by blast+
    have two: "2 * int (vli_val a') = int (vli_val a) - int (vli_val b)"
      using arg_cong [OF a'(2), of int] 3 by simp
    have "int (vli_val m) dvd int (vli_val d) * int x - 2 * int (vli_val a')"
      unfolding two d_def by (rule modInv_minus_dvd [OF I(3,4) assms(2) I(7,8,11,12)])
    then have "int (vli_val m) dvd int (vli_val u') * int x - int (vli_val a')"
      unfolding u'_def by (rule modInv_halve_dvd [OF d(1) assms(2) d(2) assms(3)])
    moreover have "is_vli u'" "vli_val u' < vli_val m"
      unfolding u'_def using modInv_halve_val(1) modInv_halve_less d assms(2,3) by blast+
    moreover have "vli_val a' < vli_val a" using a'(2) 3(3) I(6) by linarith
    ultimately show ?thesis using I a'(1,3,4) 3 unfolding modInv_inv_def e by (simp add: s)
  next
    case 4
    define b' d v' where "b' = vli_rshift1 (fst (vli_sub b a))" and "d = modInv_minus m v u"
      and "v' = modInv_halve m d"
    have e: "modInv_step m s = \<lparr>inv_a = a, inv_b = b', inv_u = u, inv_v = v'\<rparr>"
      using 4 cmp(2) by (simp add: modInv_step_def s even_iff b'_def d_def v'_def)
    note b' = vli_half_diff [OF I(2,1) 4(2,1,3), folded b'_def]
    have d: "is_vli d" "vli_val d < vli_val m"
      unfolding d_def using modInv_minus_val(1) modInv_minus_less I assms(2) by blast+
    have two: "2 * int (vli_val b') = int (vli_val b) - int (vli_val a)"
      using arg_cong [OF b'(2), of int] 4 by simp
    have "int (vli_val m) dvd int (vli_val d) * int x - 2 * int (vli_val b')"
      unfolding two d_def by (rule modInv_minus_dvd [OF I(4,3) assms(2) I(8,7,12,11)])
    then have "int (vli_val m) dvd int (vli_val v') * int x - int (vli_val b')"
      unfolding v'_def by (rule modInv_halve_dvd [OF d(1) assms(2) d(2) assms(3)])
    moreover have "gcd (vli_val a) (vli_val b') = gcd x (vli_val m)"
      using b'(4) I(10) by (simp add: gcd.commute)
    moreover have "is_vli v'" "vli_val v' < vli_val m"
      unfolding v'_def using modInv_halve_val(1) modInv_halve_less d assms(2,3) by blast+
    moreover have "vli_val b' < vli_val b" using b'(2) 4(3) I(5) by linarith
    ultimately show ?thesis using I b'(1,3) 4 unfolding modInv_inv_def e by (simp add: s)
  qed
qed

lemma vli_clear_digits: "vli_clear = [0, 0, 0, 0]"
  by (simp add: vli_clear_def numeral_eq_Suc)

lemma modInv_inv_start:
  assumes "is_vli x" "is_vli m" "vli_val x \<noteq> 0" "odd (vli_val m)" "1 < vli_val m"
  shows "modInv_inv (vli_val x) m (modInv_start x m)"
proof -
  have one: "vli_val (vli_clear[0 := 1]) = 1" "is_vli (vli_clear[0 := 1])"
    by (simp_all add: vli_clear_digits is_vli_def)
  show ?thesis
    using assms by (simp add: modInv_inv_def modInv_start_def one is_vli_clear vli_val_clear)
qed

lemma vli_modInv_loop:
  assumes "is_vli x" "is_vli m" "vli_val x \<noteq> 0" "odd (vli_val m)" "1 < vli_val m"
  shows "\<exists>t. while_option (\<lambda>s. vli_cmp (inv_a s) (inv_b s) \<noteq> 0) (modInv_step m) (modInv_start x m)
             = Some t \<and> modInv_inv (vli_val x) m t \<and> inv_a t = inv_b t"
proof -
  let ?b = "\<lambda>s. vli_cmp (inv_a s) (inv_b s) \<noteq> 0"
  let ?I = "modInv_inv (vli_val x) m"
  have step: "?I (modInv_step m s) \<and> vli_val (inv_a (modInv_step m s)) + vli_val (inv_b (modInv_step m s))
         < vli_val (inv_a s) + vli_val (inv_b s)" if "?I s" "?b s" for s
    by (rule modInv_inv_step [OF that(1) assms(2,4) that(2)])
  note start = modInv_inv_start [OF assms]
  have "\<exists>t. while_option ?b (modInv_step m) (modInv_start x m) = Some t"
    by (rule measure_while_option_Some [where P = ?I and
          f = "\<lambda>s. vli_val (inv_a s) + vli_val (inv_b s)"])
      (erule (1) step, rule start)
  then obtain t where t: "while_option ?b (modInv_step m) (modInv_start x m) = Some t" ..
  have I: "?I t" by (rule while_option_rule [of ?I, OF _ t start]) (use step in blast)
  have "vli_cmp (inv_a t) (inv_b t) = 0" using while_option_stop [OF t] by simp
  then have "inv_a t = inv_b t" using vli_cmp_cases(2) I unfolding modInv_inv_def by blast
  then show ?thesis using t I by blast
qed

lemma vli_modInv_val:
  assumes "is_vli x" "is_vli m" "odd (vli_val m)" "1 < vli_val m"
  shows "is_vli (vli_modInv x m)" "vli_val (vli_modInv x m) < vli_val m"
    and "vli_val x \<noteq> 0 \<Longrightarrow> int (vli_val m) dvd int (vli_val (vli_modInv x m)) * int (vli_val x)
           - int (gcd (vli_val x) (vli_val m))"
proof -
  have zero: "is_vli (vli_modInv x m)" "vli_val (vli_modInv x m) < vli_val m" if "vli_val x = 0"
    using that assms by (simp_all add: vli_modInv_def len_simps val_simps)
  have pos: "is_vli (vli_modInv x m) \<and> vli_val (vli_modInv x m) < vli_val m \<and>
    int (vli_val m) dvd int (vli_val (vli_modInv x m)) * int (vli_val x)
           - int (gcd (vli_val x) (vli_val m))" if nz: "vli_val x \<noteq> 0"
  proof -
    obtain t where t: "while_option (\<lambda>s. vli_cmp (inv_a s) (inv_b s) \<noteq> 0) (modInv_step m)
        (modInv_start x m) = Some t" "modInv_inv (vli_val x) m t" "inv_a t = inv_b t"
      using vli_modInv_loop [OF assms(1,2) nz assms(3,4)] by blast
    have "vli_modInv x m = inv_u t"
      using nz t assms(1) by (simp add: vli_modInv_def val_simps while_def modInv_inv_def)
    moreover have "vli_val (inv_a t) = gcd (vli_val x) (vli_val m)"
      using t(2,3) by (simp add: modInv_inv_def)
    ultimately show ?thesis using t(2) by (auto simp: modInv_inv_def)
  qed
  show "is_vli (vli_modInv x m)" "vli_val (vli_modInv x m) < vli_val m"
    using zero pos by blast+
  show "vli_val x \<noteq> 0 \<Longrightarrow> int (vli_val m) dvd int (vli_val (vli_modInv x m)) * int (vli_val x)
           - int (gcd (vli_val x) (vli_val m))"
    using pos by blast
qed

subsection \<open>The reduction and the inverse as the callers use them\<close>

text \<open>
  C25. The fast reduction computes the residue: for every 512-bit product the eight
  32-bit terms and the closing loops leave the value modulo the field prime, fully
  reduced; so \<open>vli_modMult_fast\<close> and \<open>vli_modSquare_fast\<close> multiply modulo the prime.
\<close>

theorem vli_mmod_fast_residue:
  assumes "length q = 8"
  shows "is_vli (vli_mmod_fast q) \<and> vli_val (vli_mmod_fast q) = vli_val q mod P256 \<and>
         (\<forall>x y. is_vli x \<and> is_vli y \<longrightarrow>
            vli_val (vli_modMult_fast x y) = (vli_val x * vli_val y) mod P256 \<and>
            vli_modSquare_fast x = vli_modMult_fast x x)"
  using vli_mmod_fast_val [OF assms] vli_modMult_fast_val(2)
  by (simp add: vli_modMult_fast_def vli_modSquare_fast_def vli_square_mult)

theorem vli_mmod_fast_residue_witness:
  "vli_val (vli_mmod_fast [0, 0, 0, 0, 1, 0, 0, 0]) = 2 ^ 256 mod P256"
  using vli_mmod_fast_residue [of "[0, 0, 0, 0, 1, 0, 0, 0]"] by simp

text \<open>
  C30. The closing loops of the reduction end from every state: whatever the signed
  carry, adding the prime while negative, or subtracting it while the value is not below
  it, stops after finitely many passes with no carry left and a value below the prime.
\<close>

theorem mmod_loops_terminate:
  assumes "is_vli (fst r)"
  shows "if snd r < 0
         then \<exists>t. while_option (\<lambda>r. snd r < 0) (mmod_add curve_p) (mmod_add curve_p r) = Some t \<and>
                  snd t = 0 \<and> vli_val (fst t) < P256
         else \<exists>t. while_option mmod_high (mmod_sub curve_p) r = Some t \<and>
                  snd t = 0 \<and> vli_val (fst t) < P256"
proof -
  have fin: "snd t = 0 \<and> vli_val (fst t) < P256"
    if "is_vli (fst t)" "0 \<le> signed_val t" "signed_val t < int P256" for t
    using signed_small [OF that(1,2)] that P256_bounds(2) by (simp add: signed_val_def)
  have v: "signed_val (mmod_add curve_p r) = signed_val r + int P256" "is_vli (fst (mmod_add curve_p r))"
    using mmod_add_val [OF assms is_vli_curve(1)] by (simp_all add: curve_p_val)
  show ?thesis
  proof (cases "snd r < 0")
    case True
    then have "signed_val (mmod_add curve_p r) < int P256" using v(1) signed_neg_iff [OF assms] by simp
    then show ?thesis unfolding if_P [OF True] using mmod_add_loop [OF v(2)] fin by meson
  next
    case False
    then have "0 \<le> signed_val r" using signed_neg_iff [OF assms] by simp
    then show ?thesis unfolding if_not_P [OF False] using mmod_sub_loop [OF assms] fin by meson
  qed
qed

theorem mmod_loops_terminate_witness:
  "\<exists>t. while_option (\<lambda>r. snd r < 0) (mmod_add curve_p) (mmod_add curve_p ([0, 0, 0, 0], - 1)) = Some t \<and>
       snd t = 0 \<and> vli_val (fst t) < P256"
  using mmod_loops_terminate [of "([0, 0, 0, 0], - 1)"] by (simp add: is_vli_def)

text \<open>
  C31. The binary Euclidean inverse: for a non-zero input and an odd modulus the loop ends,
  and the result times the input is congruent to their greatest common divisor, so it is
  the inverse whenever one exists; for the input zero the result is zero.
\<close>

theorem vli_modInv_inverse:
  assumes "is_vli x" "is_vli m" "odd (vli_val m)" "1 < vli_val m"
  shows "vli_val (vli_modInv x m) < vli_val m \<and>
         (if vli_val x = 0 then vli_modInv x m = vli_clear
          else (\<exists>t. while_option (\<lambda>s. vli_cmp (inv_a s) (inv_b s) \<noteq> 0) (modInv_step m)
                  (modInv_start x m) = Some t) \<and>
               (vli_val (vli_modInv x m) * vli_val x) mod vli_val m = gcd (vli_val x) (vli_val m) mod vli_val m)"
proof -
  have "(vli_val (vli_modInv x m) * vli_val x) mod vli_val m = gcd (vli_val x) (vli_val m) mod vli_val m"
    if "vli_val x \<noteq> 0"
    using vli_modInv_val(3) [OF assms that]
    by (simp only: of_nat_mult [symmetric] mod_eq_dvd_iff [symmetric] of_nat_mod [symmetric] of_nat_eq_iff)
  moreover have "vli_modInv x m = vli_clear" if "vli_val x = 0"
    using that assms(1) by (simp add: vli_modInv_def val_simps)
  ultimately show ?thesis
    using vli_modInv_val(2) [OF assms] vli_modInv_loop [OF assms(1,2) _ assms(3,4)] by auto
qed

theorem vli_modInv_inverse_witness:
  "(vli_val (vli_modInv [3, 0, 0, 0] curve_p) * 3) mod P256 = 1"
  using vli_modInv_inverse [of "[3, 0, 0, 0]" curve_p]
  by (simp only: is_vli_curve curve_p_val) (simp add: is_vli_def P256_def gcd_non_0_nat)

end
