(* ===== verification/Vli_ModMult.thy ===== *)
theory Vli_ModMult
  imports Vli_Mod
begin

text \<open>
  Multiplication modulo an arbitrary 256-bit modulus, \<open>vli_modMult\<close> of
  bryllite-core/secp256r1.cpp (lines 1004-1067): a shift-and-subtract division of
  the 512-bit product. The eight-digit arrays are lists of length 8, read and written
  through their two halves as the code does with \<open>+ NUM_ECC_DIGITS\<close> on the pointer.
\<close>

definition wide_lo :: "vli \<Rightarrow> vli" where
  "wide_lo w = take NUM_ECC_DIGITS w"

definition wide_hi :: "vli \<Rightarrow> vli" where
  "wide_hi w = drop NUM_ECC_DIGITS w"

definition is_wide :: "vli \<Rightarrow> bool" where
  "is_wide w \<longleftrightarrow> length w = 2 * NUM_ECC_DIGITS"

record modMult_state =
  l_product :: vli
  l_modMultiple :: vli
  l_productBits :: nat

text \<open>The value 1 that the code keeps in \<open>p_result\<close> during the loop.\<close>

definition vli_one :: vli where
  "vli_one = vli_clear[0 := 1]"

definition wide_numBits :: "vli \<Rightarrow> nat" where
  "wide_numBits w =
     (let bits = vli_numBits (wide_hi w)
      in if bits \<noteq> 0 then bits + NUM_ECC_DIGITS * 64 else vli_numBits (wide_lo w))"

text \<open>The modulus shifted left by \<open>shift\<close> bits in an array of eight digits.\<close>

definition modMult_multiple :: "vli \<Rightarrow> nat \<Rightarrow> vli" where
  "modMult_multiple p_mod shift =
     (let l_digitShift = shift div 64;
          l_bitShift = shift mod 64
      in if l_bitShift \<noteq> 0 then
           let (ds, c) = vli_lshift p_mod l_bitShift
           in replicate l_digitShift 0 @ ds @ [c] @ replicate (NUM_ECC_DIGITS - 1 - l_digitShift) 0
         else replicate l_digitShift 0 @ vli_set p_mod @ replicate (NUM_ECC_DIGITS - l_digitShift) 0)"

definition wide_fits :: "vli \<Rightarrow> vli \<Rightarrow> bool" where
  "wide_fits mm q =
     (let l_cmp = vli_cmp (wide_hi mm) (wide_hi q)
      in l_cmp < 0 \<or> (l_cmp = 0 \<and> vli_cmp (wide_lo mm) (wide_lo q) \<le> 0))"

definition wide_sub :: "vli \<Rightarrow> vli \<Rightarrow> vli" where
  "wide_sub q mm =
     (let (lo, borrow) = vli_sub (wide_lo q) (wide_lo mm);
          hi = (if borrow \<noteq> 0 then fst (vli_sub (wide_hi q) vli_one) else wide_hi q)
      in lo @ fst (vli_sub hi (wide_hi mm)))"

definition wide_rshift1 :: "vli \<Rightarrow> vli" where
  "wide_rshift1 mm =
     (let l_carry = push_bit 63 (wide_hi mm ! 0 AND 1);
          hi = vli_rshift1 (wide_hi mm);
          lo = vli_rshift1 (wide_lo mm)
      in lo[NUM_ECC_DIGITS - 1 := lo ! (NUM_ECC_DIGITS - 1) OR l_carry] @ hi)"

definition modMult_step :: "modMult_state \<Rightarrow> modMult_state" where
  "modMult_step s =
     s\<lparr>l_product := (if wide_fits (l_modMultiple s) (l_product s)
                     then wide_sub (l_product s) (l_modMultiple s) else l_product s),
       l_modMultiple := wide_rshift1 (l_modMultiple s),
       l_productBits := l_productBits s - 1\<rparr>"

definition modMult_more :: "vli \<Rightarrow> modMult_state \<Rightarrow> bool" where
  "modMult_more p_mod s \<longleftrightarrow>
     l_productBits s > NUM_ECC_DIGITS * 64 \<or> vli_cmp (wide_lo (l_modMultiple s)) p_mod \<ge> 0"

definition vli_modMult :: "vli \<Rightarrow> vli \<Rightarrow> vli \<Rightarrow> vli" where
  "vli_modMult p_left p_right p_mod =
     (let modBits = vli_numBits p_mod;
          product = vli_mult p_left p_right;
          productBits = wide_numBits product
      in if productBits < modBits then vli_set product
         else vli_set (l_product (while (modMult_more p_mod) modMult_step
           \<lparr>l_product = product, l_modMultiple = modMult_multiple p_mod (productBits - modBits),
            l_productBits = productBits\<rparr>)))"

subsection \<open>The wide operations\<close>

lemma is_wide_length: "is_wide w \<Longrightarrow> length w = 8"
  by (simp add: is_wide_def)

lemma wide_halves:
  assumes "is_wide w"
  shows "is_vli (wide_lo w)" "is_vli (wide_hi w)"
    and "vli_val w = vli_val (wide_lo w) + 2 ^ 256 * vli_val (wide_hi w)"
  using assms limbs_val_take_drop [of 4 w]
  by (simp_all add: is_wide_def is_vli_def wide_lo_def wide_hi_def)

lemma wide_append:
  assumes "is_vli x" "is_vli y"
  shows "is_wide (x @ y)" "vli_val (x @ y) = vli_val x + 2 ^ 256 * vli_val y"
    "wide_lo (x @ y) = x" "wide_hi (x @ y) = y"
  using assms limbs_val_append [of x y]
  by (simp_all add: is_wide_def is_vli_def wide_lo_def wide_hi_def)

lemma vli_one_val: "vli_val vli_one = 1" "is_vli vli_one"
  by (simp_all add: vli_one_def vli_clear_digits is_vli_def)

lemma wide_numBits_bounds:
  assumes "is_wide w"
  shows "vli_val w < 2 ^ wide_numBits w" "wide_numBits w \<le> 512"
    and "vli_val w \<noteq> 0 \<Longrightarrow> 2 ^ (wide_numBits w - 1) \<le> vli_val w"
proof -
  note h = wide_halves [OF assms]
  note lo = vli_numBits_bounds [OF h(1)]
  note hi = vli_numBits_bounds [OF h(2)]
  have "vli_val w < 2 ^ wide_numBits w \<and> wide_numBits w \<le> 512 \<and>
    (vli_val w \<noteq> 0 \<longrightarrow> 2 ^ (wide_numBits w - 1) \<le> vli_val w)"
  proof (cases "vli_numBits (wide_hi w) = 0")
    case True
    then have "vli_val w = vli_val (wide_lo w)" using hi(3) h(3) by simp
    then show ?thesis using True lo by (simp add: wide_numBits_def)
  next
    case False
    then have n: "wide_numBits w = 256 + vli_numBits (wide_hi w)" by (simp add: wide_numBits_def)
    have "vli_val w < 2 ^ 256 * 2 ^ vli_numBits (wide_hi w)"
      unfolding h(3) by (rule digit_cons_less [OF vli_val_bound [OF h(1)] hi(1)])
    moreover have "2 ^ 256 * 2 ^ (vli_numBits (wide_hi w) - 1) \<le> vli_val w"
      unfolding h(3) using hi(2,3) False by (intro trans_le_add2 mult_le_mono2) simp
    moreover have "wide_numBits w - 1 = 256 + (vli_numBits (wide_hi w) - 1)"
      using False n by simp
    ultimately show ?thesis using hi(4) n by (simp only: power_add) simp
  qed
  then show "vli_val w < 2 ^ wide_numBits w" "wide_numBits w \<le> 512"
    "vli_val w \<noteq> 0 \<Longrightarrow> 2 ^ (wide_numBits w - 1) \<le> vli_val w" by blast+
qed

lemma wide_le_iff:
  fixes x y x' y' B :: nat
  assumes "x < B" "x' < B"
  shows "x + B * y \<le> x' + B * y' \<longleftrightarrow> y < y' \<or> (y = y' \<and> x \<le> x')"
  using assms high_digit_less [of x B y y' x'] high_digit_less [of x' B y' y x]
  by (cases y y' rule: linorder_cases) auto

lemma wide_fits_val:
  assumes "is_wide mm" "is_wide q"
  shows "wide_fits mm q \<longleftrightarrow> vli_val mm \<le> vli_val q"
proof -
  note m = wide_halves [OF assms(1)] and h = wide_halves [OF assms(2)]
  have "vli_val mm \<le> vli_val q \<longleftrightarrow> vli_val (wide_hi mm) < vli_val (wide_hi q) \<or>
    (vli_val (wide_hi mm) = vli_val (wide_hi q) \<and> vli_val (wide_lo mm) \<le> vli_val (wide_lo q))"
    unfolding m(3) h(3) by (rule wide_le_iff [OF vli_val_bound [OF m(1)] vli_val_bound [OF h(1)]])
  moreover have "vli_cmp (wide_lo mm) (wide_lo q) \<le> 0 \<longleftrightarrow> vli_val (wide_lo mm) \<le> vli_val (wide_lo q)"
    using vli_cmp_cases(3) [OF m(1) h(1)] by (simp add: not_less [symmetric])
  ultimately show ?thesis
    using vli_cmp_cases(1,2) [OF m(2) h(2)] vli_val_inj [OF m(2) h(2)]
    by (simp add: wide_fits_def)
qed

lemma vli_sub_exact:
  assumes "is_vli x" "is_vli y" "vli_val y \<le> vli_val x"
  shows "is_vli (fst (vli_sub x y))" "vli_val (fst (vli_sub x y)) = vli_val x - vli_val y"
proof -
  obtain r b where r: "vli_sub x y = (r, b)" by force
  have v: "vli_val r + vli_val y = vli_val x + 2 ^ 256 * unat b" "is_vli r" "unat b \<le> 1"
    using vli_sub_val [OF assms(1,2)] by (simp_all only: r fst_conv snd_conv)
  show "is_vli (fst (vli_sub x y))" using v(2) by (simp add: r)
  show "vli_val (fst (vli_sub x y)) = vli_val x - vli_val y"
    using wrapped_result [of "vli_val x" _ 0 _ "vli_val r" "vli_val y" "unat b"] v assms(3)
      vli_val_bound [OF v(2)] vli_val_bound [OF assms(1)] by (simp add: r)
qed

lemma wide_sub_val:
  assumes "is_wide q" "is_wide mm" "vli_val mm \<le> vli_val q"
  shows "is_wide (wide_sub q mm)" "vli_val (wide_sub q mm) = vli_val q - vli_val mm"
proof -
  note h = wide_halves [OF assms(1)] and m = wide_halves [OF assms(2)]
  obtain lo b where lo: "vli_sub (wide_lo q) (wide_lo mm) = (lo, b)" by force
  have v: "vli_val lo + vli_val (wide_lo mm) = vli_val (wide_lo q) + 2 ^ 256 * unat b" "is_vli lo" "unat b \<le> 1"
    using vli_sub_val [OF h(1) m(1)] by (simp_all only: lo fst_conv snd_conv)
  have le: "vli_val (wide_hi mm) < vli_val (wide_hi q) \<or>
    (vli_val (wide_hi mm) = vli_val (wide_hi q) \<and> vli_val (wide_lo mm) \<le> vli_val (wide_lo q))"
    using assms(3) wide_le_iff [OF vli_val_bound [OF m(1)] vli_val_bound [OF h(1)]]
    unfolding m(3) h(3) by blast
  have b: "unat b = of_bool (vli_val (wide_lo q) < vli_val (wide_lo mm))"
    using v(1) vli_val_bound [OF v(2)] vli_val_bound [OF h(1)]
    by (cases rule: carry_cases [OF v(3)]) simp_all
  define hi where "hi = (if b \<noteq> 0 then fst (vli_sub (wide_hi q) vli_one) else wide_hi q)"
  have one: "vli_val vli_one \<le> vli_val (wide_hi q)" if "b = 1"
  proof -
    have "vli_val (wide_lo q) < vli_val (wide_lo mm)"
      using b unfolding that by (rule contrapos_pp) simp
    then show ?thesis using le unfolding vli_one_val(1) by linarith
  qed
  have hi: "is_vli hi \<and> vli_val hi = vli_val (wide_hi q) - unat b"
  proof (cases rule: carry_cases [OF v(3)])
    case 1
    then show ?thesis using h(2) by (simp add: hi_def)
  next
    case 2
    then show ?thesis
      using vli_sub_exact [OF h(2) vli_one_val(2) one] by (simp add: hi_def vli_one_val)
  qed
  note hi = hi [THEN conjunct1] hi [THEN conjunct2]
  have "vli_val (wide_hi mm) \<le> vli_val hi"
    using le b unfolding hi(2) by auto
  note top = vli_sub_exact [OF hi(1) m(2) this]
  have e: "wide_sub q mm = lo @ fst (vli_sub hi (wide_hi mm))"
    by (simp only: wide_sub_def lo prod.case Let_def hi_def)
  show "is_wide (wide_sub q mm)" unfolding e by (rule wide_append(1) [OF v(2) top(1)])
  have "vli_val (wide_hi mm) + unat b \<le> vli_val (wide_hi q)" using le b by auto
  then have "vli_val (wide_sub q mm) + vli_val mm = vli_val q"
    unfolding e wide_append(2) [OF v(2) top(1)] top(2) hi(2) m(3) h(3)
    using v(1) by (simp add: diff_mult_distrib2)
  then show "vli_val (wide_sub q mm) = vli_val q - vli_val mm" by simp
qed

lemma vli_rshift1_small:
  assumes "is_vli x"
  shows "vli_val (vli_rshift1 x) < 2 ^ 255"
  using vli_val_bound [OF assms] assms by (simp add: val_simps)

lemma wide_rshift1_val:
  assumes "is_wide w"
  shows "is_wide (wide_rshift1 w)" "vli_val (wide_rshift1 w) = vli_val w div 2"
proof -
  note h = wide_halves [OF assms]
  define c where "c = push_bit 63 (wide_hi w ! 0 AND 1)"
  define lo where "lo = vli_rshift1 (wide_lo w)"
  have lo: "is_vli lo" "vli_val lo = vli_val (wide_lo w) div 2" "vli_val lo < 2 ^ 255"
    using h(1) vli_rshift1_small by (simp_all add: lo_def len_simps val_simps)
  have hi: "is_vli (vli_rshift1 (wide_hi w))" "vli_val (vli_rshift1 (wide_hi w)) = vli_val (wide_hi w) div 2"
    using h(2) by (simp_all add: len_simps val_simps)
  define lo' where "lo' = lo[NUM_ECC_DIGITS - 1 := lo ! (NUM_ECC_DIGITS - 1) OR c]"
  have lo': "is_vli lo'" "vli_val lo' = vli_val lo + 2 ^ 255 * (vli_val (wide_hi w) mod 2)"
  proof -
    show "is_vli lo'" using lo(1) by (simp add: lo'_def len_simps)
    have even: "wide_hi w ! 0 AND 1 = 0 \<longleftrightarrow> even (vli_val (wide_hi w))"
      using vli_even_val [OF h(2)] by (simp add: vli_even_def)
    show "vli_val lo' = vli_val lo + 2 ^ 255 * (vli_val (wide_hi w) mod 2)"
    proof (cases "even (vli_val (wide_hi w))")
      case True
      then have "c = 0" using even by (simp add: c_def)
      then show ?thesis using True by (simp add: lo'_def)
    next
      case False
      have "wide_hi w ! 0 AND 1 = 1"
        using False even by (simp add: and_one_eq)
      then have "c = 0x8000000000000000" by (simp add: c_def)
      then show ?thesis using set_top_bit [OF lo(1,3)] False
        by (simp add: lo'_def odd_iff_mod_2_eq_one)
    qed
  qed
  have e: "wide_rshift1 w = lo' @ vli_rshift1 (wide_hi w)"
    by (simp only: wide_rshift1_def Let_def lo'_def lo_def c_def)
  show "is_wide (wide_rshift1 w)" unfolding e by (rule wide_append(1) [OF lo'(1) hi(1)])
  have "(x + 2 ^ 256 * y) div 2 = x div 2 + 2 ^ 255 * (y mod 2) + 2 ^ 256 * (y div 2)" for x y :: nat
  proof -
    have "(x + 2 ^ 256 * y) div 2 = x div 2 + 2 ^ 255 * (y mod 2 + 2 * (y div 2))" by simp
    also have "2 ^ 255 * (y mod 2 + 2 * (y div 2)) = 2 ^ 255 * (y mod 2) + 2 ^ 256 * (y div 2)"
      by (simp only: distrib_left) simp
    finally show ?thesis by simp
  qed
  then show "vli_val (wide_rshift1 w) = vli_val w div 2"
    unfolding e wide_append(2) [OF lo'(1) hi(1)] lo'(2) lo(2) hi(2) h(3) by simp
qed

lemma modMult_multiple_val:
  assumes "is_vli m" "shift \<le> 256"
  shows "is_wide (modMult_multiple m shift)" "vli_val (modMult_multiple m shift) = 2 ^ shift * vli_val m"
proof -
  define d b where "d = shift div 64" and "b = shift mod 64"
  have s: "shift = 64 * d + b" "b < 64" by (simp_all add: d_def b_def)
  have "is_wide (modMult_multiple m shift) \<and> vli_val (modMult_multiple m shift) = 2 ^ shift * vli_val m"
  proof (cases "b = 0")
    case True
    have "d \<le> 4" using s assms(2) True by simp
    then show ?thesis using True s assms(1)
      by (simp add: modMult_multiple_def d_def [symmetric] b_def [symmetric] is_wide_def is_vli_def
          limbs_val_append)
  next
    case False
    have d: "d \<le> 3" using s assms(2) False by linarith
    obtain ds c where ds: "vli_lshift m b = (ds, c)" by force
    have v: "vli_val ds + 2 ^ 256 * unat c = 2 ^ b * vli_val m" "length ds = 4"
      using vli_lshift_val [OF assms(1), of b] s(2) by (simp_all add: ds is_vli_def)
    have e: "modMult_multiple m shift = replicate d 0 @ (ds @ [c]) @ replicate (3 - d) 0"
      using False by (simp add: modMult_multiple_def d_def [symmetric] b_def [symmetric] ds)
    have l: "is_wide (modMult_multiple m shift)" using d v(2) by (simp add: e is_wide_def)
    have "vli_val (ds @ [c]) = 2 ^ b * vli_val m"
      using v by (simp add: limbs_val_append)
    then have "vli_val (modMult_multiple m shift) = 2 ^ (64 * d) * (2 ^ b * vli_val m)"
      unfolding e by (simp only: limbs_val_append length_replicate limbs_val_replicate_0 len64) simp
    then show ?thesis using l by (simp add: s(1) power_add)
  qed
  then show "is_wide (modMult_multiple m shift)"
    "vli_val (modMult_multiple m shift) = 2 ^ shift * vli_val m" by blast+
qed

subsection \<open>The loop\<close>

definition modMult_inv :: "nat \<Rightarrow> vli \<Rightarrow> modMult_state \<Rightarrow> bool" where
  "modMult_inv q m s \<longleftrightarrow>
     is_wide (l_product s) \<and> is_wide (l_modMultiple s) \<and>
     vli_val (l_product s) mod vli_val m = q mod vli_val m \<and>
     (if 256 \<le> l_productBits s
      then vli_val (l_modMultiple s) = 2 ^ (l_productBits s - 256) * vli_val m \<and>
           vli_val (l_product s) < 2 * vli_val (l_modMultiple s)
      else vli_val (l_modMultiple s) < vli_val m \<and> vli_val (l_product s) < vli_val m)"

lemma wide_lo_small:
  assumes "is_wide w" "vli_val w < 2 ^ 256"
  shows "vli_val (wide_lo w) = vli_val w"
  using no_high_part [of "vli_val (wide_lo w)" "2 ^ 256" "vli_val (wide_hi w)" "vli_val w"]
    wide_halves(3) [OF assms(1)] assms(2) by simp

lemma modMult_more_iff:
  assumes "modMult_inv q m s" "is_vli m"
  shows "modMult_more m s \<longleftrightarrow> 256 \<le> l_productBits s"
proof -
  have w: "is_wide (l_modMultiple s)" using assms(1) by (simp add: modMult_inv_def)
  have cmp: "vli_cmp (wide_lo (l_modMultiple s)) m \<ge> 0
      \<longleftrightarrow> vli_val m \<le> vli_val (wide_lo (l_modMultiple s))"
    using vli_cmp_cases(1) [OF wide_halves(1) [OF w] assms(2)] by (simp add: not_less [symmetric])
  consider "256 < l_productBits s" | "l_productBits s = 256" | "l_productBits s < 256" by linarith
  then show ?thesis
  proof cases
    case 1
    then show ?thesis by (simp add: modMult_more_def)
  next
    case 2
    then have "vli_val (l_modMultiple s) = vli_val m" using assms(1) by (simp add: modMult_inv_def)
    then show ?thesis using 2 wide_lo_small [OF w] vli_val_bound [OF assms(2)] cmp
      by (simp add: modMult_more_def)
  next
    case 3
    then have "vli_val (l_modMultiple s) < vli_val m" using assms(1) by (simp add: modMult_inv_def)
    then show ?thesis using 3 wide_lo_small [OF w] vli_val_bound [OF assms(2)] cmp
      by (simp add: modMult_more_def)
  qed
qed

lemma modMult_step_inv:
  assumes "modMult_inv q m s" "is_vli m" "256 \<le> l_productBits s" "0 < vli_val m"
  shows "modMult_inv q m (modMult_step s)"
proof -
  obtain p mm k where s: "s = \<lparr>l_product = p, l_modMultiple = mm, l_productBits = k\<rparr>" by (cases s)
  have I: "is_wide p" "is_wide mm" "vli_val p mod vli_val m = q mod vli_val m"
    "vli_val mm = 2 ^ (k - 256) * vli_val m" "vli_val p < 2 * vli_val mm" "256 \<le> k"
    using assms(1,3) by (simp_all add: modMult_inv_def s)
  define p' where "p' = (if wide_fits mm p then wide_sub p mm else p)"
  have p': "is_wide p'" "vli_val p' = (if vli_val mm \<le> vli_val p then vli_val p - vli_val mm else vli_val p)"
    using wide_sub_val [OF I(1,2)] I(1) wide_fits_val [OF I(2,1)] by (simp_all add: p'_def)
  have less: "vli_val p' < vli_val mm" using I(5) by (auto simp: p'(2))
  have "(vli_val p - vli_val mm) mod vli_val m = vli_val p mod vli_val m" if "vli_val mm \<le> vli_val p"
  proof -
    have "vli_val p = (vli_val p - vli_val mm) + 2 ^ (k - 256) * vli_val m"
      using that I(4) by simp
    then show ?thesis by (metis mod_mult_self1 mult.commute)
  qed
  then have cong: "vli_val p' mod vli_val m = q mod vli_val m" using I(3) by (simp add: p'(2))
  note half = wide_rshift1_val [OF I(2)]
  have e: "modMult_step s = \<lparr>l_product = p', l_modMultiple = wide_rshift1 mm, l_productBits = k - 1\<rparr>"
    by (simp add: modMult_step_def s p'_def)
  show ?thesis
  proof (cases "k = 256")
    case True
    then have "vli_val mm = vli_val m" using I(4) by simp
    then show ?thesis using True p'(1) cong less half assms(4)
      unfolding modMult_inv_def e by simp
  next
    case False
    have "k - 256 = Suc (k - 1 - 256)" using False I(6) by simp
    then have "vli_val mm = 2 * (2 ^ (k - 1 - 256) * vli_val m)" unfolding I(4) by simp
    then show ?thesis using False I(6) p'(1) cong less half
      unfolding modMult_inv_def e by simp
  qed
qed

lemma modMult_loop:
  assumes "modMult_inv q m s" "is_vli m" "0 < vli_val m"
  shows "\<exists>t. while_option (modMult_more m) modMult_step s = Some t \<and> modMult_inv q m t \<and>
             l_productBits t < 256"
proof -
  have step: "modMult_inv q m (modMult_step s) \<and> l_productBits (modMult_step s) < l_productBits s"
    if "modMult_inv q m s" "modMult_more m s" for s
    using modMult_step_inv [OF that(1) assms(2) _ assms(3)] modMult_more_iff [OF that(1) assms(2)] that(2)
    by (auto simp: modMult_step_def)
  have "\<exists>t. while_option (modMult_more m) modMult_step s = Some t"
    by (rule measure_while_option_Some [where P = "modMult_inv q m" and f = l_productBits])
      (erule (1) step, rule assms(1))
  then obtain t where t: "while_option (modMult_more m) modMult_step s = Some t" ..
  have I: "modMult_inv q m t"
    by (rule while_option_rule [of "modMult_inv q m", OF _ t assms(1)]) (use step in blast)
  then show ?thesis using t while_option_stop [OF t] modMult_more_iff [OF I assms(2)] by auto
qed

lemma vli_modMult_val:
  assumes "is_vli x" "is_vli y" "is_vli m" "2 ^ 255 \<le> vli_val m"
  shows "is_vli (vli_modMult x y m)" "vli_val (vli_modMult x y m) = (vli_val x * vli_val y) mod vli_val m"
proof -
  let ?p = "vli_mult x y" and ?v = "vli_val x * vli_val y"
  have m: "vli_numBits m = 256"
  proof -
    have "\<not> vli_numBits m \<le> 255"
    proof
      assume "vli_numBits m \<le> 255"
      then have "(2 :: nat) ^ vli_numBits m \<le> 2 ^ 255" by (intro power_increasing) simp_all
      then show False using vli_numBits_bounds(1) [OF assms(3)] assms(4) by linarith
    qed
    then show ?thesis using vli_numBits_bounds(4) [OF assms(3)] by simp
  qed
  have w: "is_wide ?p" by (simp add: is_wide_def length_vli_mult)
  have v: "vli_val ?p = ?v" by (rule vli_mult_val [OF assms(1,2)])
  note bits = wide_numBits_bounds [OF w]
  let ?b = "wide_numBits ?p"
  have lo: "is_vli (vli_set p)" "vli_set p = wide_lo p" if "is_wide p" for p
    using that by (simp_all add: is_wide_def is_vli_def vli_set_def wide_lo_def)
  have "is_vli (vli_modMult x y m) \<and> vli_val (vli_modMult x y m) = ?v mod vli_val m"
  proof (cases "?b < 256")
    case True
    then have "(2 :: nat) ^ ?b \<le> 2 ^ 255" by (intro power_increasing) simp_all
    then have small: "?v < vli_val m" using bits(1) v assms(4) by linarith
    then have "vli_val (vli_set ?p) = ?v"
      using wide_lo_small [OF w] vli_val_bound [OF assms(3)] by (simp add: lo(2) [OF w] v)
    then show ?thesis using True m lo(1) [OF w] small by (simp add: vli_modMult_def)
  next
    case False
    let ?s = "\<lparr>l_product = ?p, l_modMultiple = modMult_multiple m (?b - 256), l_productBits = ?b\<rparr>"
    have le: "?b - 256 \<le> 256" using bits(2) by simp
    note mm = modMult_multiple_val [OF assms(3) le]
    have "vli_val ?p < 2 ^ Suc (?b - 256 + 255)" using bits(1) False by simp
    also have "\<dots> = 2 * (2 ^ (?b - 256) * 2 ^ 255)" by (simp only: power_add power_Suc)
    also have "\<dots> \<le> 2 * vli_val (modMult_multiple m (?b - 256))"
      unfolding mm(2) using assms(4) by (intro mult_le_mono) simp_all
    finally have "modMult_inv ?v m ?s" using False w mm v by (simp add: modMult_inv_def)
    then obtain t where t: "while_option (modMult_more m) modMult_step ?s = Some t"
      "modMult_inv ?v m t" "l_productBits t < 256"
      using modMult_loop assms(3,4) by fastforce
    then have wt: "is_wide (l_product t)" "vli_val (l_product t) < vli_val m"
      "vli_val (l_product t) mod vli_val m = ?v mod vli_val m"
      by (simp_all add: modMult_inv_def)
    have e: "vli_modMult x y m = vli_set (l_product t)"
      using False m t(1) by (simp add: vli_modMult_def while_def)
    have "vli_val (vli_set (l_product t)) = vli_val (l_product t)"
      using wide_lo_small [OF wt(1)] wt(2) vli_val_bound [OF assms(3)] by (simp add: lo(2) [OF wt(1)])
    then show ?thesis using lo(1) [OF wt(1)] wt(2,3) by (simp add: e)
  qed
  then show "is_vli (vli_modMult x y m)" "vli_val (vli_modMult x y m) = ?v mod vli_val m" by blast+
qed

text \<open>
  Multiplication modulo a 256-bit modulus by shift and subtract: for every pair of
  operands, reduced or not, the loop ends and the result is the product modulo \<open>p_mod\<close>;
  the shifted modulus never leaves its eight digits.
\<close>

theorem vli_modMult_residue:
  assumes "is_vli x" "is_vli y" "is_vli m" "2 ^ 255 \<le> vli_val m"
  shows "is_vli (vli_modMult x y m) \<and>
         vli_val (vli_modMult x y m) = (vli_val x * vli_val y) mod vli_val m \<and>
         (\<forall>s \<le> 256. is_wide (modMult_multiple m s) \<and>
            vli_val (modMult_multiple m s) = 2 ^ s * vli_val m)"
  using vli_modMult_val [OF assms] modMult_multiple_val [OF assms(3)] by blast

theorem vli_modMult_residue_witness:
  "vli_val (vli_modMult [0, 0, 0, 1] [0, 0, 0, 1] curve_n) = 2 ^ 384 mod N256"
  using vli_modMult_residue [of "[0, 0, 0, 1]" "[0, 0, 0, 1]" curve_n] N256_bounds(1)
  by (simp add: is_vli_curve curve_n_val) (simp add: is_vli_def)

end
