(* ===== verification/Ecc_Field.thy ===== *)
theory Ecc_Field
  imports Vli_ModMult
begin

text \<open>
  The field of the curve as a type: the residues modulo the field prime with their ring
  operations, the reading of a digit array as a residue, and the interface through which
  the point formulas use the modular operations.
\<close>

subsection \<open>Residues modulo the prime\<close>

typedef fp = "{0 ..< int P256}"
  morphisms fp_rep Fp
proof
  show "0 \<in> {0 ..< int P256}" by simp
qed

setup_lifting type_definition_fp

instantiation fp :: comm_ring_1
begin

lift_definition zero_fp :: fp is 0 by simp
lift_definition one_fp :: fp is 1 by (simp add: P256_def)
lift_definition plus_fp :: "fp \<Rightarrow> fp \<Rightarrow> fp" is "\<lambda>x y. (x + y) mod int P256" by simp
lift_definition uminus_fp :: "fp \<Rightarrow> fp" is "\<lambda>x. (- x) mod int P256" by simp
lift_definition minus_fp :: "fp \<Rightarrow> fp \<Rightarrow> fp" is "\<lambda>x y. (x - y) mod int P256" by simp
lift_definition times_fp :: "fp \<Rightarrow> fp \<Rightarrow> fp" is "\<lambda>x y. (x * y) mod int P256" by simp

instance
proof
  fix x y z :: fp
  show "x + y + z = x + (y + z)" by transfer (simp add: mod_simps add.assoc)
  show "x + y = y + x" by transfer (simp add: add.commute)
  show "0 + x = x" by transfer simp
  show "- x + x = 0" by transfer (simp add: mod_simps)
  show "x - y = x + - y" by transfer (simp add: mod_simps)
  show "x * y * z = x * (y * z)" by transfer (simp add: mod_simps mult.assoc)
  show "x * y = y * x" by transfer (simp add: mult.commute)
  show "1 * x = x" by transfer simp
  show "(x + y) * z = x * z + y * z" by transfer (simp add: mod_simps distrib_right)
  show "(0 :: fp) \<noteq> 1" by transfer simp
qed

end

instantiation fp :: equal
begin

definition "equal_fp x y \<longleftrightarrow> fp_rep x = fp_rep y"

instance by standard (simp add: equal_fp_def fp_rep_inject)

end

lemma fp_rep_of_nat: "fp_rep (of_nat n) = int n mod int P256"
proof (induction n)
  case 0
  then show ?case by (simp add: zero_fp.rep_eq)
next
  case (Suc n)
  then show ?case by (simp add: plus_fp.rep_eq one_fp.rep_eq mod_simps)
qed

lemma fp_of_nat_eq: "(of_nat m :: fp) = of_nat n \<longleftrightarrow> m mod P256 = n mod P256"
proof -
  have "(of_nat m :: fp) = of_nat n \<longleftrightarrow> int m mod int P256 = int n mod int P256"
    by (simp only: fp_rep_inject [symmetric] fp_rep_of_nat)
  also have "\<dots> \<longleftrightarrow> m mod P256 = n mod P256" by (simp only: of_nat_mod [symmetric] of_nat_eq_iff)
  finally show ?thesis .
qed

lemma fp_of_nat_mod [simp]: "(of_nat (n mod P256) :: fp) = of_nat n"
  by (simp add: fp_of_nat_eq)

lemma fp_of_nat_P256 [simp]: "(of_nat P256 :: fp) = 0"
  using fp_of_nat_eq [of P256 0] by simp

lemma fp_of_nat_0_iff: "(of_nat n :: fp) = 0 \<longleftrightarrow> P256 dvd n"
  using fp_of_nat_eq [of n 0] by (simp add: mod_eq_0_iff_dvd)

lemma fp_numeral_eq:
  "(numeral m :: fp) = numeral n \<longleftrightarrow> (numeral m :: nat) mod P256 = numeral n mod P256"
  "(numeral m :: fp) = 1 \<longleftrightarrow> (numeral m :: nat) mod P256 = 1 mod P256"
  using fp_of_nat_eq [of "numeral m" "numeral n"] fp_of_nat_eq [of "numeral m" 1] by simp_all

text \<open>Two is invertible, so halving is well defined.\<close>

lemma fp_two_cancel:
  fixes x y :: fp
  assumes "2 * x = 2 * y"
  shows "x = y"
proof -
  have "(of_nat ((P256 + 1) div 2 * 2) :: fp) = of_nat (P256 + 1)"
    by (simp add: P256_def)
  then have half: "of_nat ((P256 + 1) div 2) * 2 = (1 :: fp)"
    by (simp only: of_nat_mult of_nat_add fp_of_nat_P256) simp
  have "of_nat ((P256 + 1) div 2) * (2 * x) = (of_nat ((P256 + 1) div 2) * (2 * y) :: fp)"
    by (simp only: assms)
  then show ?thesis using half by (simp only: mult.assoc [symmetric] mult_1_left)
qed

subsection \<open>Digit arrays as residues\<close>

definition is_fe :: "vli \<Rightarrow> bool" where
  "is_fe x \<longleftrightarrow> is_vli x \<and> vli_val x < P256"

definition fval :: "vli \<Rightarrow> fp" where
  "fval x = of_nat (vli_val x)"

lemma is_fe_vli: "is_fe x \<Longrightarrow> is_vli x"
  by (simp add: is_fe_def)

lemma fval_inj:
  assumes "is_fe x" "is_fe y"
  shows "fval x = fval y \<longleftrightarrow> x = y"
  using assms vli_val_inj [of x y] by (simp add: fval_def fp_of_nat_eq is_fe_def)

lemma fval_0_iff:
  assumes "is_fe x"
  shows "fval x = 0 \<longleftrightarrow> vli_isZero x"
  using assms by (simp add: fval_def fp_of_nat_0_iff is_fe_def vli_isZero_val)
    (metis dvd_0_right dvd_imp_le not_le not_gr_zero)

text \<open>
  What the point formulas use: operations that stay inside the reduced digit arrays and
  are homomorphic to the ring operations of the residues.
\<close>

locale field_ops =
  fixes ok :: "'a \<Rightarrow> bool" and val :: "'a \<Rightarrow> 'f::comm_ring_1"
    and add sub mult :: "'a \<Rightarrow> 'a \<Rightarrow> 'a" and square :: "'a \<Rightarrow> 'a"
  assumes add_ok: "ok x \<Longrightarrow> ok y \<Longrightarrow> ok (add x y)"
    and sub_ok: "ok x \<Longrightarrow> ok y \<Longrightarrow> ok (sub x y)"
    and mult_ok: "ok x \<Longrightarrow> ok y \<Longrightarrow> ok (mult x y)"
    and square_ok: "ok x \<Longrightarrow> ok (square x)"
    and add_val: "ok x \<Longrightarrow> ok y \<Longrightarrow> val (add x y) = val x + val y"
    and sub_val: "ok x \<Longrightarrow> ok y \<Longrightarrow> val (sub x y) = val x - val y"
    and mult_val: "ok x \<Longrightarrow> ok y \<Longrightarrow> val (mult x y) = val x * val y"
    and square_val: "ok x \<Longrightarrow> val (square x) = val x * val x"
    and val_inj: "ok x \<Longrightarrow> ok y \<Longrightarrow> val x = val y \<Longrightarrow> x = y"
begin

lemmas op_ok = add_ok sub_ok mult_ok square_ok
lemmas op_val = add_val sub_val mult_val square_val

lemma square_mult: "ok x \<Longrightarrow> square x = mult x x"
  by (rule val_inj) (simp_all add: op_ok op_val)

lemma mult_commute: "ok x \<Longrightarrow> ok y \<Longrightarrow> mult x y = mult y x"
  by (rule val_inj) (simp_all add: op_ok op_val mult.commute)

lemma mult_assoc: "ok x \<Longrightarrow> ok y \<Longrightarrow> ok z \<Longrightarrow> mult (mult x y) z = mult x (mult y z)"
  by (rule val_inj) (simp_all add: op_ok op_val mult.assoc)

lemma sub_add_cancel: "ok x \<Longrightarrow> ok y \<Longrightarrow> add (sub x y) y = x"
  by (rule val_inj) (simp_all add: op_ok op_val)

lemma cube_val: "ok x \<Longrightarrow> val (mult (square x) x) = val x ^ 3"
  by (simp add: op_ok op_val power3_eq_cube)

end

lemma is_fe_curve_p_ops:
  assumes "is_fe x" "is_fe y"
  shows "is_fe (vli_modAdd x y curve_p)" "is_fe (vli_modSub x y curve_p)"
    "is_fe (vli_modMult_fast x y)" "is_fe (vli_modSquare_fast x)"
  using assms vli_modAdd_val [of x y curve_p] vli_modSub_val [of x y curve_p]
    vli_modMult_fast_val [of x y] vli_modSquare_fast_val [of x]
  by (simp_all add: is_fe_def len_simps val_simps)

lemma vli_modMult_fast_fval: "is_vli x \<Longrightarrow> is_vli y \<Longrightarrow> fval (vli_modMult_fast x y) = fval x * fval y"
  by (simp add: fval_def vli_modMult_fast_val)

lemma vli_modSquare_fast_fval: "is_vli x \<Longrightarrow> fval (vli_modSquare_fast x) = fval x * fval x"
  by (simp add: fval_def vli_modSquare_fast_val)

lemma vli_mod_fast_is_fe:
  "is_vli x \<Longrightarrow> is_vli y \<Longrightarrow> is_fe (vli_modMult_fast x y)"
  "is_vli x \<Longrightarrow> is_fe (vli_modSquare_fast x)"
  by (simp_all add: is_fe_def vli_modMult_fast_val vli_modSquare_fast_val)

interpretation fe: field_ops is_fe fval "\<lambda>x y. vli_modAdd x y curve_p"
  "\<lambda>x y. vli_modSub x y curve_p" vli_modMult_fast vli_modSquare_fast
proof
  fix x y
  assume x: "is_fe x"
  show "is_fe (vli_modSquare_fast x)" using is_fe_curve_p_ops x by blast
  show "fval (vli_modSquare_fast x) = fval x * fval x"
    using x by (simp add: vli_modSquare_fast_fval is_fe_vli)
  assume y: "is_fe y"
  show "is_fe (vli_modAdd x y curve_p)" "is_fe (vli_modSub x y curve_p)" "is_fe (vli_modMult_fast x y)"
    using is_fe_curve_p_ops x y by blast+
  show "fval (vli_modMult_fast x y) = fval x * fval y"
    using x y by (simp add: vli_modMult_fast_fval is_fe_vli)
  show "fval (vli_modAdd x y curve_p) = fval x + fval y"
    using x y by (simp add: fval_def is_fe_def vli_modAdd_val len_simps val_simps)
  have "(of_nat (P256 - vli_val y) :: fp) = - of_nat (vli_val y)"
    using y by (simp add: is_fe_def)
  then show "fval (vli_modSub x y curve_p) = fval x - fval y"
    using x y by (simp add: fval_def is_fe_def vli_modSub_val len_simps val_simps)
  show "fval x = fval y \<Longrightarrow> x = y" using fval_inj x y by blast
qed

lemma vli_modInv_fval:
  assumes "is_vli x" "coprime (vli_val x) P256"
  shows "is_fe (vli_modInv x curve_p)" "fval (vli_modInv x curve_p) * fval x = 1"
proof -
  have m: "odd (vli_val curve_p)" "1 < vli_val curve_p" by (simp_all add: curve_p_val P256_def)
  note inv = vli_modInv_val [OF assms(1) is_vli_curve(1) m]
  show "is_fe (vli_modInv x curve_p)" using inv by (simp add: is_fe_def val_simps)
  have "vli_val x \<noteq> 0"
    using assms(2) by (cases "vli_val x = 0") (simp_all add: P256_def)
  then have "int P256 dvd int (vli_val (vli_modInv x curve_p) * vli_val x) - int 1"
    using inv(3) assms(2) by (simp add: curve_p_val coprime_iff_gcd_eq_1)
  then have "(vli_val (vli_modInv x curve_p) * vli_val x) mod P256 = 1 mod P256"
    by (simp only: mod_eq_dvd_iff [symmetric] of_nat_mod [symmetric] of_nat_eq_iff)
  then have "(of_nat (vli_val (vli_modInv x curve_p) * vli_val x) :: fp) = of_nat 1"
    by (simp only: fp_of_nat_eq)
  then show "fval (vli_modInv x curve_p) * fval x = 1" by (simp add: fval_def)
qed

text \<open>Units of the residues are the numbers coprime to the prime.\<close>

lemma fp_unit_coprime:
  assumes "(of_nat n :: fp) * w = 1"
  shows "coprime n P256"
proof -
  have "fp_rep (of_nat (nat (fp_rep w))) = fp_rep w"
    unfolding fp_rep_of_nat using fp_rep [of w] by simp
  then have "of_nat (nat (fp_rep w)) = w" by (simp only: fp_rep_inject)
  then have "(of_nat (n * nat (fp_rep w)) :: fp) = of_nat 1" using assms by simp
  then have "(n * nat (fp_rep w)) mod P256 = 1 mod P256" by (simp only: fp_of_nat_eq)
  then have one: "(n * nat (fp_rep w)) mod P256 = 1" by (simp add: P256_def)
  show ?thesis
  proof (rule coprimeI)
    fix c
    assume c: "c dvd n" "c dvd P256"
    then have "c dvd (n * nat (fp_rep w)) mod P256" by (simp add: dvd_mod)
    then show "is_unit c" by (simp add: one)
  qed
qed

end
