(* ===== verification/Ecc_Point.thy ===== *)
theory Ecc_Point
  imports Ecc_Field
begin

text \<open>
  Point operations of bryllite-core/secp256r1.cpp (lines 668-940): Jacobian doubling,
  the co-Z additions, the Montgomery ladder, the byte encoding, the square
  root and the decompression of a point, with what the formulas compute in affine coordinates.
\<close>

subsection \<open>The operations\<close>

record EccPoint =
  pt_x :: vli
  pt_y :: vli

definition curve_G :: EccPoint where
  "curve_G =
     \<lparr>pt_x = [0xF4A13945D898C296, 0x77037D812DEB33A0, 0xF8BCE6E563A440F2, 0x6B17D1F2E12C4247],
      pt_y = [0xCBB6406837BF51F5, 0x2BCE33576B315ECE, 0x8EE7EB4A7C0F9E16, 0x4FE342E2FE1A7F9B]\<rparr>"

definition EccPoint_isZero :: "EccPoint \<Rightarrow> bool" where
  "EccPoint_isZero p_point \<longleftrightarrow> vli_isZero (pt_x p_point) \<and> vli_isZero (pt_y p_point)"

text \<open>Halving modulo the prime, the branch on the low bit in \<open>EccPoint_double_jacobian\<close>.\<close>

definition half_mod_p :: "vli \<Rightarrow> vli" where
  "half_mod_p X1 =
     (if vli_testBit X1 0 \<noteq> 0 then
        let (X1, l_carry) = vli_add X1 curve_p;
            X1 = vli_rshift1 X1
        in X1[NUM_ECC_DIGITS - 1 := X1 ! (NUM_ECC_DIGITS - 1) OR push_bit 63 l_carry]
      else vli_rshift1 X1)"

definition EccPoint_double_jacobian :: "vli \<times> vli \<times> vli \<Rightarrow> vli \<times> vli \<times> vli" where
  "EccPoint_double_jacobian = (\<lambda>(X1, Y1, Z1).
     if vli_isZero Z1 then (X1, Y1, Z1)
     else
       let t4 = vli_modSquare_fast Y1;
           t5 = vli_modMult_fast X1 t4;
           t4 = vli_modSquare_fast t4;
           Y1 = vli_modMult_fast Y1 Z1;
           Z1 = vli_modSquare_fast Z1;
           X1 = vli_modAdd X1 Z1 curve_p;
           Z1 = vli_modAdd Z1 Z1 curve_p;
           Z1 = vli_modSub X1 Z1 curve_p;
           X1 = vli_modMult_fast X1 Z1;
           Z1 = vli_modAdd X1 X1 curve_p;
           X1 = vli_modAdd X1 Z1 curve_p;
           X1 = half_mod_p X1;
           Z1 = vli_modSquare_fast X1;
           Z1 = vli_modSub Z1 t5 curve_p;
           Z1 = vli_modSub Z1 t5 curve_p;
           t5 = vli_modSub t5 Z1 curve_p;
           X1 = vli_modMult_fast X1 t5;
           t4 = vli_modSub X1 t4 curve_p
       in (vli_set Z1, vli_set t4, vli_set Y1))"

definition apply_z :: "vli \<times> vli \<Rightarrow> vli \<Rightarrow> vli \<times> vli" where
  "apply_z = (\<lambda>(X1, Y1) Z.
     let t1 = vli_modSquare_fast Z;
         X1 = vli_modMult_fast X1 t1;
         t1 = vli_modMult_fast t1 Z;
         Y1 = vli_modMult_fast Y1 t1
     in (X1, Y1))"

text \<open>The two points the code updates in place are returned in the order of the arguments.\<close>

definition XYcZ_initial_double :: "vli \<times> vli \<Rightarrow> vli option \<Rightarrow> (vli \<times> vli) \<times> (vli \<times> vli)" where
  "XYcZ_initial_double = (\<lambda>(X1, Y1) p_initialZ.
     let (X2, Y2) = (vli_set X1, vli_set Y1);
         z = vli_clear[0 := 1];
         z = (case p_initialZ of None \<Rightarrow> z | Some iz \<Rightarrow> vli_set iz);
         (X1, Y1) = apply_z (X1, Y1) z;
         (X1, Y1, z) = EccPoint_double_jacobian (X1, Y1, z);
         (X2, Y2) = apply_z (X2, Y2) z
     in ((X1, Y1), (X2, Y2)))"

definition XYcZ_add :: "vli \<times> vli \<Rightarrow> vli \<times> vli \<Rightarrow> (vli \<times> vli) \<times> (vli \<times> vli)" where
  "XYcZ_add = (\<lambda>(X1, Y1) (X2, Y2).
     let t5 = vli_modSub X2 X1 curve_p;
         t5 = vli_modSquare_fast t5;
         X1 = vli_modMult_fast X1 t5;
         X2 = vli_modMult_fast X2 t5;
         Y2 = vli_modSub Y2 Y1 curve_p;
         t5 = vli_modSquare_fast Y2;
         t5 = vli_modSub t5 X1 curve_p;
         t5 = vli_modSub t5 X2 curve_p;
         X2 = vli_modSub X2 X1 curve_p;
         Y1 = vli_modMult_fast Y1 X2;
         X2 = vli_modSub X1 t5 curve_p;
         Y2 = vli_modMult_fast Y2 X2;
         Y2 = vli_modSub Y2 Y1 curve_p;
         X2 = vli_set t5
     in ((X1, Y1), (X2, Y2)))"

definition XYcZ_addC :: "vli \<times> vli \<Rightarrow> vli \<times> vli \<Rightarrow> (vli \<times> vli) \<times> (vli \<times> vli)" where
  "XYcZ_addC = (\<lambda>(X1, Y1) (X2, Y2).
     let t5 = vli_modSub X2 X1 curve_p;
         t5 = vli_modSquare_fast t5;
         X1 = vli_modMult_fast X1 t5;
         X2 = vli_modMult_fast X2 t5;
         t5 = vli_modAdd Y2 Y1 curve_p;
         Y2 = vli_modSub Y2 Y1 curve_p;
         t6 = vli_modSub X2 X1 curve_p;
         Y1 = vli_modMult_fast Y1 t6;
         t6 = vli_modAdd X1 X2 curve_p;
         X2 = vli_modSquare_fast Y2;
         X2 = vli_modSub X2 t6 curve_p;
         t7 = vli_modSub X1 X2 curve_p;
         Y2 = vli_modMult_fast Y2 t7;
         Y2 = vli_modSub Y2 Y1 curve_p;
         t7 = vli_modSquare_fast t5;
         t7 = vli_modSub t7 t6 curve_p;
         t6 = vli_modSub t7 X1 curve_p;
         t6 = vli_modMult_fast t6 t5;
         Y1 = vli_modSub t6 Y1 curve_p;
         X1 = vli_set t7
     in ((X1, Y1), (X2, Y2)))"

text \<open>
  The ladder. The pair \<open>(R0, R1)\<close> stands for the arrays \<open>Rx\<close> and \<open>Ry\<close>; \<open>nb\<close> is the
  negated scalar bit, and the branch exchanges the roles of the two points.
\<close>

type_synonym ladder = "(vli \<times> vli) \<times> (vli \<times> vli)"

definition scalar_nb :: "vli \<Rightarrow> nat \<Rightarrow> bool" where
  "scalar_nb p_scalar i \<longleftrightarrow> vli_testBit p_scalar i = 0"

definition ladder_addC :: "bool \<Rightarrow> ladder \<Rightarrow> ladder" where
  "ladder_addC nb = (\<lambda>(R0, R1).
     if nb then XYcZ_addC R0 R1
     else let (R1, R0) = XYcZ_addC R1 R0 in (R0, R1))"

definition ladder_add :: "bool \<Rightarrow> ladder \<Rightarrow> ladder" where
  "ladder_add nb = (\<lambda>(R0, R1).
     if nb then let (R1, R0) = XYcZ_add R1 R0 in (R0, R1)
     else XYcZ_add R0 R1)"

text \<open>The scalar bits the loop visits: from \<open>numBits - 2\<close> down to 1.\<close>

definition ladder_bits :: "vli \<Rightarrow> nat list" where
  "ladder_bits p_scalar = rev [1..<vli_numBits p_scalar - 1]"

definition ladder_loop :: "vli \<Rightarrow> nat list \<Rightarrow> ladder \<Rightarrow> ladder" where
  "ladder_loop p_scalar is R =
     foldl (\<lambda>R i. let nb = scalar_nb p_scalar i in ladder_add nb (ladder_addC nb R)) R is"

definition ladder_z :: "EccPoint \<Rightarrow> bool \<Rightarrow> ladder \<Rightarrow> vli" where
  "ladder_z p_point nb = (\<lambda>(R0, R1).
     let Rb = (if nb then R0 else R1);
         z = vli_modSub (fst R1) (fst R0) curve_p;
         z = vli_modMult_fast z (snd Rb);
         z = vli_modMult_fast z (pt_x p_point);
         z = vli_modInv z curve_p;
         z = vli_modMult_fast z (pt_y p_point);
         z = vli_modMult_fast z (fst Rb)
     in z)"

definition EccPoint_mult :: "EccPoint \<Rightarrow> vli \<Rightarrow> vli option \<Rightarrow> EccPoint" where
  "EccPoint_mult p_point p_scalar p_initialZ =
     (let (R1, R0) = XYcZ_initial_double (vli_set (pt_x p_point), vli_set (pt_y p_point)) p_initialZ;
          R = ladder_loop p_scalar (ladder_bits p_scalar) (R0, R1);
          nb = scalar_nb p_scalar 0;
          R = ladder_addC nb R;
          z = ladder_z p_point nb R;
          (R0, R1) = ladder_add nb R;
          (x, y) = apply_z R0 z
      in \<lparr>pt_x = vli_set x, pt_y = vli_set y\<rparr>)"

subsection \<open>Bytes, square root and decompression\<close>

definition digit_of_bytes :: "u8 list \<Rightarrow> u64" where
  "digit_of_bytes p_digit =
     push_bit 56 (ucast (p_digit ! 0)) OR push_bit 48 (ucast (p_digit ! 1)) OR
     push_bit 40 (ucast (p_digit ! 2)) OR push_bit 32 (ucast (p_digit ! 3)) OR
     push_bit 24 (ucast (p_digit ! 4)) OR push_bit 16 (ucast (p_digit ! 5)) OR
     push_bit 8 (ucast (p_digit ! 6)) OR ucast (p_digit ! 7)"

definition ecc_bytes2native :: "u8 list \<Rightarrow> vli" where
  "ecc_bytes2native p_bytes =
     map (\<lambda>i. digit_of_bytes (drop (8 * (NUM_ECC_DIGITS - 1 - i)) p_bytes)) [0..<NUM_ECC_DIGITS]"

definition bytes_of_digit :: "u64 \<Rightarrow> u8 list" where
  "bytes_of_digit d =
     [ucast (drop_bit 56 d), ucast (drop_bit 48 d), ucast (drop_bit 40 d), ucast (drop_bit 32 d),
      ucast (drop_bit 24 d), ucast (drop_bit 16 d), ucast (drop_bit 8 d), ucast d]"

text \<open>Digit \<open>i\<close> is written at offset \<open>8 * (NUM_ECC_DIGITS - 1 - i)\<close>: the last digit comes first.\<close>

definition ecc_native2bytes :: "vli \<Rightarrow> u8 list" where
  "ecc_native2bytes p_native = concat (map bytes_of_digit (rev (take NUM_ECC_DIGITS p_native)))"

definition mod_sqrt :: "vli \<Rightarrow> vli" where
  "mod_sqrt a =
     (let p1 = vli_clear[0 := 1];
          l_result = vli_clear[0 := 1];
          p1 = fst (vli_add curve_p p1)
      in vli_set (foldl (\<lambda>l_result i.
            let l_result = vli_modSquare_fast l_result
            in if vli_testBit p1 i \<noteq> 0 then vli_modMult_fast l_result a else l_result)
          l_result (rev [2..<vli_numBits p1])))"

definition ecc_point_decompress :: "u8 list \<Rightarrow> EccPoint" where
  "ecc_point_decompress p_compressed =
     (let three = vli_clear[0 := 3];
          x = ecc_bytes2native (drop 1 p_compressed);
          y = vli_modSquare_fast x;
          y = vli_modSub y three curve_p;
          y = vli_modMult_fast y x;
          y = vli_modAdd y curve_b curve_p;
          y = mod_sqrt y;
          y = (if (y ! 0 AND 1) \<noteq> ucast (p_compressed ! 0 AND 1) then fst (vli_sub curve_p y) else y)
      in \<lparr>pt_x = x, pt_y = y\<rparr>)"

subsection \<open>What the formulas compute\<close>

text \<open>
  A pair of coordinates \<open>(X, Y)\<close> with common \<open>Z\<close> coordinate \<open>z\<close> represents the affine point
  \<open>(x, y)\<close> when \<open>X = x z\<^sup>2\<close> and \<open>Y = y z\<^sup>3\<close>.
\<close>

definition coz :: "vli \<times> vli \<Rightarrow> fp \<Rightarrow> fp \<times> fp \<Rightarrow> bool" where
  "coz P z A \<longleftrightarrow> is_fe (fst P) \<and> is_fe (snd P) \<and>
     fval (fst P) = fst A * z ^ 2 \<and> fval (snd P) = snd A * z ^ 3"

text \<open>The third point on a chord or on a tangent of \<open>y\<^sup>2 = x\<^sup>3 - 3 x + b\<close>, reflected.\<close>

definition line_third :: "fp \<Rightarrow> fp \<times> fp \<Rightarrow> fp \<Rightarrow> fp \<times> fp" where
  "line_third l A x2 = (let x3 = l ^ 2 - fst A - x2 in (x3, l * (fst A - x3) - snd A))"

definition chord :: "fp \<times> fp \<Rightarrow> fp \<times> fp \<Rightarrow> fp \<times> fp \<Rightarrow> bool" where
  "chord A B C \<longleftrightarrow> (\<exists>l. l * (fst B - fst A) = snd B - snd A \<and> C = line_third l A (fst B))"

definition tangent :: "fp \<times> fp \<Rightarrow> fp \<times> fp \<Rightarrow> bool" where
  "tangent A C \<longleftrightarrow> (\<exists>l. l * (2 * snd A) = 3 * (fst A ^ 2 - 1) \<and> C = line_third l A (fst A))"

definition reflect :: "fp \<times> fp \<Rightarrow> fp \<times> fp" where
  "reflect A = (fst A, - snd A)"

lemma vli_set_fe [simp]: "is_fe x \<Longrightarrow> vli_set x = x"
  by (simp add: is_fe_vli)

lemmas fe_simps = fe.op_ok fe.op_val

lemma half_mod_p_fval:
  assumes "is_fe x"
  shows "is_fe (half_mod_p x)" "2 * fval (half_mod_p x) = fval x"
proof -
  have x: "is_vli x" "vli_val x < vli_val curve_p" using assms by (simp_all add: is_fe_def val_simps)
  have odd: "odd (vli_val curve_p)" by (simp add: curve_p_val P256_def)
  have bit: "vli_testBit x 0 \<noteq> 0 \<longleftrightarrow> \<not> vli_even x"
    by (simp add: vli_testBit_def vli_even_def)
  have e: "half_mod_p x = modInv_halve curve_p x"
  proof (cases "vli_even x")
    case True
    then show ?thesis using bit by (simp add: half_mod_p_def modInv_halve_def)
  next
    case False
    obtain y c where y: "vli_add x curve_p = (y, c)" by force
    have c: "unat c \<le> 1" using vli_add_val(3) [OF x(1) is_vli_curve(1)] by (simp add: y)
    have "half_mod_p x = (vli_rshift1 y)[NUM_ECC_DIGITS - 1 :=
        vli_rshift1 y ! (NUM_ECC_DIGITS - 1) OR push_bit 63 c]"
      using False bit by (simp only: half_mod_p_def y Let_def prod.case if_True simp_thms)
    moreover have "modInv_halve curve_p x = (if c \<noteq> 0
        then (vli_rshift1 y)[NUM_ECC_DIGITS - 1 := vli_rshift1 y ! (NUM_ECC_DIGITS - 1) OR 0x8000000000000000]
        else vli_rshift1 y)"
      using False by (simp only: modInv_halve_def y Let_def prod.case if_True simp_thms)
    ultimately show ?thesis by (cases rule: carry_cases [OF c]) simp_all
  qed
  note h = modInv_halve_val [OF x(1) is_vli_curve(1) x(2) odd]
  show "is_fe (half_mod_p x)"
    using h(1) modInv_halve_less [OF x(1) is_vli_curve(1) x(2) odd]
    by (simp add: e is_fe_def val_simps)
  have "2 * fval (half_mod_p x) = of_nat (2 * vli_val (modInv_halve curve_p x))"
    by (simp add: e fval_def)
  also have "\<dots> = fval x" unfolding h(2) by (simp add: fval_def curve_p_val)
  finally show "2 * fval (half_mod_p x) = fval x" .
qed

lemma apply_z_coz:
  assumes "coz P w A" "is_fe Z"
  shows "coz (apply_z P Z) (w * fval Z) A"
  using assms
  by (cases P) (simp add: coz_def apply_z_def Let_def fe_simps power2_eq_square power3_eq_cube ac_simps)

lemma XYcZ_add_coz:
  assumes "coz P z A" "coz Q z B" "chord A B C"
  shows "coz (fst (XYcZ_add P Q)) (z * (fval (fst Q) - fval (fst P))) A"
    and "coz (snd (XYcZ_add P Q)) (z * (fval (fst Q) - fval (fst P))) C"
proof -
  obtain X1 Y1 X2 Y2 where PQ: "P = (X1, Y1)" "Q = (X2, Y2)" by (cases P, cases Q)
  obtain x1 y1 x2 y2 where AB: "A = (x1, y1)" "B = (x2, y2)" by (cases A, cases B)
  obtain l where l0: "l * (x2 - x1) = y2 - y1" "C = line_third l A x2"
    using assms(3) by (auto simp: chord_def AB)
  have l: "y2 = y1 + l * (x2 - x1)" "C = line_third l A x2" using l0 by simp_all
  have ok: "is_fe X1" "is_fe Y1" "is_fe X2" "is_fe Y2"
    and v: "fval X1 = x1 * z ^ 2" "fval Y1 = y1 * z ^ 3" "fval X2 = x2 * z ^ 2" "fval Y2 = y2 * z ^ 3"
    using assms(1,2) by (simp_all add: coz_def PQ AB)
  show "coz (fst (XYcZ_add P Q)) (z * (fval (fst Q) - fval (fst P))) A"
    by (simp add: coz_def XYcZ_add_def PQ AB Let_def fe_simps ok v)
      (simp add: power2_eq_square power3_eq_cube algebra_simps)
  show "coz (snd (XYcZ_add P Q)) (z * (fval (fst Q) - fval (fst P))) C"
    by (simp add: coz_def XYcZ_add_def PQ AB Let_def fe_simps ok v l line_third_def)
      (simp add: power2_eq_square power3_eq_cube algebra_simps)
qed

lemma XYcZ_addC_coz:
  assumes "coz P z A" "coz Q z B" "chord A B C" "chord A (reflect B) D"
  shows "coz (fst (XYcZ_addC P Q)) (z * (fval (fst Q) - fval (fst P))) D"
    and "coz (snd (XYcZ_addC P Q)) (z * (fval (fst Q) - fval (fst P))) C"
proof -
  obtain X1 Y1 X2 Y2 where PQ: "P = (X1, Y1)" "Q = (X2, Y2)" by (cases P, cases Q)
  obtain x1 y1 x2 y2 where AB: "A = (x1, y1)" "B = (x2, y2)" by (cases A, cases B)
  obtain l where l0: "l * (x2 - x1) = y2 - y1" "C = line_third l A x2"
    using assms(3) by (auto simp: chord_def AB)
  have l: "y2 = y1 + l * (x2 - x1)" "C = line_third l A x2" using l0 by simp_all
  obtain k where k0: "k * (x2 - x1) = - y2 - y1" "D = line_third k A x2"
    using assms(4) by (auto simp: chord_def reflect_def AB)
  have k: "y2 = - y1 - k * (x2 - x1)" "D = line_third k A x2" using k0 by simp_all
  have ok: "is_fe X1" "is_fe Y1" "is_fe X2" "is_fe Y2"
    and v: "fval X1 = x1 * z ^ 2" "fval Y1 = y1 * z ^ 3" "fval X2 = x2 * z ^ 2" "fval Y2 = y2 * z ^ 3"
    using assms(1,2) by (simp_all add: coz_def PQ AB)
  show "coz (fst (XYcZ_addC P Q)) (z * (fval (fst Q) - fval (fst P))) D"
    by (simp add: coz_def XYcZ_addC_def PQ AB Let_def fe_simps ok v k line_third_def)
      (simp add: power2_eq_square power3_eq_cube algebra_simps)
  show "coz (snd (XYcZ_addC P Q)) (z * (fval (fst Q) - fval (fst P))) C"
    by (simp add: coz_def XYcZ_addC_def PQ AB Let_def fe_simps ok v l line_third_def)
      (simp add: power2_eq_square power3_eq_cube algebra_simps)
qed

text \<open>Doubling in place, for a point whose \<open>Z\<close> is not zero.\<close>

definition jacobian :: "vli \<times> vli \<times> vli \<Rightarrow> fp \<times> fp \<Rightarrow> bool" where
  "jacobian J A \<longleftrightarrow> (case J of (X, Y, Z) \<Rightarrow> is_fe Z \<and> coz (X, Y) (fval Z) A)"

lemma EccPoint_double_jacobian_affine:
  assumes "jacobian (X, Y, Z) A" "\<not> vli_isZero Z" "tangent A C"
  shows "jacobian (EccPoint_double_jacobian (X, Y, Z)) C"
    and "fval (snd (snd (EccPoint_double_jacobian (X, Y, Z)))) = fval Y * fval Z"
proof -
  obtain x y where A: "A = (x, y)" by (cases A)
  obtain l where l: "l * (2 * y) = 3 * (x ^ 2 - 1)" "C = line_third l A x"
    using assms(3) by (auto simp: tangent_def A)
  define z where "z = fval Z"
  have ok: "is_fe X" "is_fe Y" "is_fe Z"
    and v: "fval X = x * z ^ 2" "fval Y = y * z ^ 3" "fval Z = z"
    using assms(1) by (simp_all add: jacobian_def coz_def A z_def)
  define t4 where "t4 = vli_modSquare_fast Y"
  define t5 where "t5 = vli_modMult_fast X t4"
  define t4' where "t4' = vli_modSquare_fast t4"
  define Y' where "Y' = vli_modMult_fast Y Z"
  define Z2 where "Z2 = vli_modSquare_fast Z"
  define X2 where "X2 = vli_modAdd X Z2 curve_p"
  define Z3 where "Z3 = vli_modSub X2 (vli_modAdd Z2 Z2 curve_p) curve_p"
  define X3 where "X3 = vli_modMult_fast X2 Z3"
  define X4 where "X4 = vli_modAdd X3 (vli_modAdd X3 X3 curve_p) curve_p"
  define H where "H = half_mod_p X4"
  define Z4 where "Z4 = vli_modSub (vli_modSub (vli_modSquare_fast H) t5 curve_p) t5 curve_p"
  define Y3 where "Y3 = vli_modSub (vli_modMult_fast H (vli_modSub t5 Z4 curve_p)) t4' curve_p"
  have oks: "is_fe t4" "is_fe t5" "is_fe t4'" "is_fe Y'" "is_fe Z2" "is_fe X2" "is_fe Z3" "is_fe X3"
    "is_fe X4"
    by (simp_all add: t4_def t5_def t4'_def Y'_def Z2_def X2_def Z3_def X3_def X4_def fe_simps ok)
  have H: "is_fe H" "2 * fval H = fval X4" using half_mod_p_fval [OF oks(9)] by (simp_all add: H_def)
  have oks2: "is_fe Z4" "is_fe Y3" by (simp_all add: Z4_def Y3_def fe_simps ok oks H)
  have e: "EccPoint_double_jacobian (X, Y, Z) = (Z4, Y3, Y')"
    using assms(2) oks oks2
    by (simp add: EccPoint_double_jacobian_def Let_def t4_def t5_def t4'_def Y'_def Z2_def X2_def
        Z3_def X3_def X4_def H_def Z4_def Y3_def)
  have "fval X4 = 3 * (x ^ 2 - 1) * z ^ 4"
    by (simp add: X4_def X3_def Z3_def X2_def Z2_def fe_simps ok v)
      (simp add: power2_eq_square power4_eq_xxxx algebra_simps)
  also have "\<dots> = 2 * (l * (y * z ^ 4))"
    unfolding l(1) [symmetric] by (simp add: algebra_simps)
  finally have "fval H = l * (y * z ^ 4)" using H(2) fp_two_cancel by simp
  moreover have vY: "fval Y' = y * z ^ 4"
    by (simp add: Y'_def fe_simps ok v power3_eq_cube power4_eq_xxxx ac_simps)
  ultimately have vH: "fval H = l * fval Y'" by simp
  have vt5: "fval t5 = x * fval Y' ^ 2"
    unfolding vY by (simp add: t5_def t4_def fe_simps ok v power2_eq_square power3_eq_cube
        power4_eq_xxxx ac_simps)
  have vt4: "fval t4' = y * fval Y' ^ 3"
    unfolding vY by (simp add: t4'_def t4_def fe_simps ok v power3_eq_cube
        power4_eq_xxxx ac_simps)
  have vZ4: "fval Z4 = (l ^ 2 - x - x) * fval Y' ^ 2"
    by (simp add: Z4_def fe_simps oks H(1) vH vt5) (simp add: power2_eq_square algebra_simps)
  have vY3: "fval Y3 = (l * (x - (l ^ 2 - x - x)) - y) * fval Y' ^ 3"
    by (simp add: Y3_def fe_simps oks oks2 H(1) vH vt5 vt4 vZ4)
      (simp add: power2_eq_square power3_eq_cube algebra_simps)
  show "jacobian (EccPoint_double_jacobian (X, Y, Z)) C"
    by (simp add: jacobian_def coz_def e oks oks2 vZ4 vY3 l(2) line_third_def A)
  show "fval (snd (snd (EccPoint_double_jacobian (X, Y, Z)))) = fval Y * fval Z"
    by (simp add: e Y'_def fe_simps ok)
qed

lemma EccPoint_double_infinity: "vli_isZero Z \<Longrightarrow> EccPoint_double_jacobian (X, Y, Z) = (X, Y, Z)"
  by (simp add: EccPoint_double_jacobian_def)

subsection \<open>The ladder against its affine specification\<close>

text \<open>
  One step of the ladder on affine points: with \<open>a\<close> and \<open>b\<close> the points selected by the bit,
  it computes the sum \<open>S = a + b\<close>, the difference \<open>D = a - b\<close> and \<open>T = S + D\<close> by chords.
\<close>

definition aff_select :: "bool \<Rightarrow> 'p \<times> 'p \<Rightarrow> 'p \<times> 'p" where
  "aff_select nb R = (if nb then R else prod.swap R)"

definition aff_step :: "bool \<Rightarrow> (fp \<times> fp) \<times> (fp \<times> fp) \<Rightarrow> (fp \<times> fp) \<times> (fp \<times> fp) \<Rightarrow> bool" where
  "aff_step nb R R' \<longleftrightarrow>
     (\<exists>D S T. chord (fst (aff_select nb R)) (snd (aff_select nb R)) S \<and>
        chord (fst (aff_select nb R)) (reflect (snd (aff_select nb R))) D \<and>
        chord S D T \<and> aff_select nb R' = (T, S))"

inductive aff_ladder :: "bool list \<Rightarrow> (fp \<times> fp) \<times> (fp \<times> fp) \<Rightarrow> (fp \<times> fp) \<times> (fp \<times> fp) \<Rightarrow> bool" where
  aff_done: "aff_ladder [] R R"
| aff_more: "aff_step nb R R' \<Longrightarrow> aff_ladder nbs R' R'' \<Longrightarrow> aff_ladder (nb # nbs) R R''"

inductive_cases aff_ladder_NilE: "aff_ladder [] R R'"
inductive_cases aff_ladder_ConsE: "aff_ladder (nb # nbs) R R'"

definition coz2 :: "ladder \<Rightarrow> fp \<Rightarrow> (fp \<times> fp) \<times> (fp \<times> fp) \<Rightarrow> bool" where
  "coz2 R z A \<longleftrightarrow> coz (fst R) z (fst A) \<and> coz (snd R) z (snd A)"

lemma coz2_select: "coz2 (aff_select nb R) z (aff_select nb A) \<longleftrightarrow> coz2 R z A"
  by (auto simp: coz2_def aff_select_def)

lemma ladder_addC_select:
  "aff_select nb (ladder_addC nb R)
   = XYcZ_addC (fst (aff_select nb R)) (snd (aff_select nb R))"
  by (cases R) (simp add: aff_select_def ladder_addC_def split_def Let_def prod.swap_def)

lemma ladder_add_select:
  "aff_select nb (ladder_add nb R)
   = prod.swap (XYcZ_add (snd (aff_select nb R)) (fst (aff_select nb R)))"
  by (cases R) (simp add: aff_select_def ladder_add_def split_def Let_def prod.swap_def)

lemma ladder_addC_coz2:
  assumes "coz2 R z A" "chord (fst (aff_select nb A)) (snd (aff_select nb A)) S"
    and "chord (fst (aff_select nb A)) (reflect (snd (aff_select nb A))) D"
  shows "coz2 (aff_select nb (ladder_addC nb R))
           (z * (fval (fst (snd (aff_select nb R))) - fval (fst (fst (aff_select nb R))))) (D, S)"
proof -
  have "coz (fst (aff_select nb R)) z (fst (aff_select nb A))"
    "coz (snd (aff_select nb R)) z (snd (aff_select nb A))"
    using assms(1) coz2_select [of nb R z A] by (simp_all add: coz2_def)
  from XYcZ_addC_coz [OF this assms(2,3)] show ?thesis
    unfolding ladder_addC_select by (simp add: coz2_def)
qed

lemma ladder_add_coz2:
  assumes "coz2 (aff_select nb R) z (D, S)" "chord S D T"
  shows "coz2 (aff_select nb (ladder_add nb R))
           (z * (fval (fst (fst (aff_select nb R))) - fval (fst (snd (aff_select nb R))))) (T, S)"
proof -
  have "coz (snd (aff_select nb R)) z S" "coz (fst (aff_select nb R)) z D"
    using assms(1) by (simp_all add: coz2_def)
  from XYcZ_add_coz [OF this assms(2)] show ?thesis
    unfolding ladder_add_select by (simp add: coz2_def)
qed

lemma ladder_step_coz2:
  assumes "coz2 R z A" "aff_step nb A A'"
  shows "\<exists>z'. coz2 (ladder_add nb (ladder_addC nb R)) z' A'"
proof -
  obtain D S T where st: "chord (fst (aff_select nb A)) (snd (aff_select nb A)) S"
    "chord (fst (aff_select nb A)) (reflect (snd (aff_select nb A))) D" "chord S D T"
    "aff_select nb A' = (T, S)"
    using assms(2) by (auto simp: aff_step_def)
  obtain z' where "coz2 (aff_select nb (ladder_addC nb R)) z' (D, S)"
    using ladder_addC_coz2 [OF assms(1) st(1,2)] by blast
  from ladder_add_coz2 [OF this st(3)] show ?thesis
    unfolding st(4) [symmetric] coz2_select by blast
qed

lemma ladder_loop_coz2:
  assumes "coz2 R z A" "aff_ladder (map (scalar_nb k) is) A B"
  shows "\<exists>z'. coz2 (ladder_loop k is R) z' B"
  using assms
proof (induction "is" arbitrary: R z A)
  case Nil
  then show ?case by (auto simp: ladder_loop_def elim: aff_ladder_NilE)
next
  case (Cons i "is")
  from Cons.prems(2) obtain A' where A': "aff_step (scalar_nb k i) A A'"
    "aff_ladder (map (scalar_nb k) is) A' B"
    by (auto elim: aff_ladder_ConsE)
  obtain z' where z': "coz2 (ladder_add (scalar_nb k i) (ladder_addC (scalar_nb k i) R)) z' A'"
    using ladder_step_coz2 [OF Cons.prems(1) A'(1)] by blast
  show ?case using Cons.IH [OF z' A'(2)] by (simp add: ladder_loop_def Let_def)
qed

lemma fval_one: "is_fe (vli_clear[0 := 1])" "fval (vli_clear[0 := 1]) = 1"
proof -
  have "vli_val (vli_clear[0 := 1]) = 1" "is_vli (vli_clear[0 := 1])"
    using vli_one_val by (simp_all add: vli_one_def)
  then show "is_fe (vli_clear[0 := 1])" "fval (vli_clear[0 := 1]) = 1"
    by (simp_all add: is_fe_def fval_def P256_def)
qed

definition initial_z :: "vli option \<Rightarrow> vli" where
  "initial_z p_initialZ = (case p_initialZ of None \<Rightarrow> vli_clear[0 := 1] | Some iz \<Rightarrow> vli_set iz)"

lemma XYcZ_initial_double_coz2:
  assumes "is_fe X" "is_fe Y" "is_fe (initial_z iz)" "\<not> vli_isZero (initial_z iz)"
    and "tangent (fval X, fval Y) C"
  shows "coz2 (XYcZ_initial_double (X, Y) iz) (fval Y * fval (initial_z iz) ^ 4) (C, (fval X, fval Y))"
proof -
  let ?A = "(fval X, fval Y)" and ?z = "initial_z iz"
  have "coz (X, Y) 1 ?A" using assms(1,2) by (simp add: coz_def)
  then have s: "coz (apply_z (X, Y) ?z) (1 * fval ?z) ?A" by (rule apply_z_coz [OF _ assms(3)])
  obtain X1 Y1 where a: "apply_z (X, Y) ?z = (X1, Y1)" by force
  obtain X3 Y3 Z3 where d: "EccPoint_double_jacobian (X1, Y1, ?z) = (X3, Y3, Z3)" by (cases "EccPoint_double_jacobian (X1, Y1, ?z)")
  have jac: "jacobian (X1, Y1, ?z) ?A" using s a assms(3) by (simp add: jacobian_def)
  from EccPoint_double_jacobian_affine(1) [OF this assms(4,5)]
  have j: "is_fe Z3" "coz (X3, Y3) (fval Z3) C" by (simp_all add: d jacobian_def)
  have "coz (apply_z (X, Y) Z3) (1 * fval Z3) ?A"
    by (rule apply_z_coz [OF \<open>coz (X, Y) 1 ?A\<close> j(1)])
  moreover have "XYcZ_initial_double (X, Y) iz = ((X3, Y3), apply_z (X, Y) Z3)"
    using assms(1,2) a d
    by (simp add: XYcZ_initial_double_def Let_def initial_z_def split_def)
  moreover have "fval Z3 = fval Y * fval ?z ^ 4"
  proof -
    have "fval Z3 = fval Y1 * fval ?z"
      using EccPoint_double_jacobian_affine(2) [OF jac assms(4,5)] by (simp add: d)
    also have "fval Y1 = fval Y * fval ?z ^ 3" using s a by (simp add: coz_def)
    finally show ?thesis by (simp add: power3_eq_cube power4_eq_xxxx ac_simps)
  qed
  ultimately show ?thesis using j(2) by (simp add: coz2_def)
qed

text \<open>
  The recovery of \<open>1/Z\<close> after the last step: it is right when the difference of the two
  points of the ladder is the base point, up to the sign the last bit gives it.
\<close>

definition last_difference :: "bool \<Rightarrow> fp \<times> fp \<Rightarrow> fp \<times> fp" where
  "last_difference nb A = (if nb then reflect A else A)"

definition ladder_z_arg :: "EccPoint \<Rightarrow> bool \<Rightarrow> ladder \<Rightarrow> vli" where
  "ladder_z_arg p_point nb R =
     vli_modMult_fast (vli_modMult_fast (vli_modSub (fst (snd R)) (fst (fst R)) curve_p)
       (snd (fst (aff_select nb R)))) (pt_x p_point)"

lemma ladder_z_eq:
  "ladder_z p nb R = vli_modMult_fast (vli_modMult_fast (vli_modInv (ladder_z_arg p nb R) curve_p) (pt_y p))
     (fst (fst (aff_select nb R)))"
  by (cases R) (auto simp: ladder_z_def ladder_z_arg_def aff_select_def Let_def prod.swap_def)

lemma ladder_z_inverse:
  assumes "is_fe (pt_x p)" "is_fe (pt_y p)"
    and "coz2 (aff_select nb R) z (last_difference nb (fval (pt_x p), fval (pt_y p)), S)"
    and "coprime (vli_val (ladder_z_arg p nb R)) P256"
  shows "is_fe (ladder_z p nb R)"
    and "(z * (fval (fst (fst (aff_select nb R))) - fval (fst (snd (aff_select nb R))))) * fval (ladder_z p nb R) = 1"
proof -
  obtain X0 Y0 X1 Y1 where R: "R = ((X0, Y0), (X1, Y1))" by (metis surj_pair)
  have fe: "is_fe X0" "is_fe Y0" "is_fe X1" "is_fe Y1"
    using assms(3) coz2_select by (auto simp: coz2_def coz_def R aff_select_def split: if_splits)
  let ?a = "ladder_z_arg p nb R"
  have arg: "is_fe ?a" "fval ?a = (fval X1 - fval X0) * fval (if nb then Y0 else Y1) * fval (pt_x p)"
    using fe assms(1) by (simp_all add: ladder_z_arg_def R aff_select_def fe_simps)
  note inv = vli_modInv_fval [OF is_fe_vli [OF arg(1)] assms(4)]
  define i where "i = fval (vli_modInv ?a curve_p)"
  have i: "i * ((fval X1 - fval X0) * fval (if nb then Y0 else Y1) * fval (pt_x p)) = 1"
    using inv(2) by (simp only: i_def arg(2))
  show "is_fe (ladder_z p nb R)"
    unfolding ladder_z_eq using inv(1) fe assms(2) by (simp add: R aff_select_def fe_simps)
  have z: "fval (ladder_z p nb R) = i * fval (pt_y p) * fval (if nb then X0 else X1)"
    unfolding ladder_z_eq using inv(1) fe assms(2) by (simp add: R aff_select_def fe_simps i_def)
  show "(z * (fval (fst (fst (aff_select nb R))) - fval (fst (snd (aff_select nb R)))))
      * fval (ladder_z p nb R) = 1"
  proof (cases nb)
    case True
    have D: "fval X0 = fval (pt_x p) * z ^ 2" "fval Y0 = - fval (pt_y p) * z ^ 3"
      using assms(3) True by (simp_all add: coz2_def coz_def R aff_select_def last_difference_def reflect_def)
    have "(z * (fval X0 - fval X1)) * (i * fval (pt_y p) * (fval (pt_x p) * z ^ 2))
        = i * ((fval X1 - fval X0) * (- fval (pt_y p) * z ^ 3) * fval (pt_x p))"
      by (simp add: power2_eq_square power3_eq_cube algebra_simps)
    then show ?thesis using i D unfolding z by (simp add: True R aff_select_def)
  next
    case False
    have D: "fval X1 = fval (pt_x p) * z ^ 2" "fval Y1 = fval (pt_y p) * z ^ 3"
      using assms(3) False by (simp_all add: coz2_def coz_def R aff_select_def last_difference_def)
    have "(z * (fval X1 - fval X0)) * (i * fval (pt_y p) * (fval (pt_x p) * z ^ 2))
        = i * ((fval X1 - fval X0) * (fval (pt_y p) * z ^ 3) * fval (pt_x p))"
      by (simp add: power2_eq_square power3_eq_cube algebra_simps)
    then show ?thesis using i D unfolding z by (simp add: False R aff_select_def)
  qed
qed

text \<open>The state of the ladder before the last bit, and after its difference step.\<close>

definition ladder_before :: "EccPoint \<Rightarrow> vli \<Rightarrow> vli option \<Rightarrow> ladder" where
  "ladder_before p k iz =
     ladder_loop k (ladder_bits k)
       (prod.swap (XYcZ_initial_double (vli_set (pt_x p), vli_set (pt_y p)) iz))"

definition ladder_last :: "EccPoint \<Rightarrow> vli \<Rightarrow> vli option \<Rightarrow> ladder" where
  "ladder_last p k iz = ladder_addC (scalar_nb k 0) (ladder_before p k iz)"

lemma EccPoint_mult_eq:
  "EccPoint_mult p k iz =
     (let R = ladder_last p k iz;
          xy = apply_z (fst (ladder_add (scalar_nb k 0) R)) (ladder_z p (scalar_nb k 0) R)
      in \<lparr>pt_x = vli_set (fst xy), pt_y = vli_set (snd xy)\<rparr>)"
  by (simp add: EccPoint_mult_def ladder_last_def ladder_before_def Let_def split_def prod.swap_def)

text \<open>
  The affine specification of the whole multiplication: double the point, run the ladder
  over the middle bits, and take the sum or the doubled point as the last bit says.
\<close>

definition aff_mult_spec :: "EccPoint \<Rightarrow> vli \<Rightarrow> fp \<times> fp \<Rightarrow> bool" where
  "aff_mult_spec p k E \<longleftrightarrow>
     (let A = (fval (pt_x p), fval (pt_y p)); nb = scalar_nb k 0 in
      \<exists>A2 B S T. tangent A A2 \<and>
        aff_ladder (map (scalar_nb k) (ladder_bits k)) (A, A2) B \<and>
        chord (fst (aff_select nb B)) (snd (aff_select nb B)) S \<and>
        chord (fst (aff_select nb B)) (reflect (snd (aff_select nb B))) (last_difference nb A) \<and>
        chord S (last_difference nb A) T \<and> E = (if nb then T else S))"

lemma EccPoint_mult_refines:
  assumes "is_fe (pt_x p)" "is_fe (pt_y p)" "is_fe (initial_z iz)" "\<not> vli_isZero (initial_z iz)"
    and "aff_mult_spec p k E"
    and "fval (ladder_z_arg p (scalar_nb k 0) (ladder_last p k iz)) * w = 1"
  shows "is_fe (pt_x (EccPoint_mult p k iz))" "is_fe (pt_y (EccPoint_mult p k iz))"
    and "(fval (pt_x (EccPoint_mult p k iz)), fval (pt_y (EccPoint_mult p k iz))) = E"
proof -
  define nb where "nb = scalar_nb k 0"
  define A where "A = (fval (pt_x p), fval (pt_y p))"
  obtain A2 B S T where spec: "tangent A A2" "aff_ladder (map (scalar_nb k) (ladder_bits k)) (A, A2) B"
    "chord (fst (aff_select nb B)) (snd (aff_select nb B)) S"
    "chord (fst (aff_select nb B)) (reflect (snd (aff_select nb B))) (last_difference nb A)"
    "chord S (last_difference nb A) T" "E = (if nb then T else S)"
    using assms(5) unfolding aff_mult_spec_def Let_def nb_def A_def by blast
  have cop: "coprime (vli_val (ladder_z_arg p nb (ladder_last p k iz))) P256"
    using fp_unit_coprime assms(6) unfolding nb_def fval_def by blast
  obtain z0 where "coz2 (XYcZ_initial_double (pt_x p, pt_y p) iz) z0 (A2, A)"
    using XYcZ_initial_double_coz2 [OF assms(1-4)] spec(1) unfolding A_def by blast
  then have "coz2 (prod.swap (XYcZ_initial_double (vli_set (pt_x p), vli_set (pt_y p)) iz)) z0 (A, A2)"
    using assms(1,2) by (simp add: coz2_def)
  then obtain z1 where "coz2 (ladder_before p k iz) z1 B"
    unfolding ladder_before_def using ladder_loop_coz2 [OF _ spec(2)] by blast
  then obtain z2 where z2: "coz2 (aff_select nb (ladder_last p k iz)) z2 (last_difference nb A, S)"
    unfolding ladder_last_def nb_def [symmetric] using ladder_addC_coz2 [OF _ spec(3,4)] by blast
  let ?R = "ladder_last p k iz"
  let ?z = "z2 * (fval (fst (fst (aff_select nb ?R))) - fval (fst (snd (aff_select nb ?R))))"
  note inv = ladder_z_inverse [OF assms(1,2) z2 [unfolded A_def] cop]
  have "coz2 (aff_select nb (ladder_add nb ?R)) ?z (T, S)"
    by (rule ladder_add_coz2 [OF z2 spec(5)])
  then have "coz (fst (ladder_add nb ?R)) ?z E"
    by (cases nb) (simp_all add: coz2_def aff_select_def spec(6))
  from apply_z_coz [OF this inv(1)]
  have "coz (apply_z (fst (ladder_add nb ?R)) (ladder_z p nb ?R)) 1 E"
    unfolding inv(2) .
  then have r: "is_fe (pt_x (EccPoint_mult p k iz)) \<and> is_fe (pt_y (EccPoint_mult p k iz)) \<and>
    (fval (pt_x (EccPoint_mult p k iz)), fval (pt_y (EccPoint_mult p k iz))) = E"
    by (simp add: EccPoint_mult_eq Let_def nb_def [symmetric] coz_def)
  then show "is_fe (pt_x (EccPoint_mult p k iz))" "is_fe (pt_y (EccPoint_mult p k iz))"
    "(fval (pt_x (EccPoint_mult p k iz)), fval (pt_y (EccPoint_mult p k iz))) = E" by blast+
qed

text \<open>
  The result depends on the scalar only through the number of its bits and the bits below
  the leading one, and the last bit is always processed.
\<close>

lemma EccPoint_mult_cong:
  assumes "map (scalar_nb k) (ladder_bits k) = map (scalar_nb j) (ladder_bits j)"
    and "scalar_nb k 0 = scalar_nb j 0"
  shows "EccPoint_mult p k iz = EccPoint_mult p j iz"
proof -
  have "ladder_loop k is R = foldl (\<lambda>R nb. ladder_add nb (ladder_addC nb R)) R (map (scalar_nb k) is)"
    for k "is" R
    by (induction "is" arbitrary: R) (simp_all add: ladder_loop_def Let_def)
  then show ?thesis using assms by (simp add: EccPoint_mult_eq ladder_last_def ladder_before_def)
qed

lemma vli_numDigits_4:
  "vli_numDigits [a, b, c, d]
   = (if d \<noteq> 0 then 4 else if c \<noteq> 0 then 3 else if b \<noteq> 0 then 2 else if a \<noteq> 0 then 1 else 0)"
  by (simp add: vli_numDigits_def numeral_eq_Suc)

lemma small_scalars:
  "ladder_bits [0, 0, 0, 0] = []" "ladder_bits [1, 0, 0, 0] = []"
  "ladder_bits [2, 0, 0, 0] = []" "ladder_bits [3, 0, 0, 0] = []"
  "scalar_nb [0, 0, 0, 0] 0" "\<not> scalar_nb [1, 0, 0, 0] 0"
  "scalar_nb [2, 0, 0, 0] 0" "\<not> scalar_nb [3, 0, 0, 0] 0"
  by (simp_all add: ladder_bits_def vli_numBits_def vli_numDigits_4 digit_bits.simps
      scalar_nb_def vli_testBit_def)

subsection \<open>Reduced coordinates everywhere\<close>

text \<open>
  Every operation keeps the coordinates reduced digit arrays, whatever the points are, so the
  preconditions \<open>p_left < p_mod\<close> of the modular operations hold throughout.
\<close>

definition fe2 :: "vli \<times> vli \<Rightarrow> bool" where
  "fe2 P \<longleftrightarrow> is_fe (fst P) \<and> is_fe (snd P)"

lemma apply_z_fe2: "fe2 P \<Longrightarrow> is_fe z \<Longrightarrow> fe2 (apply_z P z)"
  by (cases P) (simp add: fe2_def apply_z_def Let_def fe_simps)

lemma XYcZ_add_fe2:
  assumes "fe2 P" "fe2 Q"
  shows "fe2 (fst (XYcZ_add P Q))" "fe2 (snd (XYcZ_add P Q))"
    and "fe2 (fst (XYcZ_addC P Q))" "fe2 (snd (XYcZ_addC P Q))"
  using assms
  by (cases P; cases Q; simp add: fe2_def XYcZ_add_def XYcZ_addC_def Let_def fe_simps)+

lemma double_jacobian_fe:
  assumes "is_fe X" "is_fe Y" "is_fe Z"
  shows "case EccPoint_double_jacobian (X, Y, Z) of (X', Y', Z') \<Rightarrow> is_fe X' \<and> is_fe Y' \<and> is_fe Z'"
  using assms by (simp add: EccPoint_double_jacobian_def Let_def fe_simps half_mod_p_fval)

lemma initial_double_fe2:
  assumes "fe2 P" "is_fe (initial_z iz)"
  shows "fe2 (fst (XYcZ_initial_double P iz))" "fe2 (snd (XYcZ_initial_double P iz))"
proof -
  obtain X Y where P: "P = (X, Y)" by (cases P)
  obtain X1 Y1 where a: "apply_z (X, Y) (initial_z iz) = (X1, Y1)" by force
  have f: "is_fe X1" "is_fe Y1"
    using apply_z_fe2 [OF assms] by (simp_all add: P a fe2_def)
  obtain X3 Y3 Z3 where d: "EccPoint_double_jacobian (X1, Y1, initial_z iz) = (X3, Y3, Z3)"
    by (cases "EccPoint_double_jacobian (X1, Y1, initial_z iz)")
  have g: "is_fe X3" "is_fe Y3" "is_fe Z3" using double_jacobian_fe [OF f assms(2)] by (simp_all add: d)
  have "XYcZ_initial_double P iz = ((X3, Y3), apply_z (X, Y) Z3)"
    using assms(1) a d by (simp add: P fe2_def XYcZ_initial_double_def Let_def initial_z_def split_def)
  then show "fe2 (fst (XYcZ_initial_double P iz))" "fe2 (snd (XYcZ_initial_double P iz))"
    using g apply_z_fe2 [OF assms(1) g(3)] by (simp_all add: P fe2_def)
qed

definition fe4 :: "ladder \<Rightarrow> bool" where
  "fe4 R \<longleftrightarrow> fe2 (fst R) \<and> fe2 (snd R)"

lemma fe4_select: "fe4 (aff_select nb R) \<longleftrightarrow> fe4 R"
  by (auto simp: fe4_def aff_select_def)

lemma ladder_fe4:
  assumes "fe4 R"
  shows "fe4 (ladder_addC nb R)" "fe4 (ladder_add nb R)"
proof -
  have s: "fe2 (fst (aff_select nb R))" "fe2 (snd (aff_select nb R))"
    using assms fe4_select [of nb R] by (simp_all add: fe4_def)
  have "fe4 (aff_select nb (ladder_addC nb R))" "fe4 (aff_select nb (ladder_add nb R))"
    unfolding ladder_addC_select ladder_add_select
    using XYcZ_add_fe2 [OF s] XYcZ_add_fe2 [OF s(2,1)] by (simp_all add: fe4_def)
  then show "fe4 (ladder_addC nb R)" "fe4 (ladder_add nb R)" by (simp_all only: fe4_select)
qed

lemma ladder_loop_fe4: "fe4 R \<Longrightarrow> fe4 (ladder_loop k is R)"
  by (induction "is" arbitrary: R) (simp_all add: ladder_loop_def Let_def ladder_fe4)

lemma modInv_curve_p_fe: "is_vli x \<Longrightarrow> is_fe (vli_modInv x curve_p)"
  using vli_modInv_val(1,2) [of x curve_p]
  by (simp add: is_fe_def is_vli_curve curve_p_val P256_def)

lemma ladder_z_fe:
  assumes "fe4 R" "is_fe (pt_x p)" "is_fe (pt_y p)"
  shows "is_fe (ladder_z p nb R)"
proof -
  have "fe2 (fst (aff_select nb R))" using assms(1) fe4_select [of nb R] by (simp add: fe4_def)
  moreover from this have "is_fe (ladder_z_arg p nb R)"
    using assms by (simp add: ladder_z_arg_def fe4_def fe2_def fe_simps)
  ultimately show ?thesis
    unfolding ladder_z_eq using assms(3) by (simp add: fe2_def fe_simps modInv_curve_p_fe is_fe_vli)
qed

lemma EccPoint_mult_fe:
  assumes "is_fe (pt_x p)" "is_fe (pt_y p)" "is_fe (initial_z iz)"
  shows "is_fe (pt_x (EccPoint_mult p k iz))" "is_fe (pt_y (EccPoint_mult p k iz))"
proof -
  have "fe2 (pt_x p, pt_y p)" using assms by (simp add: fe2_def)
  from initial_double_fe2 [OF this assms(3)] have "fe4 (ladder_last p k iz)"
    using assms(1,2) unfolding ladder_last_def ladder_before_def
    by (intro ladder_fe4 ladder_loop_fe4) (simp add: fe4_def)
  then have "fe2 (apply_z (fst (ladder_add (scalar_nb k 0) (ladder_last p k iz)))
      (ladder_z p (scalar_nb k 0) (ladder_last p k iz)))"
    using apply_z_fe2 ladder_fe4(2) ladder_z_fe assms(1,2) unfolding fe4_def by blast
  then show "is_fe (pt_x (EccPoint_mult p k iz))" "is_fe (pt_y (EccPoint_mult p k iz))"
    by (simp_all add: EccPoint_mult_eq Let_def fe2_def)
qed

lemma curve_G_fe: "is_fe (pt_x curve_G)" "is_fe (pt_y curve_G)"
  by (simp_all add: is_fe_def is_vli_def curve_G_def P256_def)

subsection \<open>Byte encoding\<close>

lemma digit_of_bytes_join:
  assumes "length bs = 8"
  shows "digit_of_bytes (bs @ cs) = le_join (rev bs)"
proof -
  obtain a b c d e f g h where "bs = [a, b, c, d, e, f, g, h]" by (rule length_8_cases [OF assms])
  then show ?thesis by (simp add: digit_of_bytes_def ac_simps)
qed

lemma bytes_of_digit_split: "bytes_of_digit d = rev (le_split 8 d)"
  by (simp add: bytes_of_digit_def le_split_def upt_rec)

lemma length_bytes_of_digit [simp]: "length (bytes_of_digit d) = 8"
  by (simp add: bytes_of_digit_def)

lemma digit_of_bytes_of_digit: "digit_of_bytes (bytes_of_digit d @ bs) = d"
  using digit_of_bytes_join [of "bytes_of_digit d" bs]
  by (simp add: bytes_of_digit_split le_join_split len_simps)

lemma bytes_of_digit_of_bytes:
  assumes "length bs = 8"
  shows "bytes_of_digit (digit_of_bytes (bs @ cs)) = bs"
  using assms by (simp add: digit_of_bytes_join bytes_of_digit_split le_split_join)

lemma length_32_cases:
  assumes "length bs = 32"
  obtains ds cs es fs where "bs = ds @ cs @ es @ fs" "length ds = 8" "length cs = 8"
    "length es = 8" "length fs = 8"
proof -
  have "bs = take 8 bs @ take 8 (drop 8 bs) @ take 8 (drop 16 bs) @ drop 24 bs"
    using append_take_drop_id [of 8 bs] append_take_drop_id [of 8 "drop 8 bs"]
      append_take_drop_id [of 8 "drop 16 bs"] by simp
  then show ?thesis using that [of "take 8 bs" "take 8 (drop 8 bs)" "take 8 (drop 16 bs)" "drop 24 bs"]
    assms by simp
qed

lemma ecc_bytes2native_append:
  assumes "length ds = 8" "length cs = 8" "length es = 8" "length fs = 8"
  shows "ecc_bytes2native (ds @ cs @ es @ fs @ rest)
    = [le_join (rev fs), le_join (rev es), le_join (rev cs), le_join (rev ds)]"
  using digit_of_bytes_join [OF assms(1)] digit_of_bytes_join [OF assms(2)]
    digit_of_bytes_join [OF assms(3)] digit_of_bytes_join [OF assms(4)] assms
  by (simp add: ecc_bytes2native_def upt_rec)

lemma is_vli_bytes2native [len_simps]: "is_vli (ecc_bytes2native bs)"
  by (simp add: is_vli_def ecc_bytes2native_def)

lemma length_native2bytes [len_simps]:
  assumes "is_vli x"
  shows "length (ecc_native2bytes x) = ECC_BYTES"
proof -
  obtain a b c d where "x = [a, b, c, d]" using assms length_4_cases by (metis is_vli_length)
  then show ?thesis by (simp add: ecc_native2bytes_def ECC_BYTES_def)
qed

lemma ecc_bytes2native_native2bytes:
  assumes "is_vli x"
  shows "ecc_bytes2native (ecc_native2bytes x @ rest) = x"
proof -
  obtain a b c d where x: "x = [a, b, c, d]" using assms length_4_cases by (metis is_vli_length)
  have "ecc_bytes2native (bytes_of_digit d @ bytes_of_digit c @ bytes_of_digit b @ bytes_of_digit a @ rest)
      = [a, b, c, d]"
    by (subst ecc_bytes2native_append) (simp_all add: bytes_of_digit_split le_join_split len_simps)
  then show ?thesis by (simp add: x ecc_native2bytes_def)
qed

lemma ecc_native2bytes_bytes2native:
  assumes "length bs = ECC_BYTES"
  shows "ecc_native2bytes (ecc_bytes2native bs) = bs"
proof -
  have "length bs = 32" using assms by (simp add: ECC_BYTES_def)
  then obtain ds cs es fs where bs: "bs = ds @ cs @ es @ fs" "length ds = 8" "length cs = 8"
    "length es = 8" "length fs = 8"
    by (rule length_32_cases)
  then show ?thesis
    using ecc_bytes2native_append [OF bs(2-5), of "[]"]
    by (simp add: ecc_native2bytes_def bytes_of_digit_split le_split_join)
qed

text \<open>The encoding is big-endian: reversed, the bytes are the base-256 digits of the number.\<close>

lemma ecc_bytes2native_val:
  assumes "length bs = ECC_BYTES"
  shows "vli_val (ecc_bytes2native bs) = limbs_val (rev bs)"
proof -
  have "length bs = 32" using assms by (simp add: ECC_BYTES_def)
  then obtain ds cs es fs where bs: "bs = ds @ cs @ es @ fs" "length ds = 8" "length cs = 8"
    "length es = 8" "length fs = 8"
    by (rule length_32_cases)
  have j: "unat (le_join (rev gs) :: u64) = limbs_val (rev gs)" if "length gs = 8" for gs
    using that by (intro le_join_val) simp
  show ?thesis
    using ecc_bytes2native_append [OF bs(2-5), of "[]"] bs(2-5)
    by (simp add: bs(1) j limbs_val_append)
qed

subsection \<open>The square root and decompression\<close>

text \<open>The exponent \<open>(p + 1) / 4\<close> of the square root.\<close>

definition sqrt_exp :: nat where
  "sqrt_exp = (P256 + 1) div 4"

definition bits_val :: "bool list \<Rightarrow> nat" where
  "bits_val = foldl (\<lambda>n b. 2 * n + of_bool b) 0"

lemma bits_val_snoc: "bits_val (bs @ [b]) = 2 * bits_val bs + of_bool b"
  by (simp add: bits_val_def)

lemma bits_val_top:
  "bits_val (map (bit n) (rev [k..<m])) = (n div 2 ^ k) mod 2 ^ (m - k)" for n :: nat
proof (induction "m - k" arbitrary: k)
  case 0
  then show ?case by (simp add: bits_val_def)
next
  case (Suc j)
  then have km: "k < m" "j = m - Suc k" by simp_all
  have "bits_val (map (bit n) (rev [k..<m])) = 2 * bits_val (map (bit n) (rev [Suc k..<m])) + of_bool (bit n k)"
    using km(1) by (simp add: upt_rec [of k] bits_val_snoc)
  also have "\<dots> = 2 * ((n div 2 ^ Suc k) mod 2 ^ j) + (n div 2 ^ k) mod 2"
    unfolding Suc.hyps(1) [OF km(2)] km(2) [symmetric] by (simp add: bit_iff_odd mod_2_eq_odd)
  also have "\<dots> = (n div 2 ^ k) mod (2 * 2 ^ j)"
    unfolding power_Suc2 div_mult2_eq by (simp add: mod_mult2_eq)
  also have "2 * 2 ^ j = (2 :: nat) ^ (m - k)" unfolding Suc.hyps(2) [symmetric] by simp
  finally show ?case .
qed

definition sqrt_body :: "vli \<Rightarrow> vli \<Rightarrow> bool \<Rightarrow> vli" where
  "sqrt_body a r b = (let r = vli_modSquare_fast r in if b then vli_modMult_fast r a else r)"

lemma fval_foldl_power:
  assumes "is_fe a" "is_fe r" "fval r = fval a ^ n"
  shows "is_fe (foldl (sqrt_body a) r bs) \<and>
         fval (foldl (sqrt_body a) r bs) = fval a ^ foldl (\<lambda>n b. 2 * n + of_bool b) n bs"
  using assms(2,3)
proof (induction bs arbitrary: r n)
  case (Cons b bs)
  have "is_fe (sqrt_body a r b)" using Cons.prems assms(1) by (simp add: sqrt_body_def Let_def fe_simps)
  moreover have "fval (sqrt_body a r b) = fval a ^ (2 * n + of_bool b)"
    using Cons.prems assms(1) by (simp add: sqrt_body_def Let_def fe_simps power_add mult_2)
  ultimately show ?case using Cons.IH by simp
qed simp

definition p_plus_1 :: vli where
  "p_plus_1 = fst (vli_add curve_p (vli_clear[0 := 1]))"

lemma p_plus_1_val: "is_vli p_plus_1" "vli_val p_plus_1 = P256 + 1"
proof -
  obtain r c where r: "vli_add curve_p (vli_clear[0 := 1]) = (r, c)" by force
  have v: "vli_val r + 2 ^ 256 * unat c = P256 + 1" "is_vli r" "unat c \<le> 1"
    using vli_add_val [OF is_vli_curve(1) vli_one_val(2)] vli_one_val(1)
    by (simp_all only: r fst_conv snd_conv vli_one_def curve_p_val)
  have "unat c = 0"
    using v(1) P256_bounds by (cases rule: carry_cases [OF v(3)]) (simp_all add: P256_def)
  then show "is_vli p_plus_1" "vli_val p_plus_1 = P256 + 1"
    using v by (simp_all add: p_plus_1_def r)
qed

lemma p_plus_1_bits: "vli_numBits p_plus_1 = 256"
proof -
  have "\<not> vli_numBits p_plus_1 \<le> 255"
  proof
    assume "vli_numBits p_plus_1 \<le> 255"
    then have "(2 :: nat) ^ vli_numBits p_plus_1 \<le> 2 ^ 255" by (intro power_increasing) simp_all
    then show False
      using vli_numBits_bounds(1) [OF p_plus_1_val(1)] P256_bounds(1) p_plus_1_val(2) by linarith
  qed
  then show ?thesis using vli_numBits_bounds(4) [OF p_plus_1_val(1)] by simp
qed

lemma mod_sqrt_power:
  assumes "is_fe a"
  shows "is_fe (mod_sqrt a)" "fval (mod_sqrt a) = fval a ^ sqrt_exp"
proof -
  let ?bits = "map (bit (P256 + 1)) (rev [2..<256])"
  have map: "foldl (\<lambda>r i. let r = vli_modSquare_fast r
      in if vli_testBit p_plus_1 i \<noteq> 0 then vli_modMult_fast r a else r) r is
    = foldl (sqrt_body a) r (map (bit (P256 + 1)) is)"
    if "\<forall>i \<in> set is. i < 256" for r "is"
    using that
    by (induction "is" arbitrary: r)
      (simp_all add: sqrt_body_def vli_testBit_val [OF p_plus_1_val(1)] p_plus_1_val(2))
  define bs where "bs = ?bits"
  have e: "mod_sqrt a = vli_set (foldl (sqrt_body a) (vli_clear[0 := 1]) bs)"
    unfolding mod_sqrt_def Let_def p_plus_1_def [symmetric] p_plus_1_bits bs_def
    by (rule arg_cong [where f = vli_set], rule map [unfolded Let_def]) auto
  have "(P256 + 1) div 2 ^ 2 mod 2 ^ (256 - 2) = sqrt_exp" by (simp add: sqrt_exp_def P256_def)
  then have exp: "foldl (\<lambda>n b. 2 * n + of_bool b) 0 bs = sqrt_exp"
    using bits_val_top [of "P256 + 1" 2 256] by (simp only: bits_val_def bs_def)
  have "fval (vli_clear[0 := 1]) = fval a ^ 0" by (simp add: fval_one)
  note fold = fval_foldl_power [OF assms fval_one(1) this, of bs, unfolded exp]
  show "is_fe (mod_sqrt a)" "fval (mod_sqrt a) = fval a ^ sqrt_exp"
    using fold by (simp_all add: e)
qed

lemma sqrt_exp_double: "2 * sqrt_exp = 1 + (P256 - 1) div 2"
  by (simp add: sqrt_exp_def P256_def)

lemma mod_sqrt_square:
  assumes "is_fe a" "fval a ^ ((P256 - 1) div 2) = 1"
  shows "fval (mod_sqrt a) ^ 2 = fval a"
proof -
  have "fval (mod_sqrt a) ^ 2 = fval a ^ (2 * sqrt_exp)"
    by (simp add: mod_sqrt_power(2) [OF assms(1)] power_mult [symmetric] mult.commute)
  also have "\<dots> = fval a * fval a ^ ((P256 - 1) div 2)"
    unfolding sqrt_exp_double by (simp only: power_add power_one_right)
  finally show ?thesis using assms(2) by simp
qed

text \<open>The right-hand side of the curve equation.\<close>

definition curve_rhs :: "fp \<Rightarrow> fp" where
  "curve_rhs x = x ^ 3 - 3 * x + fval curve_b"

definition decompress_rhs :: "vli \<Rightarrow> vli" where
  "decompress_rhs x =
     vli_modAdd (vli_modMult_fast (vli_modSub (vli_modSquare_fast x) (vli_clear[0 := 3]) curve_p) x)
       curve_b curve_p"

lemma decompress_rhs_val:
  assumes "is_vli x"
  shows "is_fe (decompress_rhs x)" "fval (decompress_rhs x) = curve_rhs (fval x)"
proof -
  have three: "is_fe (vli_clear[0 := 3])" "fval (vli_clear[0 := 3]) = 3"
    by (simp_all add: is_fe_def is_vli_def vli_clear_digits fval_def P256_def)
  have b: "is_fe curve_b" by (simp add: is_fe_def is_vli_curve curve_b_def P256_def is_vli_def)
  have sq: "is_fe (vli_modSquare_fast x)" "fval (vli_modSquare_fast x) = fval x * fval x"
    using assms by (simp_all add: vli_mod_fast_is_fe vli_modSquare_fast_fval)
  define d where "d = vli_modSub (vli_modSquare_fast x) (vli_clear[0 := 3]) curve_p"
  have d: "is_fe d" "fval d = fval x * fval x - 3"
    using sq three by (simp_all add: d_def fe_simps)
  have m: "is_fe (vli_modMult_fast d x)" "fval (vli_modMult_fast d x) = fval d * fval x"
    using d(1) assms by (simp_all add: vli_mod_fast_is_fe vli_modMult_fast_fval is_fe_vli)
  show "is_fe (decompress_rhs x)" "fval (decompress_rhs x) = curve_rhs (fval x)"
    using m b d(2)
    by (simp_all add: decompress_rhs_def d_def [symmetric] fe_simps curve_rhs_def
        power3_eq_cube algebra_simps)
qed

lemma ecc_point_decompress_curve:
  fixes c :: "u8 list"
  defines "Q \<equiv> ecc_point_decompress c"
  assumes "curve_rhs (fval (pt_x Q)) ^ ((P256 - 1) div 2) = 1"
  shows "fval (pt_y Q) ^ 2 = curve_rhs (fval (pt_x Q))"
    and "pt_x Q = ecc_bytes2native (drop 1 c)"
    and "odd (vli_val (pt_y Q)) \<longleftrightarrow> odd (unat (c ! 0))"
    and "is_fe (pt_y Q)"
proof -
  define x where "x = ecc_bytes2native (drop 1 c)"
  define y where "y = mod_sqrt (decompress_rhs x)"
  have x: "is_vli x" by (simp add: x_def len_simps)
  show px: "pt_x Q = ecc_bytes2native (drop 1 c)"
    by (simp add: Q_def ecc_point_decompress_def Let_def)
  have py: "pt_y Q = (if (y ! 0 AND 1) \<noteq> ucast (c ! 0 AND 1) then fst (vli_sub curve_p y) else y)"
    by (simp add: Q_def ecc_point_decompress_def Let_def y_def x_def decompress_rhs_def)
  note rhs = decompress_rhs_val [OF x]
  have crit: "fval (decompress_rhs x) ^ ((P256 - 1) div 2) = 1"
    using assms(2) unfolding px x_def [symmetric] rhs(2) .
  have y: "is_fe y" "fval y ^ 2 = curve_rhs (fval x)"
    using mod_sqrt_power(1) [OF rhs(1)] mod_sqrt_square [OF rhs(1) crit] rhs(2)
    by (simp_all add: y_def)
  have "curve_rhs (fval x) \<noteq> 0"
    using crit unfolding rhs(2) by (auto simp: power_0_left P256_def)
  then have "fval y \<noteq> 0" using y(2) by auto
  then have y0: "vli_val y \<noteq> 0" by (rule contrapos_nn) (simp add: fval_def)
  have s: "is_vli (fst (vli_sub curve_p y))" "vli_val (fst (vli_sub curve_p y)) = P256 - vli_val y"
    using vli_sub_exact [OF is_vli_curve(1) is_fe_vli [OF y(1)]] y(1)
    by (simp_all add: is_fe_def val_simps)
  have low: "y ! 0 AND 1 = of_bool (odd (vli_val y))" "c ! 0 AND 1 = of_bool (odd (unat (c ! 0)))"
  proof -
    obtain d ds where "y = d # ds" using is_fe_vli [OF y(1)] by (cases y) (simp_all add: is_vli_def)
    then have "odd (unat (y ! 0)) = odd (vli_val y)" by simp
    then show "y ! 0 AND 1 = of_bool (odd (vli_val y))" by (simp only: and_1_odd)
    show "c ! 0 AND 1 = of_bool (odd (unat (c ! 0)))" by (rule and_1_odd)
  qed
  have bits: "(y ! 0 AND 1) \<noteq> ucast (c ! 0 AND 1) \<longleftrightarrow> (odd (vli_val y) \<noteq> odd (unat (c ! 0)))"
    unfolding low by (cases "odd (vli_val y)"; cases "odd (unat (c ! 0))") simp_all
  have odd_p: "odd P256" by (simp add: P256_def)
  have lt: "vli_val y < P256" using y(1) by (simp add: is_fe_def)
  have neg: "fval (fst (vli_sub curve_p y)) = - fval y"
    using lt by (simp add: fval_def s(2))
  show "fval (pt_y Q) ^ 2 = curve_rhs (fval (pt_x Q))"
    unfolding px x_def [symmetric] y(2) [symmetric] py by (simp add: neg)
  show "odd (vli_val (pt_y Q)) \<longleftrightarrow> odd (unat (c ! 0))"
    unfolding py bits using odd_p lt by (auto simp: s(2))
  show "is_fe (pt_y Q)"
    unfolding py using y(1) s y0 by (simp add: is_fe_def)
qed

subsection \<open>The formulas as the callers use them\<close>

text \<open>
  The co-Z additions are chord additions: for two points with a common \<open>Z\<close> coordinate
  \<open>XYcZ_add\<close> leaves the first point and their chord sum, and \<open>XYcZ_addC\<close> leaves their
  difference and sum, all with the new common \<open>Z\<close> coordinate \<open>Z (X2 - X1)\<close>.
\<close>

theorem coz_additions_affine:
  assumes "coz P z A" "coz Q z B" "chord A B C" "chord A (reflect B) D"
  defines "z' \<equiv> z * (fval (fst Q) - fval (fst P))"
  shows "coz (fst (XYcZ_add P Q)) z' A \<and> coz (snd (XYcZ_add P Q)) z' C \<and>
         coz (fst (XYcZ_addC P Q)) z' D \<and> coz (snd (XYcZ_addC P Q)) z' C"
  unfolding z'_def using XYcZ_add_coz [OF assms(1-3)] XYcZ_addC_coz [OF assms(1-4)] by blast

theorem coz_additions_affine_witness:
  "coz (snd (XYcZ_add ([1, 0, 0, 0], [2, 0, 0, 0]) ([3, 0, 0, 0], [8, 0, 0, 0]))) 2 (5, - 14)"
proof -
  have fe: "is_fe [n, 0, 0, 0]" "fval [n, 0, 0, 0] = of_nat (unat n)" if "unat n < 10" for n
    using that by (simp_all add: is_fe_def is_vli_def fval_def P256_def)
  have P: "coz ([1, 0, 0, 0], [2, 0, 0, 0]) 1 (1, 2)" "coz ([3, 0, 0, 0], [8, 0, 0, 0]) 1 (3, 8)"
    by (simp_all add: coz_def fe)
  have c: "chord (1, 2) (3, 8) (5, - 14)"
    unfolding chord_def by (rule exI [of _ 3]) (simp add: line_third_def)
  have d: "chord (1, 2) (reflect (3, 8)) (21, 98)"
    unfolding chord_def by (rule exI [of _ "- 5"]) (simp add: line_third_def reflect_def)
  show ?thesis using coz_additions_affine [OF P c d] by (simp add: fe)
qed

text \<open>
  Jacobian doubling is tangent doubling: for a point with a non-zero \<open>Z\<close> coordinate
  the result represents the tangent double, its \<open>Z\<close> is the product of \<open>Y\<close> and \<open>Z\<close>, and the
  point at infinity (\<open>Z\<close> zero) is left alone.
\<close>

theorem double_jacobian_affine:
  assumes "jacobian (X, Y, Z) A" "tangent A C"
  shows "if vli_isZero Z then EccPoint_double_jacobian (X, Y, Z) = (X, Y, Z)
         else jacobian (EccPoint_double_jacobian (X, Y, Z)) C \<and>
              fval (snd (snd (EccPoint_double_jacobian (X, Y, Z)))) = fval Y * fval Z"
  using EccPoint_double_jacobian_affine [OF assms(1) _ assms(2)] EccPoint_double_infinity by simp

theorem double_jacobian_affine_witness:
  "jacobian (EccPoint_double_jacobian ([3, 0, 0, 0], [12, 0, 0, 0], [1, 0, 0, 0])) (- 5, - 4)"
proof -
  have fe: "is_fe [n, 0, 0, 0]" "fval [n, 0, 0, 0] = of_nat (unat n)" if "unat n < 20" for n
    using that by (simp_all add: is_fe_def is_vli_def fval_def P256_def)
  have J: "jacobian ([3, 0, 0, 0], [12, 0, 0, 0], [1, 0, 0, 0]) (3, 12)"
    by (simp add: jacobian_def coz_def fe)
  have t: "tangent (3, 12) (- 5, - 4)"
    unfolding tangent_def by (rule exI [of _ 1]) (simp add: line_third_def)
  have "\<not> vli_isZero [1, 0, 0, 0]" by (simp add: vli_isZero_def)
  then show ?thesis using double_jacobian_affine [OF J t] by simp
qed


lemma tangent_witness: "tangent (3, 12) (- 5, - 4)"
  unfolding tangent_def by (rule exI [of _ 1]) (simp add: line_third_def)

lemma chord_witness:
  "chord (3, 12) (- 5, - 4) (6, - 18)" "chord (3, 12) (- 5, 4) (3, - 12)"
  "chord (6, - 18) (3, - 12) (- 5, - 4)"
  unfolding chord_def
    apply (rule exI [of _ 2], simp add: line_third_def)
   apply (rule exI [of _ 1], simp add: line_third_def)
  apply (rule exI [of _ "- 2"], simp add: line_third_def)
  done


text \<open>
  C38. The scalars 1 and 3 give the same product, and so do 0 and 2, for every point and
  every initial \<open>Z\<close>: the ladder starts from the doubled point and always processes bit 0,
  so it has no case for a scalar whose leading bit is that one.
\<close>

theorem small_scalars_collide:
  "EccPoint_mult p [1, 0, 0, 0] iz = EccPoint_mult p [3, 0, 0, 0] iz \<and>
   EccPoint_mult p [0, 0, 0, 0] iz = EccPoint_mult p [2, 0, 0, 0] iz"
  by (intro conjI EccPoint_mult_cong) (simp_all add: small_scalars)

text \<open>
  The byte encoding of field elements and scalars is a bijection between the 32-byte
  strings and the four-digit arrays, and it is big-endian.
\<close>

theorem ecc_bytes_roundtrip:
  assumes "length bs = ECC_BYTES" "is_vli x"
  shows "ecc_native2bytes (ecc_bytes2native bs) = bs \<and>
         ecc_bytes2native (ecc_native2bytes x) = x \<and> length (ecc_native2bytes x) = ECC_BYTES \<and>
         vli_val (ecc_bytes2native bs) = limbs_val (rev bs)"
  using ecc_native2bytes_bytes2native [OF assms(1)] ecc_bytes2native_native2bytes [OF assms(2), of "[]"]
    length_native2bytes [OF assms(2)] ecc_bytes2native_val [OF assms(1)] by simp

theorem ecc_bytes_roundtrip_witness:
  "ecc_bytes2native (ecc_native2bytes [1, 2, 3, 0xfedcba9876543210]) = [1, 2, 3, 0xfedcba9876543210]"
  using ecc_bytes_roundtrip [of "replicate 32 7" "[1, 2, 3, 0xfedcba9876543210]"]
  by (simp add: ECC_BYTES_def is_vli_def)

text \<open>
  C32. Decompression finds a point of the curve: if the right-hand side of the curve equation
  at the given abscissa passes Euler's criterion, the ordinate is reduced, its square is that
  right-hand side and its parity is the one the prefix byte asks for.
\<close>

theorem ecc_point_decompress_on_curve:
  assumes "curve_rhs (fval (ecc_bytes2native (drop 1 c))) ^ ((P256 - 1) div 2) = 1"
  shows "pt_x (ecc_point_decompress c) = ecc_bytes2native (drop 1 c) \<and>
         is_fe (pt_y (ecc_point_decompress c)) \<and>
         fval (pt_y (ecc_point_decompress c)) ^ 2 = curve_rhs (fval (pt_x (ecc_point_decompress c))) \<and>
         (odd (vli_val (pt_y (ecc_point_decompress c))) \<longleftrightarrow> odd (unat (c ! 0)))"
proof -
  have "pt_x (ecc_point_decompress c) = ecc_bytes2native (drop 1 c)"
    by (simp add: ecc_point_decompress_def Let_def)
  then show ?thesis using ecc_point_decompress_curve [of c] assms by simp
qed

theorem ecc_point_decompress_on_curve_witness:
  "fval (pt_y (ecc_point_decompress (2 # ecc_native2bytes [0x20a9feb2a50bb96c, 0x3cbdd6b47e11a9de, 0x50f6636209092bc4, 0x9e78d4ef60d05f7]))) ^ 2 = 1"
proof -
  let ?x = "[0x20a9feb2a50bb96c, 0x3cbdd6b47e11a9de, 0x50f6636209092bc4, 0x9e78d4ef60d05f7] :: vli"
  have x: "ecc_bytes2native (ecc_native2bytes ?x) = ?x"
    using ecc_bytes2native_native2bytes [of ?x "[]"] by (simp add: is_vli_def)
  have "vli_val ?x = 4479932584236123010133496826598814311995915216892401210293766552284834806124" by simp
  then have fx: "fval ?x = 4479932584236123010133496826598814311995915216892401210293766552284834806124" by (simp only: fval_def of_nat_numeral)
  have "vli_val curve_b = 41058363725152142129326129780047268409114441015993725554835256314039467401291" by (simp add: curve_b_def)
  then have fb: "fval curve_b = 41058363725152142129326129780047268409114441015993725554835256314039467401291" by (simp only: fval_def of_nat_numeral)
  have one: "curve_rhs (fval ?x) = 1"
    unfolding curve_rhs_def fx fb by (simp add: fp_numeral_eq P256_def)
  then show ?thesis
    using ecc_point_decompress_on_curve [of "2 # ecc_native2bytes ?x"] x by simp
qed

end
