(* ===== verification/Ecdsa.thy ===== *)
theory Ecdsa
  imports Ecc_Point
begin

text \<open>
  Key generation, the shared secret, signing and verification of
  bryllite-core/secp256r1.cpp (lines 942-1000 and 1069-1217). The operating system's random
  source is a parameter: \<open>rnd i\<close> is what the \<open>i\<close>-th call of \<open>getRandomNumber\<close> stores, or \<open>None\<close>
  when it fails. The two retry loops are \<open>do ... while\<close> loops whose \<open>continue\<close> evaluates
  their condition on a variable no pass has written yet, so its initial content is a parameter too.
\<close>

definition MAX_TRIES :: nat where
  "MAX_TRIES = 16"

text \<open>A random number brought below the group order by one subtraction.\<close>

definition reduce_n :: "vli \<Rightarrow> vli" where
  "reduce_n x = (if vli_cmp curve_n x \<noteq> 1 then fst (vli_sub x curve_n) else x)"

function create_key_loop :: "(nat \<Rightarrow> vli option) \<Rightarrow> nat \<Rightarrow> EccPoint \<Rightarrow> (vli \<times> EccPoint) option" where
  "create_key_loop rnd l_tries l_public =
     (case rnd l_tries of
        None \<Rightarrow> None
      | Some l_private \<Rightarrow>
          if l_tries \<ge> MAX_TRIES then None
          else if vli_isZero l_private then
            (if EccPoint_isZero l_public then create_key_loop rnd (l_tries + 1) l_public
             else Some (l_private, l_public))
          else
            let l_private = reduce_n l_private;
                l_public = EccPoint_mult curve_G l_private None
            in if EccPoint_isZero l_public then create_key_loop rnd (l_tries + 1) l_public
               else Some (l_private, l_public))"
  by pat_completeness auto
termination
  by (relation "measure (\<lambda>(rnd, l_tries, l_public). Suc MAX_TRIES - l_tries)") auto

declare create_key_loop.simps [simp del]

text \<open>The compressed public key: the parity of \<open>y\<close>, then \<open>x\<close>.\<close>

definition compress_point :: "EccPoint \<Rightarrow> u8 list" where
  "compress_point p = ucast (2 + (pt_y p ! 0 AND 1)) # ecc_native2bytes (pt_x p)"

definition create_key_pair :: "(nat \<Rightarrow> vli option) \<Rightarrow> EccPoint \<Rightarrow> (u8 list \<times> u8 list) option" where
  "create_key_pair rnd uninit =
     (case create_key_loop rnd 0 uninit of
        None \<Rightarrow> None
      | Some (l_private, l_public) \<Rightarrow> Some (compress_point l_public, ecc_native2bytes l_private))"

text \<open>The secret is written whether or not the product is the point at infinity.\<close>

definition make_shared_secret :: "vli option \<Rightarrow> u8 list \<Rightarrow> u8 list \<Rightarrow> (u8 list \<times> bool) option" where
  "make_shared_secret l_random pub priv =
     (case l_random of
        None \<Rightarrow> None
      | Some l_random \<Rightarrow>
          let l_public = ecc_point_decompress pub;
              l_private = ecc_bytes2native priv;
              l_product = EccPoint_mult l_public l_private (Some l_random)
          in Some (ecc_native2bytes (pt_x l_product), \<not> EccPoint_isZero l_product))"

definition umax :: "nat \<Rightarrow> nat \<Rightarrow> nat" where
  "umax a b = (if a > b then a else b)"

subsection \<open>Signing\<close>

function do_sign_loop :: "(nat \<Rightarrow> vli option) \<Rightarrow> nat \<Rightarrow> vli \<Rightarrow> (vli \<times> vli) option" where
  "do_sign_loop rnd l_tries p_x =
     (case rnd l_tries of
        None \<Rightarrow> None
      | Some k \<Rightarrow>
          if l_tries \<ge> MAX_TRIES then None
          else if vli_isZero k then
            (if vli_isZero p_x then do_sign_loop rnd (l_tries + 1) p_x else Some (k, p_x))
          else
            let k = reduce_n k;
                p_x = reduce_n (pt_x (EccPoint_mult curve_G k None))
            in if vli_isZero p_x then do_sign_loop rnd (l_tries + 1) p_x else Some (k, p_x))"
  by pat_completeness auto
termination
  by (relation "measure (\<lambda>(rnd, l_tries, p_x). Suc MAX_TRIES - l_tries)") auto

declare do_sign_loop.simps [simp del]

definition sign_s :: "vli \<Rightarrow> vli \<Rightarrow> vli \<Rightarrow> vli \<Rightarrow> vli" where
  "sign_s p_x k priv hash =
     (let l_s = vli_modMult p_x priv curve_n;
          l_s = vli_modAdd hash l_s curve_n;
          k = vli_modInv k curve_n
      in vli_modMult l_s k curve_n)"

definition do_sign :: "(nat \<Rightarrow> vli option) \<Rightarrow> vli \<Rightarrow> u8 list \<Rightarrow> u8 list \<Rightarrow> u8 list option" where
  "do_sign rnd uninit priv hash =
     (case do_sign_loop rnd 0 uninit of
        None \<Rightarrow> None
      | Some (k, p_x) \<Rightarrow>
          Some (ecc_native2bytes p_x @
            ecc_native2bytes (sign_s p_x k (ecc_bytes2native priv) (ecc_bytes2native hash))))"

subsection \<open>Verification\<close>

definition shamir_index :: "vli \<Rightarrow> vli \<Rightarrow> nat \<Rightarrow> nat" where
  "shamir_index u1 u2 i = of_bool (vli_testBit u1 i \<noteq> 0) + 2 * of_bool (vli_testBit u2 i \<noteq> 0)"

definition shamir_step :: "EccPoint option list \<Rightarrow> vli \<Rightarrow> vli \<Rightarrow> vli \<times> vli \<times> vli \<Rightarrow> nat \<Rightarrow> vli \<times> vli \<times> vli" where
  "shamir_step l_points u1 u2 = (\<lambda>(rx, ry, z) i.
     let (rx, ry, z) = EccPoint_double_jacobian (rx, ry, z)
     in case l_points ! shamir_index u1 u2 i of
          None \<Rightarrow> (rx, ry, z)
        | Some l_point \<Rightarrow>
            let (tx, ty) = apply_z (vli_set (pt_x l_point), vli_set (pt_y l_point)) z;
                tz = vli_modSub rx tx curve_p;
                ((tx, ty), (rx, ry)) = XYcZ_add (tx, ty) (rx, ry);
                z = vli_modMult_fast z tz
            in (rx, ry, z))"

definition verify_sum :: "EccPoint \<Rightarrow> EccPoint" where
  "verify_sum l_public =
     (let (tx, ty) = (vli_set (pt_x curve_G), vli_set (pt_y curve_G));
          (sx, sy) = (vli_set (pt_x l_public), vli_set (pt_y l_public));
          z = vli_modSub sx tx curve_p;
          ((tx, ty), (sx, sy)) = XYcZ_add (tx, ty) (sx, sy);
          z = vli_modInv z curve_p;
          (sx, sy) = apply_z (sx, sy) z
      in \<lparr>pt_x = sx, pt_y = sy\<rparr>)"

text \<open>
  \<open>None\<close> stands for the dereference of the null entry of \<open>l_points\<close> that the code would
  perform if both scalars had no bit at the leading position.
\<close>

definition do_verify :: "u8 list \<Rightarrow> u8 list \<Rightarrow> u8 list \<Rightarrow> bool option" where
  "do_verify pub hash signature =
     (let l_public = ecc_point_decompress pub;
          l_r = ecc_bytes2native signature;
          l_s = ecc_bytes2native (drop ECC_BYTES signature)
      in if vli_isZero l_r \<or> vli_isZero l_s then Some False
         else if vli_cmp curve_n l_r \<noteq> 1 \<or> vli_cmp curve_n l_s \<noteq> 1 then Some False
         else
           let z = vli_modInv l_s curve_n;
               u1 = vli_modMult (ecc_bytes2native hash) z curve_n;
               u2 = vli_modMult l_r z curve_n;
               l_sum = verify_sum l_public;
               l_points = [None, Some curve_G, Some l_public, Some l_sum];
               l_numBits = umax (vli_numBits u1) (vli_numBits u2)
           in case l_points ! shamir_index u1 u2 (l_numBits - 1) of
                None \<Rightarrow> None
              | Some l_point \<Rightarrow>
                  let (rx, ry, z) = foldl (shamir_step l_points u1 u2)
                        (vli_set (pt_x l_point), vli_set (pt_y l_point), vli_clear[0 := 1])
                        (rev [0..<l_numBits - 1]);
                      z = vli_modInv z curve_p;
                      (rx, ry) = apply_z (rx, ry) z;
                      rx = reduce_n rx
                  in Some (vli_cmp rx l_r = 0))"

subsection \<open>Scalars modulo the group order\<close>

lemma cmp_n_iff: "is_vli x \<Longrightarrow> vli_cmp curve_n x \<noteq> 1 \<longleftrightarrow> N256 \<le> vli_val x"
  using vli_cmp_val [OF is_vli_curve(2), of x] by (auto simp: curve_n_val sgn_if)

lemma reduce_n_val:
  assumes "is_vli x"
  shows "is_vli (reduce_n x)" "vli_val (reduce_n x) = vli_val x mod N256" "vli_val (reduce_n x) < N256"
proof -
  have n: "0 < N256" "2 ^ 256 < 2 * N256" by (simp_all add: N256_def)
  have lt: "vli_val x < 2 * N256" using vli_val_bound [OF assms] n by linarith
  have "is_vli (reduce_n x) \<and> vli_val (reduce_n x) = vli_val x mod N256"
  proof (cases "N256 \<le> vli_val x")
    case True
    have s: "is_vli (fst (vli_sub x curve_n))" "vli_val (fst (vli_sub x curve_n)) = vli_val x - N256"
      using vli_sub_exact [OF assms is_vli_curve(2)] True by (simp_all add: val_simps)
    have "vli_val x - N256 = vli_val x mod N256" using True lt by (simp add: le_mod_geq)
    then show ?thesis using True s cmp_n_iff [OF assms] by (simp add: reduce_n_def)
  next
    case False
    then show ?thesis using assms cmp_n_iff [OF assms] by (simp add: reduce_n_def)
  qed
  then show "is_vli (reduce_n x)" "vli_val (reduce_n x) = vli_val x mod N256" "vli_val (reduce_n x) < N256"
    using n by simp_all
qed

text \<open>\<open>vli_modAdd\<close> on an operand that is not reduced: still congruent.\<close>

lemma vli_modAdd_cong:
  assumes "is_vli x" "is_vli y" "is_vli m" "vli_val y < vli_val m"
  shows "is_vli (vli_modAdd x y m)"
    and "vli_val (vli_modAdd x y m) mod vli_val m = (vli_val x + vli_val y) mod vli_val m"
proof -
  obtain r c where r: "vli_add x y = (r, c)" by force
  have v: "vli_val r + 2 ^ 256 * unat c = vli_val x + vli_val y" "is_vli r" "unat c \<le> 1"
    using vli_add_val [OF assms(1,2)] by (simp_all only: r fst_conv snd_conv)
  obtain s b where s: "vli_sub r m = (s, b)" by force
  have w: "vli_val s + vli_val m = vli_val r + 2 ^ 256 * unat b" "is_vli s" "unat b \<le> 1"
    using vli_sub_val [OF v(2) assms(3)] by (simp_all only: s fst_conv snd_conv)
  have bounds: "vli_val m < 2 ^ 256" "vli_val s < 2 ^ 256" "vli_val r < 2 ^ 256" "vli_val x < 2 ^ 256"
    using vli_val_bound assms(1,3) v(2) w(2) by blast+
  show "is_vli (vli_modAdd x y m)" using assms by (simp add: len_simps)
  show "vli_val (vli_modAdd x y m) mod vli_val m = (vli_val x + vli_val y) mod vli_val m"
  proof (cases "vli_val m \<le> vli_val x + vli_val y")
    case True
    have "c \<noteq> 0 \<or> vli_cmp r m \<ge> 0"
      using v(1) True vli_cmp_cases(1) [OF v(2) assms(3)] by (auto simp: not_less [symmetric])
    then have "vli_modAdd x y m = s" by (simp add: vli_modAdd_def r s)
    moreover have "vli_val s = vli_val x + vli_val y - vli_val m"
      using wrapped_result [OF v(1) w(1) v(3) w(3) bounds(2,3) True] bounds assms(4) by linarith
    ultimately show ?thesis using True by (simp add: le_mod_geq)
  next
    case False
    have "c = 0" using v(1) bounds(1) False by (cases rule: carry_cases [OF v(3)]) simp_all
    moreover have "vli_val r = vli_val x + vli_val y" using v(1) \<open>c = 0\<close> by simp
    moreover have "vli_cmp r m < 0"
      using False \<open>vli_val r = vli_val x + vli_val y\<close> vli_cmp_cases(1) [OF v(2) assms(3)] by simp
    ultimately show ?thesis by (simp add: vli_modAdd_def r)
  qed
qed

lemma modMult_n_val:
  assumes "is_vli x" "is_vli y"
  shows "is_vli (vli_modMult x y curve_n)" "vli_val (vli_modMult x y curve_n) = (vli_val x * vli_val y) mod N256"
  using vli_modMult_val [OF assms is_vli_curve(2)] N256_bounds(1) by (simp_all add: val_simps)

lemma modInv_n_val:
  assumes "is_vli x" "coprime (vli_val x) N256"
  shows "is_vli (vli_modInv x curve_n)" "(vli_val (vli_modInv x curve_n) * vli_val x) mod N256 = 1"
proof -
  have m: "odd (vli_val curve_n)" "1 < vli_val curve_n" by (simp_all add: curve_n_val N256_def)
  note inv = vli_modInv_val [OF assms(1) is_vli_curve(2) m]
  show "is_vli (vli_modInv x curve_n)" by (rule inv(1))
  have "vli_val x \<noteq> 0" using assms(2) by (cases "vli_val x = 0") (simp_all add: N256_def)
  then have "int N256 dvd int (vli_val (vli_modInv x curve_n) * vli_val x) - int 1"
    using inv(3) assms(2) by (simp add: curve_n_val coprime_iff_gcd_eq_1)
  then have "(vli_val (vli_modInv x curve_n) * vli_val x) mod N256 = 1 mod N256"
    by (simp only: mod_eq_dvd_iff [symmetric] of_nat_mod [symmetric] of_nat_eq_iff)
  then show "(vli_val (vli_modInv x curve_n) * vli_val x) mod N256 = 1" by (simp add: N256_def)
qed

text \<open>The signing equation.\<close>

lemma sign_s_val:
  assumes "is_vli r" "is_vli k" "is_vli d" "is_vli e" "coprime (vli_val k) N256"
  shows "is_vli (sign_s r k d e)" "vli_val (sign_s r k d e) < N256"
    and "(vli_val (sign_s r k d e) * vli_val k) mod N256 = (vli_val e + vli_val r * vli_val d) mod N256"
proof -
  note rd = modMult_n_val [OF assms(1,3)]
  have "vli_val (vli_modMult r d curve_n) < vli_val curve_n"
    by (simp add: rd(2) val_simps N256_def)
  note sum = vli_modAdd_cong [OF assms(4) rd(1) is_vli_curve(2) this, unfolded curve_n_val rd(2)]
  note inv = modInv_n_val [OF assms(2,5)]
  note s = modMult_n_val [OF sum(1) inv(1)]
  let ?t = "vli_val (vli_modAdd e (vli_modMult r d curve_n) curve_n)" and ?i = "vli_val (vli_modInv k curve_n)"
  have e: "sign_s r k d e = vli_modMult (vli_modAdd e (vli_modMult r d curve_n) curve_n)
      (vli_modInv k curve_n) curve_n"
    by (simp add: sign_s_def)
  show "is_vli (sign_s r k d e)" using s by (simp add: e)
  show "vli_val (sign_s r k d e) < N256" by (simp add: e s N256_def)
  have "(?t * ?i mod N256 * vli_val k) mod N256 = (?t * (?i * vli_val k mod N256)) mod N256"
    by (simp add: mod_simps mult.assoc)
  also have "\<dots> = ?t mod N256" by (simp add: inv(2))
  also have "\<dots> = (vli_val e + vli_val r * vli_val d) mod N256" by (simp add: sum(2) mod_simps)
  finally show "(vli_val (sign_s r k d e) * vli_val k) mod N256 = (vli_val e + vli_val r * vli_val d) mod N256"
    by (simp add: e s(2))
qed

subsection \<open>The retry loops\<close>

lemma vli_isZero_reduce: "is_vli x \<Longrightarrow> vli_isZero (reduce_n x) \<longleftrightarrow> N256 dvd vli_val x"
  by (simp add: vli_isZero_val reduce_n_val mod_eq_0_iff_dvd)

text \<open>What the loop of \<open>create_key_pair\<close> returns when no call of the generator gives zero.\<close>

definition key_from :: "vli \<Rightarrow> vli \<Rightarrow> EccPoint \<Rightarrow> bool" where
  "key_from k d Q \<longleftrightarrow>
     (if vli_isZero k then d = k else d = reduce_n k \<and> Q = EccPoint_mult curve_G d None) \<and>
     \<not> EccPoint_isZero Q"

lemma create_key_loop_some:
  assumes "create_key_loop rnd t q = Some (d, Q)"
  shows "\<exists>i k. t \<le> i \<and> i < MAX_TRIES \<and> rnd i = Some k \<and> key_from k d Q"
  using assms
proof (induction rnd t q rule: create_key_loop.induct)
  case (1 rnd t q)
  obtain k where k: "rnd t = Some k" "t < MAX_TRIES"
    using "1.prems" by (subst (asm) create_key_loop.simps) (auto split: option.splits if_splits)
  consider (stop) "vli_isZero k" "\<not> EccPoint_isZero q" | (skip) "vli_isZero k" "EccPoint_isZero q"
    | (good) "\<not> vli_isZero k" "\<not> EccPoint_isZero (EccPoint_mult curve_G (reduce_n k) None)"
    | (retry) "\<not> vli_isZero k" "EccPoint_isZero (EccPoint_mult curve_G (reduce_n k) None)"
    by blast
  then show ?case
  proof cases
    case stop
    then have "d = k" "Q = q"
      using "1.prems" k by (simp_all add: create_key_loop.simps [of rnd t q])
    then show ?thesis using stop k by (auto simp: key_from_def)
  next
    case skip
    then have "create_key_loop rnd (t + 1) q = Some (d, Q)"
      using "1.prems" k by (simp add: create_key_loop.simps [of rnd t q])
    then show ?thesis using "1.IH"(1) [OF k(1)] k(2) skip by (auto dest: Suc_leD)
  next
    case good
    then have "d = reduce_n k" "Q = EccPoint_mult curve_G d None"
      using "1.prems" k by (auto simp: create_key_loop.simps [of rnd t q] Let_def)
    then show ?thesis using good k by (auto simp: key_from_def)
  next
    case retry
    then have "create_key_loop rnd (t + 1) (EccPoint_mult curve_G (reduce_n k) None) = Some (d, Q)"
      using "1.prems" k by (simp add: create_key_loop.simps [of rnd t q])
    then show ?thesis using "1.IH"(2) [OF k(1) _ _ refl refl] k(2) retry by (auto dest: Suc_leD)
  qed
qed

lemma do_sign_loop_some:
  assumes "do_sign_loop rnd t q = Some (k, r)"
  shows "\<not> vli_isZero r \<and> (\<exists>i w. t \<le> i \<and> i < MAX_TRIES \<and> rnd i = Some w \<and>
     (if vli_isZero w then k = w
      else k = reduce_n w \<and> r = reduce_n (pt_x (EccPoint_mult curve_G k None))))"
  using assms
proof (induction rnd t q rule: do_sign_loop.induct)
  case (1 rnd t q)
  obtain w where w: "rnd t = Some w" "t < MAX_TRIES"
    using "1.prems" by (subst (asm) do_sign_loop.simps) (auto split: option.splits if_splits)
  let ?r = "reduce_n (pt_x (EccPoint_mult curve_G (reduce_n w) None))"
  consider (stop) "vli_isZero w" "\<not> vli_isZero q" | (skip) "vli_isZero w" "vli_isZero q"
    | (good) "\<not> vli_isZero w" "\<not> vli_isZero ?r" | (retry) "\<not> vli_isZero w" "vli_isZero ?r"
    by blast
  then show ?case
  proof cases
    case stop
    then have "k = w" "r = q"
      using "1.prems" w by (simp_all add: do_sign_loop.simps [of rnd t q])
    then show ?thesis using stop w by auto
  next
    case skip
    then have "do_sign_loop rnd (t + 1) q = Some (k, r)"
      using "1.prems" w by (simp add: do_sign_loop.simps [of rnd t q])
    from "1.IH"(1) [OF w(1) _ skip this] w(2) show ?thesis
      by (metis Suc_eq_plus1 Suc_leD not_le)
  next
    case good
    then have "k = reduce_n w" "r = ?r"
      using "1.prems" w by (auto simp: do_sign_loop.simps [of rnd t q] Let_def)
    then show ?thesis using good w by auto
  next
    case retry
    then have "do_sign_loop rnd (t + 1) ?r = Some (k, r)"
      using "1.prems" w by (simp add: do_sign_loop.simps [of rnd t q])
    from "1.IH"(2) [OF w(1) _ retry(1) refl refl retry(2) this] w(2) show ?thesis
      by (metis Suc_eq_plus1 Suc_leD not_le)
  qed
qed

text \<open>The outcome depends on at most \<open>MAX_TRIES + 1\<close> calls of the generator.\<close>

lemma create_key_loop_calls:
  assumes "\<And>i. i \<le> MAX_TRIES \<Longrightarrow> rnd i = rnd' i" "t \<le> MAX_TRIES"
  shows "create_key_loop rnd t q = create_key_loop rnd' t q"
  using assms
proof (induction rnd t q rule: create_key_loop.induct)
  case (1 rnd t q)
  have e: "rnd' t = rnd t" using "1.prems" by simp
  show ?case
  proof (cases "rnd t")
    case None
    then show ?thesis using e by (simp add: create_key_loop.simps [of _ t q])
  next
    case (Some k)
    show ?thesis
    proof (cases "MAX_TRIES \<le> t")
      case True
      then show ?thesis using e Some by (simp add: create_key_loop.simps [of _ t q])
    next
      case False
      then have t: "t + 1 \<le> MAX_TRIES" by simp
      have "create_key_loop rnd (t + 1) q = create_key_loop rnd' (t + 1) q"
        if "vli_isZero k" "EccPoint_isZero q"
        using "1.IH"(1) [OF Some False that "1.prems"(1) t] .
      moreover have "create_key_loop rnd (t + 1) (EccPoint_mult curve_G (reduce_n k) None)
          = create_key_loop rnd' (t + 1) (EccPoint_mult curve_G (reduce_n k) None)"
        if "\<not> vli_isZero k" "EccPoint_isZero (EccPoint_mult curve_G (reduce_n k) None)"
        using "1.IH"(2) [OF Some False that(1) refl refl that(2) "1.prems"(1) t] .
      ultimately show ?thesis
        using e Some by (simp add: create_key_loop.simps [of _ t q] Let_def)
    qed
  qed
qed

subsection \<open>Verification\<close>

lemma top_bit:
  assumes "is_vli x" "vli_val x \<noteq> 0"
  shows "vli_testBit x (vli_numBits x - 1) \<noteq> 0"
proof -
  note b = vli_numBits_bounds [OF assms(1)]
  let ?k = "vli_numBits x - 1"
  have k: "vli_numBits x = Suc ?k" "?k < 256" using b(3,4) assms(2) by auto
  have "vli_val x div 2 ^ ?k = 1"
  proof (rule div_nat_eqI)
    show "2 ^ ?k * 1 \<le> vli_val x" using b(2) assms(2) by simp
    show "vli_val x < 2 ^ ?k * Suc 1" using b(1) k(1) by (metis One_nat_def Suc_1 power_Suc2)
  qed
  then have "bit (vli_val x) ?k" by (simp add: bit_iff_odd)
  then show ?thesis using vli_testBit_val [OF assms(1) k(2)] by simp
qed

lemma shamir_index_top:
  assumes "is_vli u1" "is_vli u2" "vli_val u1 \<noteq> 0 \<or> vli_val u2 \<noteq> 0"
  shows "shamir_index u1 u2 (umax (vli_numBits u1) (vli_numBits u2) - 1) \<noteq> 0"
proof (cases "vli_numBits u1 > vli_numBits u2")
  case True
  then have "vli_val u1 \<noteq> 0" using vli_numBits_bounds(3) [OF assms(1)] by auto
  then show ?thesis using True top_bit [OF assms(1)] by (simp add: umax_def shamir_index_def)
next
  case False
  then have "vli_val u2 \<noteq> 0"
    using assms(3) vli_numBits_bounds(3) [OF assms(1)] vli_numBits_bounds(3) [OF assms(2)] by auto
  then show ?thesis using False top_bit [OF assms(2)] by (simp add: umax_def shamir_index_def)
qed

lemma shamir_index_less: "shamir_index u1 u2 i < 4"
  by (simp add: shamir_index_def)

lemma points_lookup:
  assumes "i < 4" "i \<noteq> 0"
  shows "[None, Some a, Some b, Some c] ! i \<noteq> None"
proof -
  have "i = 1 \<or> i = 2 \<or> i = 3" using assms by auto
  then show ?thesis by auto
qed

lemma do_verify_defined:
  assumes "coprime (vli_val (ecc_bytes2native (drop ECC_BYTES signature))) N256"
  shows "do_verify pub hash signature \<noteq> None"
proof -
  define r s where "r = ecc_bytes2native signature" and "s = ecc_bytes2native (drop ECC_BYTES signature)"
  have vli: "is_vli r" "is_vli s" by (simp_all add: r_def s_def len_simps)
  define z where "z = vli_modInv s curve_n"
  have z: "is_vli z" "(vli_val z * vli_val s) mod N256 = 1"
    using modInv_n_val [OF vli(2)] assms by (simp_all add: z_def s_def)
  define u1 u2 where "u1 = vli_modMult (ecc_bytes2native hash) z curve_n" and "u2 = vli_modMult r z curve_n"
  have u: "is_vli u1" "is_vli u2" "vli_val u2 = (vli_val r * vli_val z) mod N256"
    using modMult_n_val vli z(1) by (simp_all add: u1_def u2_def len_simps)
  show ?thesis
  proof (cases "vli_isZero r \<or> vli_isZero s \<or> vli_cmp curve_n r \<noteq> 1 \<or> vli_cmp curve_n s \<noteq> 1")
    case True
    then show ?thesis by (auto simp: do_verify_def Let_def r_def s_def)
  next
    case False
    then have r: "vli_val r \<noteq> 0" "vli_val r < N256"
      using vli_isZero_val [OF vli(1)] cmp_n_iff [OF vli(1)] by auto
    have "vli_val u2 \<noteq> 0"
    proof
      assume "vli_val u2 = 0"
      then have "(vli_val r * vli_val z mod N256 * vli_val s) mod N256 = 0" by (simp add: u(3))
      then have "(vli_val r * (vli_val z * vli_val s mod N256)) mod N256 = 0"
        by (simp add: mod_simps mult.assoc)
      then show False using r by (simp add: z(2))
    qed
    then have "shamir_index u1 u2 (umax (vli_numBits u1) (vli_numBits u2) - 1) \<noteq> 0"
      by (intro shamir_index_top u) simp
    from points_lookup [OF shamir_index_less this] False show ?thesis
      by (auto simp: do_verify_def Let_def r_def [symmetric] s_def [symmetric] z_def [symmetric]
          u1_def [symmetric] u2_def [symmetric] split: option.split prod.split)
  qed
qed

subsection \<open>Keys and signatures as the callers use them\<close>

lemma sign_s_zero:
  assumes "is_vli r" "is_vli d" "is_vli e"
  shows "sign_s r vli_clear d e = vli_clear"
proof -
  have z: "is_vli vli_clear" "vli_val vli_clear = 0" by (simp_all add: len_simps val_simps)
  have "vli_modInv vli_clear curve_n = vli_clear" by (simp add: vli_modInv_def vli_isZero_val z)
  moreover have "is_vli (vli_modAdd e (vli_modMult r d curve_n) curve_n)"
    using assms modMult_n_val(1) is_vli_curve(2) by (simp add: len_simps)
  ultimately have "is_vli (sign_s r vli_clear d e)" "vli_val (sign_s r vli_clear d e) = 0"
    using modMult_n_val [OF _ z(1)] by (simp_all add: sign_s_def z)
  then show ?thesis using vli_val_inj [of "sign_s r vli_clear d e" vli_clear] z by simp
qed

lemma zero_bytes: "ecc_native2bytes vli_clear = replicate ECC_BYTES 0"
  by (simp add: ecc_native2bytes_def vli_clear_digits bytes_of_digit_def ECC_BYTES_def
      numeral_eq_Suc)



text \<open>
  C28. A key pair built from non-zero draws is consistent: the private key is the draw modulo
  the group order, in 32 bytes, and the public key compresses its multiple of the base
  point, which is not the point at infinity.
\<close>

theorem create_key_pair_consistent:
  assumes "\<And>i k. rnd i = Some k \<Longrightarrow> is_vli k \<and> vli_val k mod N256 \<noteq> 0"
  shows "case create_key_pair rnd uninit of
      None \<Rightarrow> True
    | Some (pub, priv) \<Rightarrow> \<exists>i w. i < MAX_TRIES \<and> rnd i = Some w \<and> length priv = ECC_BYTES \<and>
           vli_val (ecc_bytes2native priv) = vli_val w mod N256 \<and>
           0 < vli_val (ecc_bytes2native priv) \<and>
           pub = compress_point (EccPoint_mult curve_G (ecc_bytes2native priv) None) \<and>
           \<not> EccPoint_isZero (EccPoint_mult curve_G (ecc_bytes2native priv) None)"
proof (cases "create_key_loop rnd 0 uninit")
  case None
  then show ?thesis by (simp add: create_key_pair_def)
next
  case (Some dQ)
  obtain d Q where dQ: "dQ = (d, Q)" by (cases dQ)
  define pub priv where "pub = compress_point Q" and "priv = ecc_native2bytes d"
  have e: "create_key_pair rnd uninit = Some (pub, priv)"
    by (simp add: create_key_pair_def Some dQ pub_def priv_def)
  obtain i w where i: "i < MAX_TRIES" "rnd i = Some w" "key_from w d Q"
    using create_key_loop_some [OF Some [unfolded dQ]] by blast
  have w: "is_vli w" "vli_val w mod N256 \<noteq> 0" using assms(1) [OF i(2)] by blast+
  have "\<not> vli_isZero w" using w by (cases "vli_val w = 0") (simp_all add: vli_isZero_val)
  then have d: "d = reduce_n w" "Q = EccPoint_mult curve_G d None" "\<not> EccPoint_isZero Q"
    using i(3) by (auto simp: key_from_def)
  have dv: "is_vli d" "vli_val d = vli_val w mod N256" using reduce_n_val [OF w(1)] by (simp_all add: d(1))
  have "ecc_bytes2native priv = d" using ecc_bytes2native_native2bytes [OF dv(1), of "[]"] by (simp add: priv_def)
  then show ?thesis
    unfolding e using i(1,2) d pub_def priv_def dv w(2) length_native2bytes [OF dv(1)] by auto
qed

theorem create_key_pair_consistent_witness:
  "case create_key_pair (\<lambda>_. Some [7, 0, 0, 0]) curve_G of
      None \<Rightarrow> True
    | Some (pub, priv) \<Rightarrow> \<exists>i w. i < MAX_TRIES \<and> Some [7, 0, 0, 0] = Some (w :: vli) \<and> length priv = ECC_BYTES \<and>
           vli_val (ecc_bytes2native priv) = vli_val w mod N256 \<and>
           0 < vli_val (ecc_bytes2native priv) \<and>
           pub = compress_point (EccPoint_mult curve_G (ecc_bytes2native priv) None) \<and>
           \<not> EccPoint_isZero (EccPoint_mult curve_G (ecc_bytes2native priv) None)"
proof (rule create_key_pair_consistent)
  fix i and k :: vli
  assume "Some [7, 0, 0, 0] = Some k"
  then show "is_vli k \<and> vli_val k mod N256 \<noteq> 0" by (auto simp: is_vli_def N256_def)
qed

lemma create_key_loop_zero:
  "create_key_loop (\<lambda>_. Some vli_clear) t q
   = (if MAX_TRIES \<le> t \<or> EccPoint_isZero q then None else Some (vli_clear, q))"
proof (induction "Suc MAX_TRIES - t" arbitrary: t)
  case 0
  then show ?case by (simp add: create_key_loop.simps)
next
  case (Suc j)
  have z: "vli_isZero vli_clear" by (simp add: len_simps val_simps)
  show ?case
    using Suc.hyps(1) [of "t + 1"] Suc.hyps(2) z by (auto simp: create_key_loop.simps [of _ t])
qed

lemma do_sign_loop_zero:
  "do_sign_loop (\<lambda>_. Some vli_clear) t q
   = (if MAX_TRIES \<le> t \<or> vli_isZero q then None else Some (vli_clear, q))"
proof (induction "Suc MAX_TRIES - t" arbitrary: t)
  case 0
  then show ?case by (simp add: do_sign_loop.simps)
next
  case (Suc j)
  have z: "vli_isZero vli_clear" by (simp add: len_simps val_simps)
  show ?case
    using Suc.hyps(1) [of "t + 1"] Suc.hyps(2) z by (auto simp: do_sign_loop.simps [of _ t])
qed

text \<open>
  C39. What a draw of zero does: the \<open>continue\<close> of the retry loop evaluates the loop
  condition on a variable not yet assigned, so unless that memory happens to hold zero the
  loop ends with the zero draw; the private key is then 32 zero bytes and the public key is
  whatever the memory held, and a signature's second half is zero.
\<close>

theorem zero_draw_accepted:
  assumes "is_vli p_x"
  shows "create_key_pair (\<lambda>_. Some vli_clear) uninit
           = (if EccPoint_isZero uninit then None
              else Some (compress_point uninit, replicate ECC_BYTES 0)) \<and>
         do_sign (\<lambda>_. Some vli_clear) p_x priv hash
           = (if vli_isZero p_x then None
              else Some (ecc_native2bytes p_x @ replicate ECC_BYTES 0))"
  using sign_s_zero [OF assms is_vli_bytes2native is_vli_bytes2native]
  by (simp add: create_key_pair_def do_sign_def create_key_loop_zero do_sign_loop_zero zero_bytes
      MAX_TRIES_def)

theorem zero_draw_accepted_witness:
  "create_key_pair (\<lambda>_. Some vli_clear) curve_G = Some (compress_point curve_G, replicate 32 0)"
  using zero_draw_accepted [of "[1, 0, 0, 0]" curve_G]
  by (simp add: is_vli_def ECC_BYTES_def EccPoint_isZero_def vli_isZero_def curve_G_def)



end
