(* ===== verification/Str_Hex.thy ===== *)
theory Str_Hex
  imports Bcp_Prelude
begin

text \<open>
  Hexadecimal text of bryllite-core/utilstrencodings.cpp (lines 15-105) and
  utilstrencodings.hpp (lines 98-122): the digit table, the validity tests, parsing
  and printing, and the sanitizer. Text is a list of 8-bit characters; what a function
  sees of a C string is the part before the first NUL.
\<close>

definition NUL :: char where
  "NUL = CHR 0x00"

definition c_str :: "string \<Rightarrow> string" where
  "c_str s = takeWhile (\<lambda>c. c \<noteq> NUL) s"

definition isspace :: "char \<Rightarrow> bool" where
  "isspace c \<longleftrightarrow> c \<in> {CHR '' '', CHR 0x09, CHR 0x0A, CHR 0x0B, CHR 0x0C, CHR 0x0D}"

subsection \<open>Sanitizing\<close>

definition CHARS_ALPHA_NUM :: string where
  "CHARS_ALPHA_NUM = ''abcdefghijklmnopqrstuvwxyzABCDEFGHIJKLMNOPQRSTUVWXYZ0123456789''"

datatype SafeChars = SAFE_CHARS_DEFAULT | SAFE_CHARS_UA_COMMENT | SAFE_CHARS_FILENAME

fun SAFE_CHARS :: "SafeChars \<Rightarrow> string" where
  "SAFE_CHARS SAFE_CHARS_DEFAULT = CHARS_ALPHA_NUM @ '' .,;-_/:?@()''"
| "SAFE_CHARS SAFE_CHARS_UA_COMMENT = CHARS_ALPHA_NUM @ '' .,;-_?@''"
| "SAFE_CHARS SAFE_CHARS_FILENAME = CHARS_ALPHA_NUM @ ''.-_''"

fun SanitizeString :: "string \<Rightarrow> SafeChars \<Rightarrow> string" where
  "SanitizeString [] rule = []"
| "SanitizeString (c # cs) rule =
     (if c \<in> set (SAFE_CHARS rule) then c # SanitizeString cs rule else SanitizeString cs rule)"

subsection \<open>Digits\<close>

text \<open>The 256 entries of \<open>p_util_hexdigit\<close>, runs of \<open>-1\<close> written once.\<close>

definition p_util_hexdigit :: "int list" where
  "p_util_hexdigit =
     replicate 48 (- 1) @ [0, 1, 2, 3, 4, 5, 6, 7, 8, 9] @ replicate 7 (- 1) @
     [10, 11, 12, 13, 14, 15] @ replicate 26 (- 1) @ [10, 11, 12, 13, 14, 15] @
     replicate 153 (- 1)"

definition HexDigit :: "char \<Rightarrow> int" where
  "HexDigit c = p_util_hexdigit ! of_char c"

fun all_hex :: "string \<Rightarrow> bool" where
  "all_hex [] = True"
| "all_hex (c # cs) = (if HexDigit c < 0 then False else all_hex cs)"

definition IsHex :: "string \<Rightarrow> bool" where
  "IsHex str \<longleftrightarrow> all_hex str \<and> length str > 0 \<and> length str mod 2 = 0"

definition IsHexNumber :: "string \<Rightarrow> bool" where
  "IsHexNumber str =
     (let starting_location =
            (if length str > 2 \<and> str ! 0 = CHR ''0'' \<and> str ! 1 = CHR ''x'' then 2 else 0)
      in all_hex (drop starting_location str) \<and> length str > starting_location)"

text \<open>\<open>ParseHex\<close> on a C string; the end of the list stands for the terminating NUL, whose digit is \<open>-1\<close>.\<close>

definition nibble :: "char \<Rightarrow> u8" where
  "nibble c = of_int (HexDigit c)"

function parse_hex_loop :: "string \<Rightarrow> u8 list" where
  "parse_hex_loop psz =
     (case dropWhile isspace psz of
        [] \<Rightarrow> []
      | c # psz \<Rightarrow>
          if HexDigit c = - 1 then []
          else case psz of
              [] \<Rightarrow> []
            | d # psz \<Rightarrow>
                if HexDigit d = - 1 then []
                else (push_bit 4 (nibble c) OR nibble d) # parse_hex_loop psz)"
  by pat_completeness auto
termination
proof (relation "measure length")
  fix psz c cs d ds
  assume "dropWhile isspace psz = (c :: char) # cs" "cs = d # ds"
  then show "(ds, psz) \<in> measure length"
    using length_dropWhile_le [of isspace psz] by simp
qed simp

declare parse_hex_loop.simps [simp del]

definition ParseHex :: "string \<Rightarrow> u8 list" where
  "ParseHex str = parse_hex_loop (c_str str)"

definition hexmap :: string where
  "hexmap = ''0123456789abcdef''"

definition hex_byte :: "u8 \<Rightarrow> string" where
  "hex_byte val = [hexmap ! unat (drop_bit 4 val), hexmap ! unat (val AND 15)]"

fun HexStr :: "bool \<Rightarrow> u8 list \<Rightarrow> string" where
  "HexStr fSpaces [] = []"
| "HexStr fSpaces (b # bs) =
     hex_byte b @ (if fSpaces then concat (map (\<lambda>b. CHR '' '' # hex_byte b) bs)
                   else concat (map hex_byte bs))"

subsection \<open>Characters of hexadecimal text\<close>

lemma hexmap_nth:
  assumes "n < 16"
  shows "HexDigit (hexmap ! n) = int n" "\<not> isspace (hexmap ! n)" "hexmap ! n \<noteq> NUL"
proof -
  have "n \<in> set [0..<16]" using assms by simp
  then have "HexDigit (hexmap ! n) = int n \<and> \<not> isspace (hexmap ! n) \<and> hexmap ! n \<noteq> NUL"
    by (simp add: upt_rec HexDigit_def p_util_hexdigit_def hexmap_def isspace_def NUL_def)
      (auto simp: nth_append)
  then show "HexDigit (hexmap ! n) = int n" "\<not> isspace (hexmap ! n)" "hexmap ! n \<noteq> NUL" by blast+
qed


lemma nibble_hexmap: "n < 16 \<Longrightarrow> nibble (hexmap ! n) = of_nat n"
  by (simp add: nibble_def hexmap_nth)

lemma unat_high_nibble: "unat (drop_bit 4 (b :: u8)) < 16"
  using unat_bound [of b] by (simp add: unat_drop_bit_div less_mult_imp_div_less)

lemma unat_low_nibble: "unat (b AND 15 :: u8) = unat b mod 16"
proof -
  have "b AND 15 = take_bit 4 b" by (simp add: take_bit_eq_mask mask_eq_exp_minus_1)
  then show ?thesis by (simp add: unat_take_bit_mod)
qed

lemma nibbles_join: "push_bit 4 (drop_bit 4 b) OR (b AND 15) = (b :: u8)"
proof -
  have "b AND 15 = take_bit 4 b" by (simp add: take_bit_eq_mask mask_eq_exp_minus_1)
  then show ?thesis
    by (auto intro!: bit_word_eqI simp: bit_simps)
qed

lemma parse_hex_loop_skip: "isspace c \<Longrightarrow> parse_hex_loop (c # cs) = parse_hex_loop cs"
  by (simp add: parse_hex_loop.simps [of "c # cs"] parse_hex_loop.simps [of cs])

lemma parse_hex_loop_byte: "parse_hex_loop (hex_byte b @ s) = b # parse_hex_loop s"
proof -
  have h: "unat (drop_bit 4 b) < 16" by (rule unat_high_nibble)
  have l: "unat (b AND 15) < 16" by (simp add: unat_low_nibble)
  have uint_minus_1_less: "uint w \<noteq> - 1" for w :: u8
    using uint_nonnegative [of w] by linarith
  show ?thesis
    by (subst parse_hex_loop.simps) (simp add: hex_byte_def hexmap_nth [OF h]
        hexmap_nth [OF l] nibble_hexmap [OF h] nibble_hexmap [OF l] nibbles_join uint_minus_1_less)
qed

lemma hex_byte_no_NUL: "NUL \<notin> set (hex_byte b)"
  using hexmap_nth(3) [OF unat_high_nibble [of b]] hexmap_nth(3) [of "unat (b AND 15)"]
  by (simp add: hex_byte_def unat_low_nibble)

lemma parse_hex_loop_bytes:
  "parse_hex_loop (concat (map hex_byte bs)) = bs"
  "parse_hex_loop (concat (map (\<lambda>b. CHR '' '' # hex_byte b) bs)) = bs"
proof (induction bs)
  case Nil
  { case 1 then show ?case by (simp add: parse_hex_loop.simps) }
  { case 2 then show ?case by (simp add: parse_hex_loop.simps) }
next
  case (Cons b bs)
  { case 1 then show ?case using Cons by (simp add: parse_hex_loop_byte) }
  { case 2
    have "isspace (CHR '' '')" by (simp add: isspace_def)
    then show ?case using Cons by (simp add: parse_hex_loop_byte parse_hex_loop_skip) }
qed

lemma c_str_id: "NUL \<notin> set s \<Longrightarrow> c_str s = s"
  by (auto simp: c_str_def)

lemma HexStr_no_NUL: "NUL \<notin> set (HexStr sp bs)"
  by (cases bs) (auto simp: hex_byte_no_NUL NUL_def [symmetric], simp add: NUL_def)

lemma ParseHex_HexStr: "ParseHex (HexStr sp bs) = bs"
proof -
  have "ParseHex (HexStr sp bs) = parse_hex_loop (HexStr sp bs)"
    by (simp add: ParseHex_def c_str_id HexStr_no_NUL)
  also have "\<dots> = bs"
    by (cases bs) (simp_all add: parse_hex_loop_byte parse_hex_loop_bytes parse_hex_loop.simps [of "[]"])
  finally show ?thesis .
qed

lemma all_hex_append: "all_hex (xs @ ys) \<longleftrightarrow> all_hex xs \<and> all_hex ys"
  by (induction xs) simp_all

lemma all_hex_byte: "all_hex (hex_byte b)"
  using hexmap_nth(1) [OF unat_high_nibble [of b]] hexmap_nth(1) [of "unat (b AND 15)"]
  by (simp add: hex_byte_def unat_low_nibble)

lemma HexStr_plain: "HexStr False bs = concat (map hex_byte bs)"
  by (cases bs) simp_all

lemma HexStr_plain_length: "length (HexStr False bs) = 2 * length bs"
  by (induction bs) (simp_all add: HexStr_plain hex_byte_def)

lemma HexStr_plain_hex: "all_hex (HexStr False bs)"
  by (induction bs) (simp_all add: HexStr_plain all_hex_append all_hex_byte)



text \<open>
  Printing and parsing of hexadecimal text. Every byte sequence printed by
  \<open>HexStr\<close>, with or without spaces between the bytes, is read back by
  \<open>ParseHex\<close> unchanged; the text without spaces has two digits per byte and is
  accepted by \<open>IsHex\<close> exactly when the sequence is not empty.
\<close>

theorem hex_roundtrip:
  "ParseHex (HexStr fSpaces bs) = bs \<and>
   length (HexStr False bs) = 2 * length bs \<and>
   IsHex (HexStr False bs) = (bs \<noteq> [])"
  using HexStr_plain_length [of bs]
  by (auto simp: ParseHex_HexStr IsHex_def HexStr_plain_hex simp flip: length_greater_0_conv
      simp del: HexStr.simps)

end
