(* ===== verification/Str_Base.thy ===== *)
theory Str_Base
  imports Str_Hex
begin

text \<open>
  Base-64 and base-32 text (bryllite-core/utilstrencodings.cpp, lines 126-262) and the
  regrouping of bits they share, \<open>ConvertBits\<close> of utilstrencodings.hpp (lines
  152-174). The accumulator of \<open>ConvertBits\<close> is a natural number: it is masked to
  \<open>frombits + tobits - 1\<close> bits at every step, so no shift leaves the 21 low bits of
  the \<open>size_t\<close>.
\<close>

subsection \<open>Regrouping bits\<close>

function cb_drain :: "nat \<Rightarrow> nat \<Rightarrow> nat \<Rightarrow> nat list \<times> nat" where
  "cb_drain tobits acc bits =
     (if tobits > 0 \<and> bits \<ge> tobits then
        (let bits = bits - tobits;
             (out, rest) = cb_drain tobits acc bits
         in ((drop_bit bits acc AND mask tobits) # out, rest))
      else ([], bits))"
  by pat_completeness auto
termination by (relation "measure (\<lambda>(t, acc, bits). bits)") auto

declare cb_drain.simps [simp del]

fun cb_loop :: "nat \<Rightarrow> nat \<Rightarrow> nat \<Rightarrow> nat \<Rightarrow> nat list \<Rightarrow> nat list \<times> nat \<times> nat" where
  "cb_loop frombits tobits acc bits [] = ([], acc, bits)"
| "cb_loop frombits tobits acc bits (v # vs) =
     (let acc = (push_bit frombits acc OR v) AND mask (frombits + tobits - 1);
          (out, bits) = cb_drain tobits acc (bits + frombits);
          (out', rest) = cb_loop frombits tobits acc bits vs
      in (out @ out', rest))"

definition ConvertBits :: "nat \<Rightarrow> nat \<Rightarrow> bool \<Rightarrow> nat list \<Rightarrow> nat list \<times> bool" where
  "ConvertBits frombits tobits pad vs =
     (let (out, acc, bits) = cb_loop frombits tobits 0 0 vs;
          final = push_bit (tobits - bits) acc AND mask tobits
      in if pad then (out @ (if bits \<noteq> 0 then [final] else []), True)
         else (out, \<not> (bits \<ge> frombits \<or> final \<noteq> 0)))"

subsection \<open>Printing and reading\<close>

function pad_eq :: "nat \<Rightarrow> string \<Rightarrow> string" where
  "pad_eq g str = (if g > 0 \<and> length str mod g \<noteq> 0 then pad_eq g (str @ ''='') else str)"
  by pat_completeness auto
termination
proof (relation "measure (\<lambda>(g, str). (g - length str mod g) mod g)")
  fix g :: nat and str :: string
  assume "g > 0 \<and> length str mod g \<noteq> 0"
  then have "(g - Suc (length str) mod g) mod g < (g - length str mod g) mod g"
    using mod_less_divisor [of g "length str"] by (auto simp: mod_Suc simp del: mod_less_divisor)
  then show "((g, str @ ''=''), g, str) \<in> measure (\<lambda>(g, str). (g - length str mod g) mod g)"
    by simp
qed simp

declare pad_eq.simps [simp del]

definition pbase64 :: string where
  "pbase64 = ''ABCDEFGHIJKLMNOPQRSTUVWXYZabcdefghijklmnopqrstuvwxyz0123456789+/''"

definition EncodeBase64 :: "u8 list \<Rightarrow> string" where
  "EncodeBase64 pch = pad_eq 4 (map (\<lambda>v. pbase64 ! v) (fst (ConvertBits 8 6 True (map unat pch))))"

definition pbase32 :: string where
  "pbase32 = ''abcdefghijklmnopqrstuvwxyz234567''"

definition EncodeBase32 :: "u8 list \<Rightarrow> string" where
  "EncodeBase32 pch = pad_eq 8 (map (\<lambda>v. pbase32 ! v) (fst (ConvertBits 8 5 True (map unat pch))))"

definition decode64_table :: "int list" where
  "decode64_table =
     replicate 43 (- 1) @ [62] @ replicate 3 (- 1) @ [63] @ map int [52..<62] @
     replicate 7 (- 1) @ map int [0..<26] @ replicate 6 (- 1) @ map int [26..<52] @
     replicate 133 (- 1)"

definition decode32_table :: "int list" where
  "decode32_table =
     replicate 50 (- 1) @ map int [26..<32] @ replicate 9 (- 1) @ map int [0..<26] @
     replicate 6 (- 1) @ map int [0..<26] @ replicate 133 (- 1)"

text \<open>The digits before the first character outside the alphabet, and the text that is left.\<close>

fun read_digits :: "int list \<Rightarrow> string \<Rightarrow> nat list \<times> string" where
  "read_digits table [] = ([], [])"
| "read_digits table (c # p) =
     (let x = table ! of_char c
      in if x = - 1 then ([], c # p)
         else let (val, q) = read_digits table p in (nat x # val, q))"

text \<open>The padding loop: the characters it passes, and whether it met another character.\<close>

fun skip_eq :: "string \<Rightarrow> nat \<times> bool" where
  "skip_eq [] = (0, True)"
| "skip_eq (c # p) =
     (if c \<noteq> CHR ''='' then (0, False) else let (n, valid) = skip_eq p in (Suc n, valid))"

definition DecodeBase64 :: "string \<Rightarrow> u8 list \<times> bool" where
  "DecodeBase64 s =
     (let (val, q) = read_digits decode64_table (c_str s);
          (ret, valid) = ConvertBits 6 8 False val;
          (n, valid) = (if valid then skip_eq q else (0, False));
          valid = (valid \<and> (length val + n) mod 4 = 0 \<and> n < 4)
      in (map of_nat ret, valid))"

definition DecodeBase32 :: "string \<Rightarrow> u8 list \<times> bool" where
  "DecodeBase32 s =
     (let (val, q) = read_digits decode32_table (c_str s);
          (ret, valid) = ConvertBits 5 8 False val;
          (n, valid) = (if valid then skip_eq q else (0, False));
          valid = (valid \<and> (length val + n) mod 8 = 0 \<and> n < 8)
      in (map of_nat ret, valid))"

subsection \<open>Bits, most significant first\<close>

definition to_bits :: "nat \<Rightarrow> nat \<Rightarrow> bool list" where
  "to_bits k v = map (bit v) (rev [0..<k])"

lemma length_to_bits [len_simps, simp]: "length (to_bits k v) = k"
  by (simp add: to_bits_def)

lemma to_bits_nth: "i < k \<Longrightarrow> to_bits k v ! i = bit v (k - 1 - i)"
  by (simp add: to_bits_def rev_nth)

lemma to_bits_0 [simp]: "to_bits 0 v = []"
  by (simp add: to_bits_def)

lemma to_bits_split: "to_bits (m + n) v = to_bits m (drop_bit n v) @ to_bits n v"
  by (rule nth_equalityI) (auto simp: to_bits_nth nth_append bit_drop_bit_eq add.commute)

lemma to_bits_mask: "n \<le> k \<Longrightarrow> to_bits n (v AND mask k) = to_bits n v"
  by (auto simp: to_bits_def bit_and_iff bit_mask_iff)

lemma to_bits_push: "v < 2 ^ f \<Longrightarrow> to_bits (n + f) (push_bit f a OR v) = to_bits n a @ to_bits f v"
proof (rule nth_equalityI)
  fix i
  assume v: "v < 2 ^ f" and "i < length (to_bits (n + f) (push_bit f a OR v))"
  then have i: "i < n + f" by simp
  have "\<not> bit v j" if "f \<le> j" for j
  proof -
    have "v < 2 ^ j" using v that by (meson less_le_trans one_le_numeral power_increasing)
    then show ?thesis by (simp add: bit_nat_iff bit_iff_odd)
  qed
  then show "to_bits (n + f) (push_bit f a OR v) ! i = (to_bits n a @ to_bits f v) ! i"
    using i by (auto simp: to_bits_nth nth_append bit_or_iff bit_push_bit_iff add.commute)
qed simp

lemma to_bits_inj: "v < 2 ^ k \<Longrightarrow> w < 2 ^ k \<Longrightarrow> to_bits k v = to_bits k w \<Longrightarrow> v = w"
proof -
  assume v: "v < 2 ^ k" and w: "w < 2 ^ k" and e: "to_bits k v = to_bits k w"
  have "take_bit k v = take_bit k w"
  proof (rule bit_eqI)
    fix n
    have "bit v n = bit w n" if "n < k"
      using e that by (auto simp: to_bits_def)
    then show "bit (take_bit k v) n = bit (take_bit k w) n" by (auto simp: bit_take_bit_iff)
  qed
  then show "v = w" using v w by (simp add: take_bit_nat_eq_self)
qed

lemma to_bits_zero_iff: "v < 2 ^ k \<Longrightarrow> to_bits k v = replicate k False \<longleftrightarrow> v = 0"
proof -
  assume "v < 2 ^ k"
  moreover have "to_bits k 0 = replicate k False"
    by (auto intro!: nth_equalityI simp: to_bits_nth)
  ultimately show ?thesis using to_bits_inj [of v k 0] by auto
qed


subsection \<open>The invariant of the regrouping loop\<close>

lemma and_mask_less: "x AND mask k < (2 :: nat) ^ k"
  by (simp add: take_bit_nat_less_exp flip: take_bit_eq_mask)

lemma cb_drain_bits:
  "cb_drain t acc bits = (out, rest) \<Longrightarrow> 0 < t \<Longrightarrow>
     to_bits bits acc = concat (map (to_bits t) out) @ to_bits rest acc \<and>
     rest < t \<and> (\<forall>v \<in> set out. v < 2 ^ t)"
proof (induction t acc bits arbitrary: out rest rule: cb_drain.induct)
  case (1 t acc bits)
  show ?case
  proof (cases "bits \<ge> t")
    case True
    then obtain out' where d: "cb_drain t acc (bits - t) = (out', rest)"
      and out: "out = (drop_bit (bits - t) acc AND mask t) # out'"
      using 1(2,3) by (auto simp: cb_drain.simps [of t acc bits] Let_def split: prod.splits)
    have "to_bits (t + (bits - t)) acc = to_bits t (drop_bit (bits - t) acc) @ to_bits (bits - t) acc"
      by (rule to_bits_split)
    moreover have "to_bits (bits - t) acc = concat (map (to_bits t) out') @ to_bits rest acc \<and>
        rest < t \<and> (\<forall>v \<in> set out'. v < 2 ^ t)"
      using 1(1) [of "bits - t"] True 1(3) d by simp
    ultimately show ?thesis using True by (auto simp: out to_bits_mask and_mask_less)
  next
    case False
    then show ?thesis using 1(2,3) by (subst (asm) cb_drain.simps) auto
  qed
qed

lemma cb_loop_bits:
  "cb_loop f t acc bits vs = (out, acc', bits') \<Longrightarrow> 0 < t \<Longrightarrow> bits < t \<Longrightarrow>
     \<forall>v \<in> set vs. v < 2 ^ f \<Longrightarrow>
     to_bits bits acc @ concat (map (to_bits f) vs) =
       concat (map (to_bits t) out) @ to_bits bits' acc' \<and>
     bits' < t \<and> (\<forall>v \<in> set out. v < 2 ^ t)"
proof (induction vs arbitrary: acc bits out)
  case Nil
  then show ?case by simp
next
  case (Cons v vs)
  define acc1 where "acc1 = (push_bit f acc OR v) AND mask (f + t - 1)"
  obtain o1 b1 where d: "cb_drain t acc1 (bits + f) = (o1, b1)" by fastforce
  obtain o2 a2 b2 where l: "cb_loop f t acc1 b1 vs = (o2, a2, b2)" by (metis prod_cases3)
  have out: "out = o1 @ o2" "a2 = acc'" "b2 = bits'"
    using Cons.prems(1) d l by (simp_all add: Let_def acc1_def)
  have "to_bits (bits + f) acc1 = to_bits bits acc @ to_bits f v"
    using Cons.prems(2-4) by (simp add: acc1_def to_bits_mask to_bits_push)
  with cb_drain_bits [OF d Cons.prems(2)]
  have d': "to_bits bits acc @ to_bits f v = concat (map (to_bits t) o1) @ to_bits b1 acc1"
    "b1 < t" "\<forall>v \<in> set o1. v < 2 ^ t" by simp_all
  have ih: "to_bits b1 acc1 @ concat (map (to_bits f) vs) =
      concat (map (to_bits t) o2) @ to_bits bits' acc'" "bits' < t" "\<forall>v \<in> set o2. v < 2 ^ t"
    using Cons.IH [OF l [unfolded out(2,3)] Cons.prems(2) d'(2)] Cons.prems(4) by simp_all
  have "to_bits bits acc @ concat (map (to_bits f) (v # vs)) =
      concat (map (to_bits t) o1) @ to_bits b1 acc1 @ concat (map (to_bits f) vs)"
    using d'(1) by (metis append_assoc concat.simps(2) list.simps(9))
  then show ?case using ih d'(3) by (auto simp: out(1))
qed

text \<open>What \<open>ConvertBits\<close> computes, as streams of bits.\<close>

lemma to_bits_shift: "to_bits (n + k) (push_bit k a) = to_bits n a @ replicate k False"
  by (rule nth_equalityI) (auto simp: to_bits_nth nth_append bit_push_bit_iff add.commute)

lemma ConvertBits_pad:
  assumes "0 < t" "\<forall>v \<in> set vs. v < 2 ^ f" "ConvertBits f t True vs = (out, ok)"
  shows "\<exists>k < t. concat (map (to_bits f) vs) @ replicate k False = concat (map (to_bits t) out)"
    and "\<forall>v \<in> set out. v < 2 ^ t"
proof -
  obtain o1 acc bits where l: "cb_loop f t 0 0 vs = (o1, acc, bits)" by (metis prod_cases3)
  note inv = cb_loop_bits [OF l assms(1) assms(1) assms(2)]
  have out: "out = o1 @ (if bits \<noteq> 0 then [push_bit (t - bits) acc AND mask t] else [])"
    using assms(3) l by (simp add: ConvertBits_def Let_def)
  show "\<forall>v \<in> set out. v < 2 ^ t" using inv by (auto simp: out and_mask_less)
  have "to_bits t (push_bit (t - bits) acc) = to_bits bits acc @ replicate (t - bits) False"
    using to_bits_shift [of bits "t - bits" acc] inv by simp
  then have "bits \<noteq> 0 \<Longrightarrow> t - bits < t \<and>
      concat (map (to_bits f) vs) @ replicate (t - bits) False = concat (map (to_bits t) out)"
    using inv by (simp add: out to_bits_mask)
  moreover have "bits = 0 \<Longrightarrow>
      concat (map (to_bits f) vs) @ replicate 0 False = concat (map (to_bits t) out)"
    using inv by (simp add: out)
  ultimately show "\<exists>k < t. concat (map (to_bits f) vs) @ replicate k False = concat (map (to_bits t) out)"
    using assms(1) by (cases "bits = 0") blast+
qed

lemma ConvertBits_strict:
  assumes "0 < t" "\<forall>v \<in> set vs. v < 2 ^ f" "ConvertBits f t False vs = (out, ok)"
  shows "\<exists>rest. concat (map (to_bits f) vs) = concat (map (to_bits t) out) @ rest \<and>
      length rest < t \<and> ok = (length rest < f \<and> rest = replicate (length rest) False)"
    and "\<forall>v \<in> set out. v < 2 ^ t"
proof -
  obtain o1 acc bits where l: "cb_loop f t 0 0 vs = (o1, acc, bits)" by (metis prod_cases3)
  note inv = cb_loop_bits [OF l assms(1) assms(1) assms(2)]
  have out: "out = o1" "ok = (\<not> (bits \<ge> f \<or> push_bit (t - bits) acc AND mask t \<noteq> 0))"
    using assms(3) l by (simp_all add: ConvertBits_def Let_def)
  show "\<forall>v \<in> set out. v < 2 ^ t" using inv by (simp add: out)
  have "(push_bit (t - bits) acc AND mask t = 0)
      = (to_bits t (push_bit (t - bits) acc AND mask t) = replicate t False)"
    using to_bits_zero_iff [OF and_mask_less] by simp
  also have "\<dots> = (to_bits bits acc @ replicate (t - bits) False = replicate bits False @ replicate (t - bits) False)"
    using to_bits_shift [of bits "t - bits" acc] inv
    by (simp add: to_bits_mask flip: replicate_add)
  finally have "(push_bit (t - bits) acc AND mask t = 0) = (to_bits bits acc = replicate bits False)"
    by simp
  then have "concat (map (to_bits f) vs) = concat (map (to_bits t) out) @ to_bits bits acc \<and>
      length (to_bits bits acc) < t \<and>
      ok = (length (to_bits bits acc) < f \<and> to_bits bits acc = replicate (length (to_bits bits acc)) False)"
    using inv by (auto simp: out)
  then show "\<exists>rest. concat (map (to_bits f) vs) = concat (map (to_bits t) out) @ rest \<and>
      length rest < t \<and> ok = (length rest < f \<and> rest = replicate (length rest) False)" by blast
qed

lemma to_bits_concat_inj:
  assumes "concat (map (to_bits k) xs) @ r = concat (map (to_bits k) ys) @ s"
    "length xs = length ys" "\<forall>v \<in> set xs. v < 2 ^ k" "\<forall>v \<in> set ys. v < 2 ^ k"
  shows "xs = ys \<and> r = s"
  using assms(2,1,3,4)
proof (induction xs ys rule: list_induct2)
  case (Cons x xs y ys)
  then show ?case using to_bits_inj [of x k y] by auto
qed simp

lemma length_concat_to_bits [len_simps]: "length (concat (map (to_bits k) xs)) = k * length xs"
  by (induction xs) simp_all

text \<open>Decoding what encoding produced, and conversely.\<close>

lemma ConvertBits_roundtrip:
  assumes "0 < t" "t < 8" "\<forall>v \<in> set vs. v < 2 ^ 8"
  shows "ConvertBits t 8 False (fst (ConvertBits 8 t True vs)) = (vs, True)"
proof -
  obtain out ok where e: "ConvertBits 8 t True vs = (out, ok)" by fastforce
  obtain ret valid where d: "ConvertBits t 8 False out = (ret, valid)" by fastforce
  obtain k where k: "k < t" "concat (map (to_bits 8) vs) @ replicate k False = concat (map (to_bits t) out)"
    using ConvertBits_pad(1) [OF assms(1,3) e] by blast
  note o = ConvertBits_pad(2) [OF assms(1,3) e]
  obtain rest where r: "concat (map (to_bits t) out) = concat (map (to_bits 8) ret) @ rest"
      "length rest < 8" "valid = (length rest < t \<and> rest = replicate (length rest) False)"
    using ConvertBits_strict(1) [OF _ o d] by auto
  have eq: "concat (map (to_bits 8) vs) @ replicate k False = concat (map (to_bits 8) ret) @ rest"
    using k r by simp
  have "8 * length vs + k = 8 * length ret + length rest"
    using arg_cong [OF eq, of length] by (simp add: length_concat_to_bits del: length_concat)
  moreover from this have "length vs = length ret"
    using k(1) assms(2) r(2) by linarith
  ultimately have "length vs = length ret" "length rest = k" by simp_all
  then have "vs = ret \<and> replicate k False = rest"
    using to_bits_concat_inj [OF eq] assms(3) ConvertBits_strict(2) [OF _ o d] by simp
  then show ?thesis using e d r(3) k(1) by auto
qed

lemma ConvertBits_canonical:
  assumes "0 < t" "t < 8" "\<forall>v \<in> set vs. v < 2 ^ t" "ConvertBits t 8 False vs = (ret, True)"
  shows "fst (ConvertBits 8 t True ret) = vs"
proof -
  obtain out ok where e: "ConvertBits 8 t True ret = (out, ok)" by fastforce
  obtain rest where r: "concat (map (to_bits t) vs) = concat (map (to_bits 8) ret) @ rest"
      "length rest < t" "rest = replicate (length rest) False"
    using ConvertBits_strict(1) [OF _ assms(3,4)] by auto
  have rb: "\<forall>v \<in> set ret. v < 2 ^ 8" using ConvertBits_strict(2) [OF _ assms(3,4)] by simp
  obtain k where k: "k < t" "concat (map (to_bits 8) ret) @ replicate k False = concat (map (to_bits t) out)"
    using ConvertBits_pad(1) [OF assms(1) rb e] by blast
  have lv: "t * length vs = 8 * length ret + length rest" and lo: "8 * length ret + k = t * length out"
    using arg_cong [OF r(1), of length] arg_cong [OF k(2), of length] by (simp_all add: len_simps del: length_concat)
  have "t * length vs = t * length out"
  proof (rule ccontr)
    assume n: "t * length vs \<noteq> t * length out"
    then have "length vs < length out \<or> length out < length vs" by (metis linorder_neqE_nat)
    then have "t * length vs + t \<le> t * length out \<or> t * length out + t \<le> t * length vs"
      by (metis Suc_leI mult_Suc_right mult_le_mono2 add.commute)
    then show False using lv lo k(1) r(2) by linarith
  qed
  then have l: "length vs = length out" and "length rest = k" using assms(1) lv lo by simp_all
  then have "concat (map (to_bits t) vs) @ [] = concat (map (to_bits t) out) @ []"
    using r(1,3) k(2) by simp
  then have "vs = out"
    using to_bits_concat_inj [OF _ l] assms(3) ConvertBits_pad(2) [OF assms(1) rb e] by blast
  then show ?thesis using e by simp
qed


subsection \<open>The text around the digits\<close>

lemma pad_eq_replicate:
  "0 < g \<Longrightarrow> pad_eq g str = str @ replicate ((g - length str mod g) mod g) CHR ''=''"
proof (induction g str rule: pad_eq.induct)
  case (1 g str)
  show ?case
  proof (cases "length str mod g = 0")
    case True
    then show ?thesis by (simp add: pad_eq.simps [of g str])
  next
    case False
    let ?r = "length str mod g"
    have r: "?r < g" using 1(2) by simp
    have "(g - Suc (length str) mod g) mod g + 1 = (g - ?r) mod g"
      using False r by (auto simp: mod_Suc)
    then show ?thesis
      using 1 False by (simp add: pad_eq.simps [of g str] flip: replicate_Suc)
  qed
qed

lemma skip_eq_replicate: "skip_eq (replicate n CHR ''='') = (n, True)"
  by (induction n) simp_all

lemma skip_eq_valid: "skip_eq p = (n, True) \<Longrightarrow> p = replicate n CHR ''=''"
  by (induction p arbitrary: n) (auto split: if_splits prod.splits)

lemma c_str_no_NUL: "NUL \<notin> set (c_str s)"
  by (auto simp: c_str_def dest: set_takeWhileD)

lemma pad_length_unique:
  assumes "(l + n) mod g = 0" "n < (g :: nat)"
  shows "n = (g - l mod g) mod g"
proof -
  have "(l mod g + n) mod g = 0" using assms(1) by (simp add: mod_add_left_eq)
  moreover have "l mod g < g" using assms(2) by (intro mod_less_divisor) simp
  ultimately show ?thesis using assms(2)
    by (cases "l mod g + n < g") (auto simp: le_mod_geq)
qed

lemma pad_length_fits:
  assumes "0 < (g :: nat)"
  shows "(l + (g - l mod g) mod g) mod g = 0" "(g - l mod g) mod g < g"
proof -
  show "(g - l mod g) mod g < g" using assms by simp
  have "(l + (g - l mod g) mod g) mod g = (l mod g + (g - l mod g)) mod g"
    by (simp add: mod_add_left_eq mod_add_right_eq)
  also have "l mod g + (g - l mod g) = g"
    using assms mod_less_divisor [OF assms, of l] by simp
  finally show "(l + (g - l mod g) mod g) mod g = 0" by simp
qed

text \<open>The two codecs at their parameters.\<close>

definition base_encode :: "nat \<Rightarrow> nat \<Rightarrow> string \<Rightarrow> u8 list \<Rightarrow> string" where
  "base_encode t g digits pch =
     pad_eq g (map (\<lambda>v. digits ! v) (fst (ConvertBits 8 t True (map unat pch))))"

definition base_decode :: "nat \<Rightarrow> nat \<Rightarrow> int list \<Rightarrow> string \<Rightarrow> u8 list \<times> bool" where
  "base_decode t g table s =
     (let (val, q) = read_digits table (c_str s);
          (ret, valid) = ConvertBits t 8 False val;
          (n, valid) = (if valid then skip_eq q else (0, False));
          valid = (valid \<and> (length val + n) mod g = 0 \<and> n < g)
      in (map of_nat ret, valid))"

text \<open>
  The contract between the two tables of a codec: each digit is read as its value, every
  readable character is a digit up to \<open>fold\<close> (the identity, or lower case), and the
  padding character is not a digit.
\<close>

locale base_codec =
  fixes t g :: nat and digits :: string and table :: "int list" and fold :: "char \<Rightarrow> char"
  assumes width: "0 < t" "t < 8" "0 < g"
    and table_digit: "v < 2 ^ t \<Longrightarrow> table ! of_char (digits ! v) = int v"
    and digit_table: "table ! of_char c \<noteq> - 1 \<Longrightarrow>
          \<exists>v < 2 ^ t. table ! of_char c = int v \<and> digits ! v = fold c"
    and table_fold: "table ! of_char (fold c) = table ! of_char c"
    and eq_no_digit: "table ! of_char (CHR ''='') = - 1"
    and fold_eq: "fold c = CHR ''='' \<longleftrightarrow> c = CHR ''=''"
begin

lemma read_digits_inverse:
  "read_digits table s = (val, q) \<Longrightarrow>
     \<exists>p. s = p @ q \<and> map fold p = map (\<lambda>v. digits ! v) val \<and> (\<forall>v \<in> set val. v < 2 ^ t)"
proof (induction s arbitrary: val)
  case (Cons c s)
  show ?case
  proof (cases "table ! of_char c = - 1")
    case True
    then show ?thesis using Cons.prems by (auto intro: exI [of _ "[]"])
  next
    case False
    obtain val' where r: "read_digits table s = (val', q)"
      and v: "val = nat (table ! of_char c) # val'"
      using Cons.prems False by (auto simp: Let_def split: prod.splits)
    obtain p where "s = p @ q" "map fold p = map (\<lambda>v. digits ! v) val'" "\<forall>v \<in> set val'. v < 2 ^ t"
      using Cons.IH [OF r] by blast
    moreover obtain d where "d < 2 ^ t" "table ! of_char c = int d" "digits ! d = fold c"
      using digit_table [OF False] by blast
    ultimately show ?thesis by (intro exI [of _ "c # p"]) (simp add: v)
  qed
qed simp

lemma read_digits_encoded:
  "map fold p = map (\<lambda>v. digits ! v) val \<Longrightarrow> \<forall>v \<in> set val. v < 2 ^ t \<Longrightarrow>
     read_digits table (p @ replicate n CHR ''='') = (val, replicate n CHR ''='')"
proof (induction val arbitrary: p)
  case Nil
  then show ?case using eq_no_digit by (cases n) (simp_all add: Let_def)
next
  case (Cons v val)
  obtain c p' where p: "p = c # p'" "fold c = digits ! v" "map fold p' = map (\<lambda>v. digits ! v) val"
    using Cons.prems(1) by auto
  have "table ! of_char c = int v"
    using table_fold [of c] table_digit [of v] Cons.prems(2) by (simp add: p(2))
  then show ?case using Cons.IH [OF p(3)] Cons.prems(2) by (simp add: p(1) Let_def)
qed

lemma map_fold_eq: "map fold q = replicate n CHR ''='' \<longleftrightarrow> q = replicate n CHR ''=''"
  unfolding list_eq_iff_nth_eq by (auto simp: fold_eq)

lemma decode_iff:
  "base_decode t g table s = (bs, True) \<longleftrightarrow> map fold (c_str s) = base_encode t g digits bs"
proof
  assume d: "base_decode t g table s = (bs, True)"
  obtain val q where r: "read_digits table (c_str s) = (val, q)" by fastforce
  obtain ret valid where c: "ConvertBits t 8 False val = (ret, valid)" by fastforce
  obtain n v where k: "skip_eq q = (n, v)" by fastforce
  have valid using d by (cases valid) (simp_all add: base_decode_def r c)
  then have q: "skip_eq q = (n, True)" "valid" "(length val + n) mod g = 0" "n < g"
      and bs: "bs = map of_nat ret"
    using d by (simp_all add: base_decode_def r c k)
  obtain p where p: "c_str s = p @ q" "map fold p = map (\<lambda>v. digits ! v) val" "\<forall>v \<in> set val. v < 2 ^ t"
    using read_digits_inverse [OF r] by blast
  have "\<forall>v \<in> set ret. v < 2 ^ 8" using ConvertBits_strict(2) [OF _ p(3) c] by simp
  then have u: "map unat bs = ret"
    by (simp add: bs comp_def unat_of_nat map_idI)
  have "fst (ConvertBits 8 t True (map unat bs)) = val"
    using ConvertBits_canonical [OF width(1,2) p(3)] c q(2) by (simp add: u)
  then have "base_encode t g digits bs =
      map (\<lambda>v. digits ! v) val @ replicate ((g - length val mod g) mod g) CHR ''=''"
    by (simp add: base_encode_def pad_eq_replicate width)
  then show "map fold (c_str s) = base_encode t g digits bs"
    using p skip_eq_valid [OF q(1)] pad_length_unique [OF q(3,4)] fold_eq by simp
next
  assume e: "map fold (c_str s) = base_encode t g digits bs"
  let ?val = "fst (ConvertBits 8 t True (map unat bs))"
  let ?n = "(g - length ?val mod g) mod g"
  have bytes: "\<forall>v \<in> set (map unat bs). v < 2 ^ 8" using unat_bound [where 'a = 8] by auto
  have vs: "\<forall>v \<in> set ?val. v < 2 ^ t"
    using ConvertBits_pad(2) [OF width(1) bytes] by (metis prod.collapse)
  have "map fold (c_str s) = map (\<lambda>v. digits ! v) ?val @ replicate ?n CHR ''=''"
    using e by (simp add: base_encode_def pad_eq_replicate width)
  then obtain p q where p: "c_str s = p @ q" "map (\<lambda>v. digits ! v) ?val = map fold p"
      "map fold q = replicate ?n CHR ''=''"
    unfolding map_eq_append_conv by metis
  then have "read_digits table (c_str s) = (?val, replicate ?n CHR ''='')"
    using read_digits_encoded [OF p(2) [symmetric] vs] by (simp add: map_fold_eq)
  then show "base_decode t g table s = (bs, True)"
    using ConvertBits_roundtrip [OF width(1,2) bytes] pad_length_fits [OF width(3), of "length ?val"]
    by (simp add: base_decode_def Let_def skip_eq_replicate comp_def)
qed

end


subsection \<open>The two codecs\<close>

definition to_lower :: "char \<Rightarrow> char" where
  "to_lower c = (if of_char c \<in> {65..<91 :: nat} then char_of (of_char c + 32 :: nat) else c)"

lemma of_char_less: "of_char c < (256 :: nat)"
  by simp

lemma pbase64_chars: "pbase64 = map char_of ([65..<91] @ [97..<123] @ [48..<58] @ [43, 47 :: nat])"
  by code_simp

lemma pbase32_chars: "pbase32 = map char_of ([97..<123] @ [50..<56 :: nat])"
  by code_simp

lemma decode64_at:
  assumes "n < 256"
  shows "decode64_table ! n =
     (if 65 \<le> n \<and> n < 91 then int (n - 65) else if 97 \<le> n \<and> n < 123 then int (n - 71)
      else if 48 \<le> n \<and> n < 58 then int (n + 4) else if n = 43 then 62 else if n = 47 then 63 else - 1)"
proof -
  consider "n < 43" | "n = 43" | "43 < n \<and> n < 47" | "n = 47" | "47 < n \<and> n < 58"
    | "58 \<le> n \<and> n < 65" | "65 \<le> n \<and> n < 91" | "91 \<le> n \<and> n < 97" | "97 \<le> n \<and> n < 123" | "123 \<le> n"
    by linarith
  then show ?thesis
    using assms
    by cases (simp_all add: decode64_table_def nth_append less_diff_conv2 del: upt_rec_numeral)
qed

lemma decode32_at:
  "n < 256 \<Longrightarrow> decode32_table ! n =
     (if 65 \<le> n \<and> n < 91 then int (n - 65) else if 97 \<le> n \<and> n < 123 then int (n - 97)
      else if 50 \<le> n \<and> n < 56 then int (n - 24) else - 1)"
  by (auto simp: decode32_table_def nth_append simp del: upt_rec_numeral)

lemma of_char_pbase64: "v < 64 \<Longrightarrow> of_char (pbase64 ! v) =
    (if v < 26 then v + 65 else if v < 52 then v + 71 else if v < 62 then v - 4 else if v = 62 then 43 else 47 :: nat)"
  by (auto simp: pbase64_chars nth_append less_Suc_eq nth_Cons' simp del: upt_rec_numeral)

lemma of_char_pbase32: "v < 32 \<Longrightarrow> of_char (pbase32 ! v) = (if v < 26 then v + 97 else v + 24 :: nat)"
  by (auto simp: pbase32_chars nth_append simp del: upt_rec_numeral)

lemma char_eq_of_char: "c = d \<longleftrightarrow> of_char c = (of_char d :: nat)"
  by (metis char_of_char)

interpretation b64: base_codec 6 4 pbase64 decode64_table "\<lambda>c. c"
proof unfold_locales
  show "decode64_table ! of_char (pbase64 ! v) = int v" if "v < 2 ^ 6" for v
    using that by (auto simp: of_char_pbase64 decode64_at)
  show "\<exists>v < 2 ^ 6. decode64_table ! of_char c = int v \<and> pbase64 ! v = c"
    if "decode64_table ! of_char c \<noteq> - 1" for c
    using that
    by (intro exI [of _ "nat (decode64_table ! of_char c)"])
      (auto simp: decode64_at char_eq_of_char of_char_pbase64 simp del: of_char_eq_iff split: if_splits)
  show "decode64_table ! of_char (CHR ''='') = - 1" by (simp add: decode64_at)
qed simp_all

lemma of_char_to_lower:
  "of_char (to_lower c) = (if of_char c \<in> {65..<91 :: nat} then of_char c + 32 else of_char c :: nat)"
  by (simp add: to_lower_def)

interpretation b32: base_codec 5 8 pbase32 decode32_table to_lower
proof unfold_locales
  show "decode32_table ! of_char (pbase32 ! v) = int v" if "v < 2 ^ 5" for v
    using that by (auto simp: of_char_pbase32 decode32_at)
  show "\<exists>v < 2 ^ 5. decode32_table ! of_char c = int v \<and> pbase32 ! v = to_lower c"
    if "decode32_table ! of_char c \<noteq> - 1" for c
    using that
    by (intro exI [of _ "nat (decode32_table ! of_char c)"])
      (auto simp: decode32_at char_eq_of_char of_char_pbase32 of_char_to_lower simp del: of_char_eq_iff split: if_splits)
  show "decode32_table ! of_char (CHR ''='') = - 1" by (simp add: decode32_at)
  show "decode32_table ! of_char (to_lower c) = decode32_table ! of_char c" for c
    by (auto simp: decode32_at of_char_to_lower)
  show "to_lower c = CHR ''='' \<longleftrightarrow> c = CHR ''=''" for c
    by (auto simp: char_eq_of_char of_char_to_lower simp del: of_char_eq_iff)
qed simp_all

text \<open>
  C27. Base-64 text. \<open>DecodeBase64\<close> reports a text as valid and returns the bytes
  \<open>bs\<close> exactly when the text, up to its first NUL, is the text \<open>EncodeBase64\<close>
  prints for \<open>bs\<close>: decoding inverts encoding, and no other text of the same bytes is
  valid (wrong length, missing or excess padding, non-zero spare bits).
\<close>

theorem base64_canonical:
  "DecodeBase64 s = (bs, True) \<longleftrightarrow> c_str s = EncodeBase64 bs"
  using b64.decode_iff [of s bs]
  by (simp add: DecodeBase64_def EncodeBase64_def base_decode_def base_encode_def)

text \<open>
  Base-32 text. \<open>DecodeBase32\<close> reports a text as valid and returns the bytes
  \<open>bs\<close> exactly when the text, up to its first NUL and with its capital letters made
  small, is the text \<open>EncodeBase32\<close> prints for \<open>bs\<close>.
\<close>

theorem base32_canonical:
  "DecodeBase32 s = (bs, True) \<longleftrightarrow> map to_lower (c_str s) = EncodeBase32 bs"
  using b32.decode_iff [of s bs]
  by (simp add: DecodeBase32_def EncodeBase32_def base_decode_def base_encode_def)

end
