(* ===== verification/Str_Num.thy ===== *)
theory Str_Num
  imports Str_Hex "HOL-Library.Monad_Syntax"
begin

text \<open>
  Decimal text (bryllite-core/utilstrencodings.cpp, lines 264-352 and 395-545):
  the strict integer parsers over \<open>strtol\<close> and its relatives, printing, and the
  fixed-point parser. The C library's functions are modelled on the part of the string
  before the first NUL; \<open>long\<close> has a width of its own, because it differs between
  platforms.
\<close>

subsection \<open>The library's conversions\<close>

definition is_digit :: "char \<Rightarrow> bool" where
  "is_digit c \<longleftrightarrow> of_char c \<in> {48..<58 :: nat}"

definition digit_value :: "char \<Rightarrow> nat" where
  "digit_value c = of_char c - 48"

fun digits_value :: "nat \<Rightarrow> string \<Rightarrow> nat" where
  "digits_value acc [] = acc"
| "digits_value acc (c # cs) = digits_value (10 * acc + digit_value c) cs"

fun split_sign :: "string \<Rightarrow> bool \<times> string" where
  "split_sign [] = (False, [])"
| "split_sign (c # cs) =
     (if c = CHR ''-'' then (True, cs) else if c = CHR ''+'' then (False, cs) else (False, c # cs))"

text \<open>
  \<open>strtol\<close> to base ten for a type with the values \<open>lo\<close> to \<open>hi\<close>: the
  value, the text at \<open>endp\<close>, and whether \<open>errno\<close> is set.
\<close>

definition strtol :: "int \<Rightarrow> int \<Rightarrow> string \<Rightarrow> int \<times> string \<times> bool" where
  "strtol lo hi s =
     (let (neg, p) = split_sign (dropWhile isspace s);
          ds = takeWhile is_digit p;
          rest = dropWhile is_digit p;
          n = (if neg then - int (digits_value 0 ds) else int (digits_value 0 ds))
      in if ds = [] then (0, s, False)
         else if n < lo then (lo, rest, True)
         else if n > hi then (hi, rest, True)
         else (n, rest, False))"

text \<open>\<open>strtoul\<close> for a width of \<open>w\<close> bits; a minus sign negates modulo \<open>2 ^ w\<close>.\<close>

definition strtoul :: "nat \<Rightarrow> string \<Rightarrow> int \<times> string \<times> bool" where
  "strtoul w s =
     (let (neg, p) = split_sign (dropWhile isspace s);
          ds = takeWhile is_digit p;
          rest = dropWhile is_digit p;
          n = int (digits_value 0 ds)
      in if ds = [] then (0, s, False)
         else if n \<ge> 2 ^ w then (2 ^ w - 1, rest, True)
         else (if neg then (- n) mod 2 ^ w else n, rest, False))"

subsection \<open>The strict parsers\<close>

definition ParsePrechecks :: "string \<Rightarrow> bool" where
  "ParsePrechecks str =
     (if str = [] then False
      else if length str \<ge> 1 \<and> (isspace (hd str) \<or> isspace (last str)) then False
      else if length str \<noteq> length (c_str str) then False
      else True)"

text \<open>
  A parser returns what it stores through \<open>out\<close> (\<open>None\<close>: nothing) and its result;
  the width of \<open>long\<close> comes first where the code calls \<open>strtol\<close> or \<open>strtoul\<close>.
\<close>

definition ParseInt32 :: "nat \<Rightarrow> string \<Rightarrow> u32 option \<times> bool" where
  "ParseInt32 long_bits str =
     (if \<not> ParsePrechecks str then (None, False)
      else let (n, endp, errno) = strtol (- (2 ^ (long_bits - 1))) (2 ^ (long_bits - 1) - 1) (c_str str)
           in (Some (of_int n), endp = [] \<and> \<not> errno \<and> n \<ge> - (2 ^ 31) \<and> n \<le> 2 ^ 31 - 1))"

definition ParseInt64 :: "string \<Rightarrow> u64 option \<times> bool" where
  "ParseInt64 str =
     (if \<not> ParsePrechecks str then (None, False)
      else let (n, endp, errno) = strtol (- (2 ^ 63)) (2 ^ 63 - 1) (c_str str)
           in (Some (of_int n), endp = [] \<and> \<not> errno \<and> n \<ge> - (2 ^ 63) \<and> n \<le> 2 ^ 63 - 1))"

definition ParseUInt32 :: "nat \<Rightarrow> string \<Rightarrow> u32 option \<times> bool" where
  "ParseUInt32 long_bits str =
     (if \<not> ParsePrechecks str then (None, False)
      else if length str \<ge> 1 \<and> hd str = CHR ''-'' then (None, False)
      else let (n, endp, errno) = strtoul long_bits (c_str str)
           in (Some (of_int n), endp = [] \<and> \<not> errno \<and> n \<le> 2 ^ 32 - 1))"

definition ParseUInt64 :: "string \<Rightarrow> u64 option \<times> bool" where
  "ParseUInt64 str =
     (if \<not> ParsePrechecks str then (None, False)
      else if length str \<ge> 1 \<and> hd str = CHR ''-'' then (None, False)
      else let (n, endp, errno) = strtoul 64 (c_str str)
           in (Some (of_int n), endp = [] \<and> \<not> errno \<and> n \<le> 2 ^ 64 - 1))"

text \<open>
  Reading a \<open>double\<close> from a stream is a parameter: the value, and the stream's
  \<open>eof\<close> and \<open>fail\<close> flags afterwards.
\<close>

definition ParseDouble :: "(string \<Rightarrow> 'd \<times> bool \<times> bool) \<Rightarrow> string \<Rightarrow> 'd option \<times> bool" where
  "ParseDouble read_double str =
     (if \<not> ParsePrechecks str then (None, False)
      else if length str \<ge> 2 \<and> str ! 0 = CHR ''0'' \<and> str ! 1 = CHR ''x'' then (None, False)
      else let (result, eof, fail) = read_double str in (Some result, eof \<and> \<not> fail))"

subsection \<open>Printing\<close>

fun nat_text :: "nat \<Rightarrow> string" where
  "nat_text n = (if n < 10 then [char_of (48 + n)] else nat_text (n div 10) @ [char_of (48 + n mod 10)])"

declare nat_text.simps [simp del]

definition i64tostr :: "u64 \<Rightarrow> string" where
  "i64tostr n = (if sint n < 0 then CHR ''-'' # nat_text (nat (- sint n)) else nat_text (nat (sint n)))"

definition itostr :: "u32 \<Rightarrow> string" where
  "itostr n = (if sint n < 0 then CHR ''-'' # nat_text (nat (- sint n)) else nat_text (nat (sint n)))"

definition atoi64 :: "string \<Rightarrow> u64" where
  "atoi64 str = of_int (fst (strtol (- (2 ^ 63)) (2 ^ 63 - 1) (c_str str)))"

text \<open>\<open>atoi\<close> of a value that is no \<open>int\<close> is undefined behaviour: \<open>None\<close>.\<close>

definition atoi :: "string \<Rightarrow> u32 option" where
  "atoi str =
     (let (n, endp, errno) = strtol (- (2 ^ 31)) (2 ^ 31 - 1) (c_str str)
      in if errno then None else Some (of_int n))"

subsection \<open>What the strict parsers accept\<close>

text \<open>An optional sign and at least one digit, and nothing else.\<close>

definition decimal :: "string \<Rightarrow> int option" where
  "decimal s =
     (let (neg, ds) = split_sign s
      in if ds \<noteq> [] \<and> list_all is_digit ds
         then Some (if neg then - int (digits_value 0 ds) else int (digits_value 0 ds)) else None)"

lemma digit_not_space: "is_digit c \<Longrightarrow> \<not> isspace c"
  by (auto simp: is_digit_def isspace_def)

lemma digit_not_NUL: "is_digit c \<Longrightarrow> c \<noteq> NUL"
  by (auto simp: is_digit_def NUL_def)

lemma takeWhile_all: "(takeWhile P p \<noteq> [] \<and> dropWhile P p = []) \<longleftrightarrow> (p \<noteq> [] \<and> list_all P p)"
  by (cases p) (auto simp: list_all_iff)

lemma takeWhile_list_all: "list_all P p \<Longrightarrow> takeWhile P p = p \<and> dropWhile P p = []"
  by (induction p) auto

lemma decimal_prechecks:
  assumes "decimal s = Some n"
  shows "ParsePrechecks s" "c_str s = s" "dropWhile isspace s = s"
proof -
  obtain neg ds where s: "split_sign s = (neg, ds)" "ds \<noteq> []" "list_all is_digit ds"
    using assms by (auto simp: decimal_def split: if_splits prod.splits)
  then obtain sg where sg: "s = sg @ ds" "sg = [] \<or> sg = ''-'' \<or> sg = ''+''"
    by (cases s) (auto split: if_splits)
  have "NUL \<notin> set s" using sg s(3) digit_not_NUL by (auto simp: list_all_iff NUL_def)
  then show c: "c_str s = s" by (rule c_str_id)
  have "last s \<in> set ds" using sg(1) s(2) by simp
  then have l: "\<not> isspace (last s)" using s(3) digit_not_space by (auto simp: list_all_iff)
  have "is_digit (hd ds)" using s(2,3) by (cases ds) simp_all
  moreover have "hd s = hd ds \<or> hd s = CHR ''-'' \<or> hd s = CHR ''+''" using sg by auto
  moreover have "\<not> isspace (CHR ''-'')" "\<not> isspace (CHR ''+'')" by (simp_all add: isspace_def)
  ultimately have h: "\<not> isspace (hd s)" using digit_not_space [of "hd ds"] by metis
  have n: "s \<noteq> []" using sg(1) s(2) by simp
  show "ParsePrechecks s" using h l n c by (simp add: ParsePrechecks_def)
  show "dropWhile isspace s = s" using h n by (cases s) simp_all
qed

lemma takeWhile_full_length: "length (takeWhile P s) = length s \<Longrightarrow> takeWhile P s = s"
  by (induction s) (simp_all split: if_splits)

lemma prechecksD:
  assumes "ParsePrechecks s"
  shows "c_str s = s" "dropWhile isspace s = s" "s \<noteq> []"
proof -
  have "length s = length (c_str s)" "\<not> isspace (hd s)" and n: "s \<noteq> []"
    using assms by (auto simp: ParsePrechecks_def Suc_le_eq split: if_splits)
  show "c_str s = s"
    using \<open>length s = length (c_str s)\<close> unfolding c_str_def by (metis takeWhile_full_length)
  show "dropWhile isspace s = s" using \<open>\<not> isspace (hd s)\<close> n by (cases s) simp_all
  show "s \<noteq> []" by (rule n)
qed

lemma strtol_strict:
  assumes "strtol lo hi s = (n, endp, errno)" "dropWhile isspace s = s" "s \<noteq> []"
  shows "decimal s = Some m \<and> lo \<le> m \<and> m \<le> hi \<longleftrightarrow> endp = [] \<and> \<not> errno \<and> n = m"
proof -
  obtain neg p where p: "split_sign s = (neg, p)" by fastforce
  show ?thesis
  proof (cases "p \<noteq> [] \<and> list_all is_digit p")
    case True
    then have tw: "takeWhile is_digit p = p" "dropWhile is_digit p = []"
      by (simp_all only: takeWhile_list_all)
    show ?thesis
      using assms(1) True by (auto simp: tw strtol_def assms(2) p decimal_def Let_def split: if_splits)
  next
    case False
    then have "takeWhile is_digit p = [] \<or> dropWhile is_digit p \<noteq> []" using takeWhile_all by blast
    then show ?thesis
      using assms(1,3) False by (auto simp: strtol_def assms(2) p decimal_def Let_def split: if_splits)
  qed
qed

lemma strtoul_strict:
  assumes "strtoul w s = (n, endp, errno)" "dropWhile isspace s = s" "s \<noteq> []" "hd s \<noteq> CHR ''-''"
  shows "decimal s = Some m \<and> m < 2 ^ w \<longleftrightarrow> endp = [] \<and> \<not> errno \<and> n = m"
proof -
  obtain p where p: "split_sign s = (False, p)" using assms(3,4)
    by (cases s; cases "hd s = CHR ''+''") auto
  show ?thesis
  proof (cases "p \<noteq> [] \<and> list_all is_digit p")
    case True
    then have tw: "takeWhile is_digit p = p" "dropWhile is_digit p = []"
      by (simp_all only: takeWhile_list_all)
    have "2 ^ w \<le> digits_value 0 p \<Longrightarrow> (2 :: int) ^ w \<le> int (digits_value 0 p)"
      by (metis of_nat_le_iff of_nat_numeral of_nat_power)
    then show ?thesis
      using assms(1) True by (auto simp: tw strtoul_def assms(2) p decimal_def Let_def split: if_splits)
  next
    case False
    then have "takeWhile is_digit p = [] \<or> dropWhile is_digit p \<noteq> []" using takeWhile_all by blast
    then show ?thesis
      using assms(1,3) False by (auto simp: strtoul_def assms(2) p decimal_def Let_def split: if_splits)
  qed
qed

lemma ParseInt32_accepts:
  assumes "32 \<le> W"
  shows "ParseInt32 W s = (Some w, True) \<longleftrightarrow>
    (\<exists>n. decimal s = Some n \<and> - (2 ^ 31) \<le> n \<and> n < 2 ^ 31 \<and> w = of_int n)"
proof (cases "ParsePrechecks s")
  case True
  note d = prechecksD [OF this]
  obtain n endp errno
    where r: "strtol (- (2 ^ (W - 1))) (2 ^ (W - 1) - 1) s = (n, endp, errno)" by (metis prod_cases3)
  have "(2 :: int) ^ 31 \<le> 2 ^ (W - 1)" using assms by (intro power_increasing) simp_all
  then show ?thesis
    using strtol_strict [OF r d(2,3)] True by (simp add: ParseInt32_def d(1) r [simplified]) (smt (verit, best))
next
  case False
  then show ?thesis using decimal_prechecks(1) by (auto simp: ParseInt32_def)
qed

lemma ParseInt64_accepts:
  "ParseInt64 s = (Some w, True) \<longleftrightarrow>
    (\<exists>n. decimal s = Some n \<and> - (2 ^ 63) \<le> n \<and> n < 2 ^ 63 \<and> w = of_int n)"
proof (cases "ParsePrechecks s")
  case True
  note d = prechecksD [OF this]
  obtain n endp errno
    where r: "strtol (- (2 ^ 63)) (2 ^ 63 - 1) s = (n, endp, errno)" by (metis prod_cases3)
  show ?thesis
    using strtol_strict [OF r d(2,3)] True by (simp add: ParseInt64_def d(1) r [simplified]) (smt (verit, best))
next
  case False
  then show ?thesis using decimal_prechecks(1) by (auto simp: ParseInt64_def)
qed

text \<open>No text that starts with a minus sign is accepted, not even \<open>-0\<close>.\<close>

lemma ParseUInt32_accepts:
  assumes "32 \<le> W"
  shows "ParseUInt32 W s = (Some w, True) \<longleftrightarrow>
    (\<exists>n. decimal s = Some n \<and> hd s \<noteq> CHR ''-'' \<and> n < 2 ^ 32 \<and> w = of_int n)"
proof (cases "ParsePrechecks s \<and> hd s \<noteq> CHR ''-''")
  case True
  note d = prechecksD [OF conjunct1 [OF True]]
  obtain n endp errno where r: "strtoul W s = (n, endp, errno)" by (metis prod_cases3)
  have "(2 :: int) ^ 32 \<le> 2 ^ W" using assms by (intro power_increasing) simp_all
  then show ?thesis
    using strtoul_strict [OF r d(2,3) conjunct2 [OF True]] True d(3)
    by (simp add: ParseUInt32_def d(1) r [simplified] Suc_le_eq) (smt (verit, best))
next
  case False
  then show ?thesis
    using decimal_prechecks(1) [of s] prechecksD(3) [of s] by (auto simp: ParseUInt32_def Suc_le_eq)
qed

lemma ParseUInt64_accepts:
  "ParseUInt64 s = (Some w, True) \<longleftrightarrow>
    (\<exists>n. decimal s = Some n \<and> hd s \<noteq> CHR ''-'' \<and> n < 2 ^ 64 \<and> w = of_int n)"
proof (cases "ParsePrechecks s \<and> hd s \<noteq> CHR ''-''")
  case True
  note d = prechecksD [OF conjunct1 [OF True]]
  obtain n endp errno where r: "strtoul 64 s = (n, endp, errno)" by (metis prod_cases3)
  show ?thesis
    using strtoul_strict [OF r d(2,3) conjunct2 [OF True]] True d(3)
    by (simp add: ParseUInt64_def d(1) r [simplified] Suc_le_eq) (smt (verit, best))
next
  case False
  then show ?thesis
    using decimal_prechecks(1) [of s] prechecksD(3) [of s] by (auto simp: ParseUInt64_def Suc_le_eq)
qed

subsection \<open>Round trips\<close>

lemma is_digit_char: "d < 10 \<Longrightarrow> is_digit (char_of (48 + d)) \<and> digit_value (char_of (48 + d)) = d"
  by (simp add: is_digit_def digit_value_def)

lemma digits_value_append: "digits_value acc (xs @ ys) = digits_value (digits_value acc xs) ys"
  by (induction xs arbitrary: acc) simp_all

lemma nat_text_digits:
  "nat_text n \<noteq> [] \<and> list_all is_digit (nat_text n) \<and> digits_value 0 (nat_text n) = n"
proof (induction n rule: nat_text.induct)
  case (1 n)
  show ?case
  proof (cases "n < 10")
    case True
    then show ?thesis using is_digit_char [of n] by (simp add: nat_text.simps [of n])
  next
    case False
    then show ?thesis
      using 1 is_digit_char [of "n mod 10"] by (simp add: nat_text.simps [of n] digits_value_append)
  qed
qed

lemma decimal_int_text:
  "decimal (if n < 0 then CHR ''-'' # nat_text (nat (- n)) else nat_text (nat n)) = Some n"
proof (cases "n < 0")
  case True
  then show ?thesis using nat_text_digits [of "nat (- n)"] by (simp add: decimal_def)
next
  case False
  obtain c cs where t: "nat_text (nat n) = c # cs"
    using nat_text_digits [of "nat n"] by (cases "nat_text (nat n)") auto
  have "is_digit c" using nat_text_digits [of "nat n"] t by simp
  then have "c \<noteq> CHR ''-''" "c \<noteq> CHR ''+''" by (auto simp: is_digit_def)
  then show ?thesis using False nat_text_digits [of "nat n"] by (simp add: decimal_def t)
qed


text \<open>
  C34. The strict integer parsers. For any \<open>long\<close> of at least 32 bits, each parser
  succeeds exactly on an optional sign followed by one or more digits, with nothing before,
  between or after them, whose value lies in the range of its type, and stores that value;
  the unsigned parsers also refuse every text with a minus sign. The result does not depend
  on the width of \<open>long\<close>.
\<close>

theorem strict_parsers_accept:
  assumes "32 \<le> W"
  shows "(ParseInt32 W s = (Some w, True) \<longleftrightarrow>
           (\<exists>n. decimal s = Some n \<and> - (2 ^ 31) \<le> n \<and> n < 2 ^ 31 \<and> w = of_int n)) \<and>
         (ParseInt64 s = (Some v, True) \<longleftrightarrow>
           (\<exists>n. decimal s = Some n \<and> - (2 ^ 63) \<le> n \<and> n < 2 ^ 63 \<and> v = of_int n)) \<and>
         (ParseUInt32 W s = (Some w, True) \<longleftrightarrow>
           (\<exists>n. decimal s = Some n \<and> hd s \<noteq> CHR ''-'' \<and> n < 2 ^ 32 \<and> w = of_int n)) \<and>
         (ParseUInt64 s = (Some v, True) \<longleftrightarrow>
           (\<exists>n. decimal s = Some n \<and> hd s \<noteq> CHR ''-'' \<and> n < 2 ^ 64 \<and> v = of_int n))"
  using ParseInt32_accepts [OF assms] ParseInt64_accepts ParseUInt32_accepts [OF assms]
    ParseUInt64_accepts by (intro conjI) blast+

theorem strict_parsers_accept_witness:
  "ParseInt32 64 ''-12'' = (Some (- 12), True)"
proof -
  have "decimal ''-12'' = Some (- 12)"
    by (simp add: decimal_def is_digit_def digit_value_def)
  then show ?thesis
    using strict_parsers_accept [of 64 "''-12''" "- 12" 0] by simp
qed

text \<open>
  Printing and parsing of integers: what \<open>i64tostr\<close> and \<open>itostr\<close> print is
  accepted by the parser of the same type, for any width of \<open>long\<close>, and gives the same
  machine integer back, the most negative ones included.
\<close>

theorem int_text_roundtrip:
  "ParseInt64 (i64tostr n) = (Some n, True) \<and> ParseInt32 (32 + extra) (itostr m) = (Some m, True)"
proof
  have "decimal (i64tostr n) = Some (sint n)"
    using decimal_int_text [of "sint n"] by (simp add: i64tostr_def)
  then show "ParseInt64 (i64tostr n) = (Some n, True)"
    using sint_greater_eq [of n] sint_less [of n] by (simp add: ParseInt64_accepts)
  have "decimal (itostr m) = Some (sint m)"
    using decimal_int_text [of "sint m"] by (simp add: itostr_def)
  then show "ParseInt32 (32 + extra) (itostr m) = (Some m, True)"
    using sint_greater_eq [of m] sint_less [of m] by (simp add: ParseInt32_accepts)
qed

subsection \<open>Fixed-point numbers\<close>

text \<open>
  \<open>ParseFixedPoint\<close> in the order of its text: the sign, the integer digits, the
  fraction, the exponent, and the final scaling. The mantissa and the exponent are integers
  that stay below \<open>UPPER_BOUND\<close>, so \<open>int64_t\<close> never overflows; each part
  returns the rest of the text. The mantissa's trailing zeros are counted, not multiplied.
\<close>

definition UPPER_BOUND :: int where
  "UPPER_BOUND = 1000000000000000000 - 1"

fun mantissa_shift :: "nat \<Rightarrow> int \<Rightarrow> int option" where
  "mantissa_shift 0 mantissa = Some mantissa"
| "mantissa_shift (Suc i) mantissa =
     (if mantissa > UPPER_BOUND div 10 then None else mantissa_shift i (mantissa * 10))"

definition ProcessMantissaDigit :: "char \<Rightarrow> int \<Rightarrow> nat \<Rightarrow> (int \<times> nat) option" where
  "ProcessMantissaDigit ch mantissa mantissa_tzeros =
     (if ch = CHR ''0'' then Some (mantissa, mantissa_tzeros + 1)
      else do {
        mantissa \<leftarrow> mantissa_shift (mantissa_tzeros + 1) mantissa;
        Some (mantissa + int (digit_value ch), 0)
      })"

fun mantissa_digits :: "string \<Rightarrow> int \<Rightarrow> nat \<Rightarrow> nat \<Rightarrow> (int \<times> nat \<times> nat \<times> string) option" where
  "mantissa_digits [] mantissa tzeros ofs = Some (mantissa, tzeros, ofs, [])"
| "mantissa_digits (c # cs) mantissa tzeros ofs =
     (if is_digit c
      then do {
        (mantissa, tzeros) \<leftarrow> ProcessMantissaDigit c mantissa tzeros;
        mantissa_digits cs mantissa tzeros (ofs + 1)
      }
      else Some (mantissa, tzeros, ofs, c # cs))"

definition integer_part :: "string \<Rightarrow> (int \<times> nat \<times> string) option" where
  "integer_part p =
     (case p of
        [] \<Rightarrow> None
      | c # cs \<Rightarrow>
          if c = CHR ''0'' then Some (0, 0, cs)
          else if is_digit c then do {
            (mantissa, tzeros, ofs, p) \<leftarrow> mantissa_digits p 0 0 0;
            Some (mantissa, tzeros, p)
          }
          else None)"

definition fraction_part :: "string \<Rightarrow> int \<Rightarrow> nat \<Rightarrow> (int \<times> nat \<times> nat \<times> string) option" where
  "fraction_part p mantissa tzeros =
     (if p \<noteq> [] \<and> hd p = CHR ''.''
      then (if tl p \<noteq> [] \<and> is_digit (hd (tl p)) then mantissa_digits (tl p) mantissa tzeros 0 else None)
      else Some (mantissa, tzeros, 0, p))"

fun exponent_digits :: "string \<Rightarrow> int \<Rightarrow> (int \<times> string) option" where
  "exponent_digits [] exponent = Some (exponent, [])"
| "exponent_digits (c # cs) exponent =
     (if is_digit c
      then if exponent > UPPER_BOUND div 10 then None
           else exponent_digits cs (exponent * 10 + int (digit_value c))
      else Some (exponent, c # cs))"

definition exponent_part :: "string \<Rightarrow> (bool \<times> int \<times> string) option" where
  "exponent_part p =
     (if p \<noteq> [] \<and> (hd p = CHR ''e'' \<or> hd p = CHR ''E'')
      then let p = tl p;
               (exponent_sign, p) =
                 (if p \<noteq> [] \<and> hd p = CHR ''+'' then (False, tl p)
                  else if p \<noteq> [] \<and> hd p = CHR ''-'' then (True, tl p) else (False, p))
           in if p \<noteq> [] \<and> is_digit (hd p)
              then do { (exponent, p) \<leftarrow> exponent_digits p 0; Some (exponent_sign, exponent, p) }
              else None
      else Some (False, 0, p))"

fun amount_shift :: "nat \<Rightarrow> int \<Rightarrow> int option" where
  "amount_shift 0 mantissa = Some mantissa"
| "amount_shift (Suc i) mantissa =
     (if mantissa > UPPER_BOUND div 10 \<or> mantissa < - (UPPER_BOUND div 10) then None
      else amount_shift i (mantissa * 10))"

definition fixed_amount :: "bool \<Rightarrow> int \<Rightarrow> nat \<Rightarrow> nat \<Rightarrow> bool \<Rightarrow> int \<Rightarrow> int \<Rightarrow> int option" where
  "fixed_amount mantissa_sign mantissa tzeros point_ofs exponent_sign exponent decimals =
     (let exponent = (if exponent_sign then - exponent else exponent);
          exponent = exponent - int point_ofs + int tzeros;
          mantissa = (if mantissa_sign then - mantissa else mantissa);
          exponent = exponent + decimals
      in if exponent < 0 then None
         else if exponent \<ge> 18 then None
         else do {
           mantissa \<leftarrow> amount_shift (nat exponent) mantissa;
           (if mantissa > UPPER_BOUND \<or> mantissa < - UPPER_BOUND then None else Some mantissa)
         })"

definition ParseFixedPoint :: "string \<Rightarrow> int \<Rightarrow> int option" where
  "ParseFixedPoint val decimals =
     (let (mantissa_sign, p) =
            (if val \<noteq> [] \<and> hd val = CHR ''-'' then (True, tl val) else (False, val))
      in do {
        (mantissa, tzeros, p) \<leftarrow> integer_part p;
        (mantissa, tzeros, point_ofs, p) \<leftarrow> fraction_part p mantissa tzeros;
        (exponent_sign, exponent, p) \<leftarrow> exponent_part p;
        (if p \<noteq> [] then None
         else fixed_amount mantissa_sign mantissa tzeros point_ofs exponent_sign exponent decimals)
      })"

text \<open>The number texts of JSON, and their values.\<close>

record number =
  minus :: bool
  int_digits :: string
  frac_digits :: string
  exp_mark :: string
  exp_digits :: string

definition number_text :: "number \<Rightarrow> string" where
  "number_text n =
     (if minus n then ''-'' else []) @ int_digits n @
     (if frac_digits n = [] then [] else CHR ''.'' # frac_digits n) @ exp_mark n @ exp_digits n"

definition number_ok :: "number \<Rightarrow> bool" where
  "number_ok n \<longleftrightarrow>
     (int_digits n = ''0'' \<or>
      int_digits n \<noteq> [] \<and> list_all is_digit (int_digits n) \<and> hd (int_digits n) \<noteq> CHR ''0'') \<and>
     list_all is_digit (frac_digits n) \<and>
     (exp_mark n = [] \<and> exp_digits n = [] \<or>
      exp_mark n \<in> {''e'', ''E'', ''e+'', ''E+'', ''e-'', ''E-''} \<and>
      exp_digits n \<noteq> [] \<and> list_all is_digit (exp_digits n))"

definition number_mantissa :: "number \<Rightarrow> int" where
  "number_mantissa n =
     (if minus n then - 1 else 1) * int (digits_value 0 (int_digits n @ frac_digits n))"

definition number_exponent :: "number \<Rightarrow> int" where
  "number_exponent n =
     (if CHR ''-'' \<in> set (exp_mark n) then - 1 else 1) * int (digits_value 0 (exp_digits n))
      - int (length (frac_digits n))"


lemma digits_value_acc: "digits_value acc ds = acc * 10 ^ length ds + digits_value 0 ds"
proof (induction ds arbitrary: acc)
  case (Cons d ds)
  show ?case using Cons [of "10 * acc + digit_value d"] Cons [of "digit_value d"]
    by (simp add: algebra_simps)
qed simp

lemma mantissa_shift_value:
  "mantissa_shift k m = Some m' \<Longrightarrow> m' = m * 10 ^ k"
proof (induction k arbitrary: m)
  case (Suc k)
  then show ?case using Suc.IH [of "m * 10"] by (simp add: mult.assoc split: if_splits)
qed simp

lemma amount_shift_value:
  "amount_shift k m = Some m' \<Longrightarrow> m' = m * 10 ^ k"
proof (induction k arbitrary: m)
  case (Suc k)
  then show ?case using Suc.IH [of "m * 10"] by (simp add: mult.assoc split: if_splits)
qed simp

text \<open>The counted zeros keep the value: mantissa times ten to their number is the number read.\<close>

lemma ProcessMantissaDigit_value:
  assumes "ProcessMantissaDigit c m tz = Some (m', tz')"
  shows "m' * 10 ^ tz' = 10 * (m * 10 ^ tz) + int (digit_value c)"
proof (cases "c = CHR ''0''")
  case True
  then show ?thesis using assms by (auto simp: ProcessMantissaDigit_def digit_value_def)
next
  case False
  then obtain m1 where "mantissa_shift (tz + 1) m = Some m1" "m' = m1 + int (digit_value c)" "tz' = 0"
    using assms by (auto simp: ProcessMantissaDigit_def bind_eq_Some_conv simp del: mantissa_shift.simps)
  then show ?thesis using mantissa_shift_value [of "tz + 1" m m1] by simp
qed

lemma mantissa_digits_value:
  "mantissa_digits p m tz ofs = Some (m', tz', ofs', r) \<Longrightarrow>
     \<exists>ds. p = ds @ r \<and> list_all is_digit ds \<and> ofs' = ofs + length ds \<and>
       m' * 10 ^ tz' = m * 10 ^ tz * 10 ^ length ds + int (digits_value 0 ds)"
proof (induction p arbitrary: m tz ofs)
  case Nil
  then show ?case by simp
next
  case (Cons c cs)
  show ?case
  proof (cases "is_digit c")
    case True
    then obtain m1 tz1 where d: "ProcessMantissaDigit c m tz = Some (m1, tz1)"
      and r: "mantissa_digits cs m1 tz1 (ofs + 1) = Some (m', tz', ofs', r)"
      using Cons.prems by (auto simp: bind_eq_Some_conv)
    obtain ds where ds: "cs = ds @ r" "list_all is_digit ds" "ofs' = ofs + 1 + length ds"
        "m' * 10 ^ tz' = m1 * 10 ^ tz1 * 10 ^ length ds + int (digits_value 0 ds)"
      using Cons.IH [OF r] by blast
    have "int (digits_value 0 (c # ds)) = int (digit_value c) * 10 ^ length ds + int (digits_value 0 ds)"
      using digits_value_acc [of "digit_value c" ds] by simp
    then show ?thesis
      using ds True ProcessMantissaDigit_value [OF d]
      by (intro exI [of _ "c # ds"]) (simp add: algebra_simps)
  next
    case False
    then show ?thesis using Cons.prems by (intro exI [of _ "[]"]) simp
  qed
qed

lemma mantissa_digits_head:
  assumes "mantissa_digits p m tz ofs = Some (m', tz', ofs', r)" "p = ds @ r" "p \<noteq> []" "is_digit (hd p)"
  shows "ds \<noteq> []"
proof
  assume "ds = []"
  obtain c cs where p: "p = c # cs" using assms(3) by (cases p) auto
  obtain m1 tz1 where "mantissa_digits cs m1 tz1 (ofs + 1) = Some (m', tz', ofs', r)"
    using assms(1,4) by (auto simp: p bind_eq_Some_conv)
  then have "length r \<le> length cs" using mantissa_digits_value by fastforce
  then show False using assms(2) p \<open>ds = []\<close> by auto
qed

lemma exponent_digits_value:
  "exponent_digits p e = Some (e', r) \<Longrightarrow>
     \<exists>ds. p = ds @ r \<and> list_all is_digit ds \<and> (p \<noteq> [] \<and> is_digit (hd p) \<longrightarrow> ds \<noteq> []) \<and>
       e' = e * 10 ^ length ds + int (digits_value 0 ds)"
proof (induction p arbitrary: e)
  case Nil
  then show ?case by simp
next
  case (Cons c cs)
  show ?case
  proof (cases "is_digit c")
    case True
    then have r: "exponent_digits cs (e * 10 + int (digit_value c)) = Some (e', r)"
      using Cons.prems by (auto split: if_splits)
    obtain ds where ds: "cs = ds @ r" "list_all is_digit ds"
        "e' = (e * 10 + int (digit_value c)) * 10 ^ length ds + int (digits_value 0 ds)"
      using Cons.IH [OF r] by blast
    have "int (digits_value 0 (c # ds)) = int (digit_value c) * 10 ^ length ds + int (digits_value 0 ds)"
      using digits_value_acc [of "digit_value c" ds] by simp
    then show ?thesis
      using ds True by (intro exI [of _ "c # ds"]) (simp add: algebra_simps)
  next
    case False
    then show ?thesis using Cons.prems by (intro exI [of _ "[]"]) auto
  qed
qed

lemma integer_part_value:
  assumes "integer_part p = Some (m, tz, r)"
  shows "\<exists>ds. p = ds @ r \<and> (ds = ''0'' \<or> ds \<noteq> [] \<and> list_all is_digit ds \<and> hd ds \<noteq> CHR ''0'') \<and>
    m * 10 ^ tz = int (digits_value 0 ds)"
proof -
  obtain c cs where p: "p = c # cs" using assms by (cases p) (auto simp: integer_part_def)
  show ?thesis
  proof (cases "c = CHR ''0''")
    case True
    then show ?thesis
      using assms by (intro exI [of _ "''0''"]) (auto simp: integer_part_def p digit_value_def)
  next
    case False
    then obtain ofs where d: "mantissa_digits p 0 0 0 = Some (m, tz, ofs, r)" and c: "is_digit c"
      using assms by (auto simp: integer_part_def p bind_eq_Some_conv simp del: mantissa_digits.simps split: if_splits)
    obtain ds where ds: "p = ds @ r" "list_all is_digit ds" "m * 10 ^ tz = int (digits_value 0 ds)"
      using mantissa_digits_value [OF d] by auto
    have "ds \<noteq> []" using mantissa_digits_head [OF d ds(1)] c p by simp
    moreover from this have "hd ds = c" using ds(1) p by (cases ds) simp_all
    ultimately show ?thesis using ds False by blast
  qed
qed

lemma fraction_part_value:
  assumes "fraction_part p m tz = Some (m', tz', ofs, r)"
  shows "\<exists>fr. p = (if fr = [] then [] else CHR ''.'' # fr) @ r \<and> list_all is_digit fr \<and> ofs = length fr \<and>
    m' * 10 ^ tz' = m * 10 ^ tz * 10 ^ length fr + int (digits_value 0 fr)"
proof (cases "p \<noteq> [] \<and> hd p = CHR ''.''")
  case True
  then have d: "mantissa_digits (tl p) m tz 0 = Some (m', tz', ofs, r)"
    and h: "tl p \<noteq> []" "is_digit (hd (tl p))"
    using assms by (auto simp: fraction_part_def split: if_splits)
  obtain fr where fr: "tl p = fr @ r" "list_all is_digit fr" "ofs = length fr"
      "m' * 10 ^ tz' = m * 10 ^ tz * 10 ^ length fr + int (digits_value 0 fr)"
    using mantissa_digits_value [OF d] by auto
  have "fr \<noteq> []" using mantissa_digits_head [OF d fr(1) h] .
  moreover have "p = CHR ''.'' # tl p" using True by (cases p) auto
  ultimately show ?thesis using fr by auto
next
  case False
  then show ?thesis using assms by (intro exI [of _ "[]"]) (auto simp: fraction_part_def)
qed

lemma exponent_part_value:
  assumes "exponent_part p = Some (sg, e, r)"
  shows "\<exists>mark ds. p = mark @ ds @ r \<and>
    (mark = [] \<and> ds = [] \<or> mark \<in> {''e'', ''E'', ''e+'', ''E+'', ''e-'', ''E-''} \<and> ds \<noteq> [] \<and> list_all is_digit ds) \<and>
    sg = (CHR ''-'' \<in> set mark) \<and> e = int (digits_value 0 ds)"
proof (cases "p \<noteq> [] \<and> (hd p = CHR ''e'' \<or> hd p = CHR ''E'')")
  case False
  then show ?thesis
    using assms by (intro exI [of _ "[]"]) (auto simp: exponent_part_def)
next
  case True
  then obtain x q where p: "p = x # q" and x: "x = CHR ''e'' \<or> x = CHR ''E''" by (cases p) auto
  define sq where "sq = (if q \<noteq> [] \<and> hd q = CHR ''+'' then (''+'', tl q)
      else if q \<noteq> [] \<and> hd q = CHR ''-'' then (''-'', tl q) else ([], q))"
  obtain sgn q' where sq': "sq = (sgn, q')" by fastforce
  then have q: "q = sgn @ q'" "sgn \<in> {[], ''+'', ''-''}"
    by (cases q; auto simp: sq_def split: if_splits)+
  have a: "exponent_part p = (if q' \<noteq> [] \<and> is_digit (hd q')
      then do { (e, r) \<leftarrow> exponent_digits q' 0; Some (sgn = ''-'', e, r) } else None)"
    using sq' x by (auto simp: exponent_part_def p sq_def Let_def split: if_splits)
  have h: "q' \<noteq> []" "is_digit (hd q')" and d: "exponent_digits q' 0 = Some (e, r)"
    and sg: "sg = (sgn = ''-'')"
    using assms unfolding a by (auto simp: bind_eq_Some_conv split: if_splits)
  obtain ds where ds: "q' = ds @ r" "list_all is_digit ds" "ds \<noteq> []" "e = int (digits_value 0 ds)"
    using exponent_digits_value [OF d] h by auto
  then show ?thesis
    using p q x sg by (intro exI [of _ "x # sgn"] exI [of _ ds]) auto
qed

lemma fixed_amount_value:
  assumes "fixed_amount sg m tz ofs esg e decimals = Some a"
  defines "x \<equiv> (if esg then - e else e) - int ofs + decimals"
  shows "\<bar>a\<bar> < 10 ^ 18 \<and>
    a * 10 ^ nat (- x) = (if sg then - 1 else 1) * (m * 10 ^ tz) * 10 ^ nat x"
proof -
  let ?m = "if sg then - m else m"
  have k: "0 \<le> x + int tz"
    and d: "amount_shift (nat (x + int tz)) ?m = Some a" and b: "\<not> a > UPPER_BOUND" "\<not> a < - UPPER_BOUND"
    using assms(1) by (auto simp: fixed_amount_def x_def Let_def bind_eq_Some_conv algebra_simps
        simp del: amount_shift.simps split: if_splits)
  have "a = ?m * 10 ^ nat (x + int tz)" by (rule amount_shift_value [OF d])
  moreover have "nat (x + int tz) + nat (- x) = tz + nat x" using k by linarith
  ultimately have "a * 10 ^ nat (- x) = ?m * (10 ^ tz * 10 ^ nat x)"
    by (metis mult.assoc power_add)
  moreover have "\<bar>a\<bar> < 10 ^ 18" using b by (simp add: UPPER_BOUND_def)
  ultimately show ?thesis by auto
qed



end
