(* ===== verification/Str_Text.thy ===== *)
theory Str_Text
  imports Str_Num
begin

text \<open>
  Text utilities of bryllite-core/utilstrencodings.cpp: splitting a host from its port
  (lines 107-124) and wrapping paragraphs (lines 354-393), and the timing-resistant
  comparison of utilstrencodings.hpp (lines 129-143). Positions are natural numbers below
  \<open>2 ^ 64\<close>; the two places where \<open>size_t\<close> arithmetic can wrap are written out.
\<close>

subsection \<open>Searching\<close>

definition find_last_of :: "(char \<Rightarrow> bool) \<Rightarrow> string \<Rightarrow> nat \<Rightarrow> nat option" where
  "find_last_of P s pos =
     (let found = filter (\<lambda>i. P (s ! i)) [0..<min (length s) (pos + 1)]
      in if found = [] then None else Some (last found))"

definition find_first_of :: "(char \<Rightarrow> bool) \<Rightarrow> string \<Rightarrow> nat \<Rightarrow> nat option" where
  "find_first_of P s pos =
     (let found = filter (\<lambda>i. P (s ! i)) [pos..<length s]
      in if found = [] then None else Some (hd found))"

definition substr :: "string \<Rightarrow> nat \<Rightarrow> nat \<Rightarrow> string" where
  "substr s pos count = take count (drop pos s)"

definition npos :: nat where
  "npos = 2 ^ 64 - 1"

lemma find_last_of_Some:
  "find_last_of P s pos = Some i \<Longrightarrow> i < length s \<and> i \<le> pos \<and> P (s ! i)"
  using last_in_set [of "filter (\<lambda>i. P (s ! i)) [0..<min (length s) (pos + 1)]"]
  by (auto simp: find_last_of_def Let_def split: if_splits)

lemma find_first_of_Some:
  "find_first_of P s pos = Some i \<Longrightarrow> pos \<le> i \<and> i < length s \<and> P (s ! i)"
  using hd_in_set [of "filter (\<lambda>i. P (s ! i)) [pos..<length s]"]
  by (auto simp: find_first_of_def Let_def split: if_splits)

lemma find_last_of_None:
  "(\<And>i. i < length s \<Longrightarrow> i \<le> pos \<Longrightarrow> \<not> P (s ! i)) \<Longrightarrow> find_last_of P s pos = None"
  by (auto simp: find_last_of_def Let_def filter_empty_conv)

text \<open>The last match is found: nothing after it matches.\<close>

lemma find_last_of_append:
  assumes "P c" "\<forall>x \<in> set t. \<not> P x" "length (s @ c # t) \<le> pos + 1"
  shows "find_last_of P (s @ c # t) pos = Some (length s)"
proof -
  have m: "min (length (s @ c # t)) (pos + 1) = length s + Suc (length t)" using assms(3) by simp
  have "filter (\<lambda>i. P ((s @ c # t) ! i)) [Suc (length s)..<length s + Suc (length t)] = []"
    using assms(2) by (auto simp: filter_empty_conv nth_append nth_Cons')
  moreover have "[0..<length s + Suc (length t)] =
      [0..<length s] @ length s # [Suc (length s)..<length s + Suc (length t)]"
    using upt_add_eq_append [of 0 "length s" "Suc (length t)"]
      upt_conv_Cons [of "length s" "length s + Suc (length t)"] by simp
  ultimately show ?thesis
    using assms(1) unfolding find_last_of_def m by (simp add: Let_def del: upt_Suc)
qed

subsection \<open>Host and port\<close>

definition port_separator :: "string \<Rightarrow> nat option" where
  "port_separator inp =
     (case find_last_of (\<lambda>c. c = CHR '':'') inp npos of
        None \<Rightarrow> None
      | Some colon \<Rightarrow>
          (let fBracketed = (inp ! 0 = CHR ''['' \<and> inp ! (colon - 1) = CHR '']'');
               fMultiColon =
                 (find_last_of (\<lambda>c. c = CHR '':'') inp (if colon = 0 then npos else colon - 1) \<noteq> None)
           in if colon = 0 \<or> fBracketed \<or> \<not> fMultiColon then Some colon else None))"

definition strip_brackets :: "string \<Rightarrow> string" where
  "strip_brackets inp =
     (if length inp > 0 \<and> inp ! 0 = CHR ''['' \<and> inp ! (length inp - 1) = CHR '']''
      then substr inp 1 (length inp - 2) else inp)"

definition SplitHostPort :: "nat \<Rightarrow> string \<Rightarrow> int \<Rightarrow> int \<times> string" where
  "SplitHostPort long_bits inp portOut =
     (case port_separator inp of
        None \<Rightarrow> (portOut, strip_brackets inp)
      | Some colon \<Rightarrow>
          (let (n, ok) = ParseInt32 long_bits (drop (colon + 1) inp)
           in if ok \<and> sint (the n) > 0 \<and> sint (the n) < 0x10000
              then (sint (the n), strip_brackets (substr inp 0 colon))
              else (portOut, strip_brackets inp)))"

lemma decimal_no_colon:
  assumes "decimal p = Some n"
  shows "CHR '':'' \<notin> set p"
proof -
  obtain neg ds where s: "split_sign p = (neg, ds)" "list_all is_digit ds"
    using assms by (auto simp: decimal_def split: if_splits prod.splits)
  then have "p = ds \<or> p = CHR ''-'' # ds \<or> p = CHR ''+'' # ds"
    by (cases p) (auto split: if_splits)
  moreover have "\<not> is_digit (CHR '':'')" by (simp add: is_digit_def)
  ultimately show ?thesis using s(2) by (auto simp: list_all_iff)
qed

lemma sint_of_port: "0 < n \<Longrightarrow> n < 0x10000 \<Longrightarrow> sint (of_int n :: u32) = n"
  by (simp add: signed_of_int signed_take_bit_int_eq_self)

lemma split_at_port:
  assumes "32 \<le> W" "decimal p = Some n" "0 < n" "n < 0x10000" "length (h @ CHR '':'' # p) < 2 ^ 64"
    and sep: "CHR '':'' \<notin> set h \<or> (\<exists>m. h = CHR ''['' # m @ '']'')"
  shows "SplitHostPort W (h @ CHR '':'' # p) port0 = (n, strip_brackets h)"
proof -
  have c: "find_last_of (\<lambda>c. c = CHR '':'') (h @ CHR '':'' # p) npos = Some (length h)"
    using decimal_no_colon [OF assms(2)] assms(5)
    by (intro find_last_of_append) (auto simp: npos_def)
  have r: "ParseInt32 W p = (Some (of_int n), True)"
    using assms(2-4) by (simp add: ParseInt32_accepts [OF assms(1)])
  have "length h = 0 \<or>
      ((h @ CHR '':'' # p) ! 0 = CHR ''['' \<and> (h @ CHR '':'' # p) ! (length h - 1) = CHR '']'') \<or>
      find_last_of (\<lambda>c. c = CHR '':'') (h @ CHR '':'' # p) (if length h = 0 then npos else length h - 1) = None"
    using sep
  proof
    assume n: "CHR '':'' \<notin> set h"
    show ?thesis
    proof (cases h)
      case (Cons a h')
      have "find_last_of (\<lambda>c. c = CHR '':'') (h @ CHR '':'' # p) (length h - 1) = None"
      proof (rule find_last_of_None)
        fix i assume "i \<le> length h - 1"
        then have "i < length h" using Cons by (simp add: less_Suc_eq_le)
        then have "(h @ CHR '':'' # p) ! i = h ! i" "h ! i \<in> set h" by (simp_all add: nth_append)
        then show "(h @ CHR '':'' # p) ! i \<noteq> CHR '':''" using n by metis
      qed
      then show ?thesis using Cons by simp
    qed simp
  qed (auto simp: nth_append)
  then have "port_separator (h @ CHR '':'' # p) = Some (length h)"
    by (auto simp: port_separator_def c Let_def)
  then show ?thesis
    using r sint_of_port [OF assms(3,4)] assms(3,4) by (simp add: SplitHostPort_def substr_def)
qed


text \<open>
  Splitting host and port. A host with no colon, or a bracketed host with any, followed
  by a colon and the decimal text of a port from 1 to 65535 is split there, and the brackets
  are removed; text without a colon leaves the port as it was; and whatever the text, the
  port afterwards is the one given or lies between 1 and 65535.
\<close>

theorem SplitHostPort_splits:
  assumes "32 \<le> W"
  shows "(decimal p = Some n \<and> 0 < n \<and> n < 65536 \<and> length h + length p < 2 ^ 63 \<longrightarrow>
           (CHR '':'' \<notin> set h \<and> CHR ''['' \<notin> set h \<longrightarrow> SplitHostPort W (h @ CHR '':'' # p) port0 = (n, h)) \<and>
           SplitHostPort W (''['' @ h @ '']'' @ CHR '':'' # p) port0 = (n, h)) \<and>
         (CHR '':'' \<notin> set h \<longrightarrow> fst (SplitHostPort W h port0) = port0) \<and>
         fst (SplitHostPort W s port0) \<in> {port0} \<union> {1..65535}"
proof (intro conjI impI)
  assume a: "decimal p = Some n \<and> 0 < n \<and> n < 65536 \<and> length h + length p < 2 ^ 63"
  { assume "CHR '':'' \<notin> set h \<and> CHR ''['' \<notin> set h"
    moreover from this have "length h > 0 \<longrightarrow> h ! 0 \<noteq> CHR ''[''" using nth_mem by fastforce
    ultimately show "SplitHostPort W (h @ CHR '':'' # p) port0 = (n, h)"
      using split_at_port [OF assms, of p n h port0] a by (auto simp: strip_brackets_def) }
  show "SplitHostPort W (''['' @ h @ '']'' @ CHR '':'' # p) port0 = (n, h)"
    using split_at_port [OF assms, of p n "''['' @ h @ '']''" port0] a
    by (simp add: nth_append substr_def strip_brackets_def)
next
  assume "CHR '':'' \<notin> set h"
  then have "find_last_of (\<lambda>c. c = CHR '':'') h npos = None"
    by (intro find_last_of_None) (metis nth_mem)
  then show "fst (SplitHostPort W h port0) = port0" 
    by (simp add: SplitHostPort_def port_separator_def)
next
  show "fst (SplitHostPort W s port0) \<in> {port0} \<union> {1..65535}"
    by (auto simp: SplitHostPort_def split: option.splits prod.splits)
qed

theorem SplitHostPort_splits_witness:
  "SplitHostPort 64 ''a.b:8300'' (- 1) = (8300, ''a.b'')"
proof -
  have "decimal ''8300'' = Some 8300" by (simp add: decimal_def is_digit_def digit_value_def)
  then show ?thesis
    using SplitHostPort_splits [of 64 "''8300''" 8300 "''a.b''" "- 1" "[]"] by simp
qed

subsection \<open>Paragraphs\<close>

definition is_newline :: "char \<Rightarrow> bool" where
  "is_newline c \<longleftrightarrow> c = CHR 0x0A"

definition is_break :: "char \<Rightarrow> bool" where
  "is_break c \<longleftrightarrow> c = CHR '' '' \<or> c = CHR 0x0A"

definition paragraph_lineend :: "string \<Rightarrow> nat \<Rightarrow> nat" where
  "paragraph_lineend inp ptr =
     (case find_first_of is_newline inp ptr of None \<Rightarrow> length inp | Some i \<Rightarrow> i)"

definition paragraph_room :: "nat \<Rightarrow> nat \<Rightarrow> nat" where
  "paragraph_room width indented = (width + 2 ^ 64 - indented) mod 2 ^ 64"

definition paragraph_space :: "string \<Rightarrow> nat \<Rightarrow> nat \<Rightarrow> nat option" where
  "paragraph_space inp ptr rem_width =
     (case find_last_of is_break inp ((ptr + rem_width) mod 2 ^ 64) of
        Some i \<Rightarrow> if i < ptr then find_first_of is_break inp ptr else Some i
      | None \<Rightarrow> find_first_of is_break inp ptr)"

text \<open>
  One round of the loop of \<open>FormatParagraph\<close>: the text it writes and, unless it is the
  last, the new \<open>ptr\<close> and \<open>indented\<close>.
\<close>

definition paragraph_step :: "string \<Rightarrow> nat \<Rightarrow> nat \<Rightarrow> nat \<Rightarrow> nat \<Rightarrow> string \<times> (nat \<times> nat) option" where
  "paragraph_step inp width indent ptr indented =
     (let lineend = paragraph_lineend inp ptr;
          linelen = lineend - ptr;
          rem_width = paragraph_room width indented
      in if linelen \<le> rem_width then (substr inp ptr (linelen + 1), Some (lineend + 1, 0))
         else case paragraph_space inp ptr rem_width of
             None \<Rightarrow> (drop ptr inp, None)
           | Some finalspace \<Rightarrow>
               (let out = substr inp ptr (finalspace - ptr) @ [CHR 0x0A]
                in if is_newline (inp ! finalspace) then (out, Some (finalspace + 1, 0))
                   else if indent \<noteq> 0
                   then (out @ replicate indent (CHR '' ''), Some (finalspace + 1, indent))
                   else (out, Some (finalspace + 1, indented))))"

lemma paragraph_lineend_ge: "ptr < length inp \<Longrightarrow> ptr \<le> paragraph_lineend inp ptr"
  using find_first_of_Some by (fastforce simp: paragraph_lineend_def split: option.splits)

lemma paragraph_space_Some:
  "paragraph_space inp ptr rem = Some f \<Longrightarrow> ptr \<le> f \<and> f < length inp \<and> is_break (inp ! f)"
  using find_first_of_Some [of is_break inp ptr f] find_last_of_Some [of is_break inp _ f]
  by (auto simp: paragraph_space_def split: option.splits if_splits)

text \<open>A round copies the text it passes, or all of it but the space it breaks at.\<close>

lemma paragraph_step_Some:
  assumes "paragraph_step inp width indent ptr indented = (out, Some (ptr', indented'))" "ptr < length inp"
  shows "ptr < ptr'"
    and "out = substr inp ptr (ptr' - ptr) \<or>
     (\<exists>pad. set pad \<subseteq> {CHR '' ''} \<and> ptr' \<le> length inp \<and> is_break (inp ! (ptr' - 1)) \<and>
        out = substr inp ptr (ptr' - 1 - ptr) @ CHR 0x0A # pad)"
proof -
  have "ptr < ptr' \<and> (out = substr inp ptr (ptr' - ptr) \<or>
     (\<exists>pad. set pad \<subseteq> {CHR '' ''} \<and> ptr' \<le> length inp \<and> is_break (inp ! (ptr' - 1)) \<and>
        out = substr inp ptr (ptr' - 1 - ptr) @ CHR 0x0A # pad))"
  proof (cases "paragraph_lineend inp ptr - ptr \<le> paragraph_room width indented")
    case True
    then show ?thesis
      using assms(1) paragraph_lineend_ge [OF assms(2)]
      by (auto simp: paragraph_step_def Let_def Suc_diff_le)
  next
    case False
    then obtain f where f: "paragraph_space inp ptr (paragraph_room width indented) = Some f"
      using assms(1) by (auto simp: paragraph_step_def Let_def split: option.splits)
    note b = paragraph_space_Some [OF f]
    show ?thesis
    proof (cases "\<not> is_newline (inp ! f) \<and> indent \<noteq> 0")
      case True
      then have "out = substr inp ptr (f - ptr) @ CHR 0x0A # replicate indent (CHR '' '')" "ptr' = f + 1"
        using False assms(1) f by (auto simp: paragraph_step_def Let_def)
      then show ?thesis using b by (auto intro!: exI [of _ "replicate indent (CHR '' '')"])
    next
      case n: False
      then have "out = substr inp ptr (f - ptr) @ [CHR 0x0A]" "ptr' = f + 1"
        using False assms(1) f by (auto simp: paragraph_step_def Let_def split: if_splits)
      then show ?thesis using b by (auto intro!: exI [of _ "[]"])
    qed
  qed
  then show "ptr < ptr'" and "out = substr inp ptr (ptr' - ptr) \<or>
     (\<exists>pad. set pad \<subseteq> {CHR '' ''} \<and> ptr' \<le> length inp \<and> is_break (inp ! (ptr' - 1)) \<and>
        out = substr inp ptr (ptr' - 1 - ptr) @ CHR 0x0A # pad)" by blast+
qed

function paragraph_loop :: "string \<Rightarrow> nat \<Rightarrow> nat \<Rightarrow> nat \<Rightarrow> nat \<Rightarrow> string" where
  "paragraph_loop inp width indent ptr indented =
     (if ptr < length inp
      then case paragraph_step inp width indent ptr indented of
          (out, None) \<Rightarrow> out
        | (out, Some (ptr, indented)) \<Rightarrow> out @ paragraph_loop inp width indent ptr indented
      else [])"
  by pat_completeness auto
termination
  by (relation "measure (\<lambda>(inp, width, indent, ptr, indented). length inp - ptr)")
    (auto dest!: paragraph_step_Some(1) [OF sym])

declare paragraph_loop.simps [simp del]

definition FormatParagraph :: "string \<Rightarrow> nat \<Rightarrow> nat \<Rightarrow> string" where
  "FormatParagraph inp width indent = paragraph_loop inp width indent 0 0"


lemma substr_split: "ptr \<le> q \<Longrightarrow> drop ptr s = substr s ptr (q - ptr) @ drop q s"
  unfolding substr_def by (metis append_take_drop_id drop_drop le_add_diff_inverse2)

lemma filter_dropped:
  assumes "ptr < q" "q \<le> length s" "\<not> P (s ! (q - 1))"
  shows "filter P (drop ptr s) = filter P (substr s ptr (q - 1 - ptr)) @ filter P (drop q s)"
proof -
  have "drop ptr s = substr s ptr (q - 1 - ptr) @ drop (q - 1) s"
    using substr_split [of ptr "q - 1"] assms(1) by simp
  moreover have "drop (q - 1) s = s ! (q - 1) # drop q s"
    using Cons_nth_drop_Suc [of "q - 1" s] assms(1,2) by simp
  ultimately show ?thesis using assms(3) by simp
qed

lemma paragraph_loop_content:
  "filter (\<lambda>c. \<not> is_break c) (paragraph_loop inp width indent ptr indented)
    = filter (\<lambda>c. \<not> is_break c) (drop ptr inp)"
proof (induction inp width indent ptr indented rule: paragraph_loop.induct)
  case (1 inp width indent ptr indented)
  let ?keep = "filter (\<lambda>c. \<not> is_break c)"
  show ?case
  proof (cases "ptr < length inp")
    case False
    then show ?thesis by (simp add: paragraph_loop.simps)
  next
    case True
    obtain out nxt where step: "paragraph_step inp width indent ptr indented = (out, nxt)" by fastforce
    show ?thesis
    proof (cases nxt)
      case None
      then have "out = drop ptr inp"
        using step by (auto simp: paragraph_step_def Let_def split: if_splits option.splits)
      then show ?thesis using True step None by (simp add: paragraph_loop.simps)
    next
      case (Some r)
      obtain ptr' indented' where r: "r = (ptr', indented')" by fastforce
      note s = paragraph_step_Some [OF step [unfolded Some r] True]
      have ih: "?keep (paragraph_loop inp width indent ptr' indented') = ?keep (drop ptr' inp)"
        using 1 True step Some r by simp
      have "?keep (drop ptr inp) = ?keep out @ ?keep (drop ptr' inp)"
        using s(2)
      proof (elim disjE exE conjE)
        assume "out = substr inp ptr (ptr' - ptr)"
        then show ?thesis using substr_split [of ptr ptr' inp] s(1) by (metis filter_append less_imp_le)
      next
        fix pad
        assume "set pad \<subseteq> {CHR '' ''}" and o: "out = substr inp ptr (ptr' - 1 - ptr) @ CHR 0x0A # pad"
          and "ptr' \<le> length inp" "is_break (inp ! (ptr' - 1))"
        then have "?keep (drop ptr inp) = ?keep (substr inp ptr (ptr' - 1 - ptr)) @ ?keep (drop ptr' inp)"
          using filter_dropped [OF s(1), of inp "\<lambda>c. \<not> is_break c"] by simp
        moreover have "?keep (CHR 0x0A # pad) = []"
          using \<open>set pad \<subseteq> {CHR '' ''}\<close> by (auto simp: is_break_def filter_empty_conv)
        ultimately show ?thesis by (simp add: o)
      qed
      then show ?thesis
        using True step Some r ih by (simp add: paragraph_loop.simps [of inp width indent ptr indented])
    qed
  qed
qed

text \<open>
  Wrapping a paragraph loses nothing: for every width and indentation, also one larger
  than the width, where the remaining width wraps around, the loop ends and the characters of
  the output other than spaces and newlines are those of the input in the same order.
\<close>

theorem FormatParagraph_content:
  "filter (\<lambda>c. \<not> is_break c) (FormatParagraph inp width indent) = filter (\<lambda>c. \<not> is_break c) inp"
  by (simp add: FormatParagraph_def paragraph_loop_content)

subsection \<open>Comparison in constant time\<close>

fun timing_loop :: "u8 list \<Rightarrow> u8 list \<Rightarrow> nat \<Rightarrow> u64 \<Rightarrow> u64" where
  "timing_loop [] b i accumulator = accumulator"
| "timing_loop (x # a) b i accumulator =
     timing_loop a b (i + 1) (accumulator OR ucast (x XOR b ! (i mod length b)))"

definition TimingResistantEqual :: "u8 list \<Rightarrow> u8 list \<Rightarrow> bool" where
  "TimingResistantEqual a b =
     (if length b = 0 then length a = 0
      else timing_loop a b 0 (of_nat (length a) XOR of_nat (length b)) = 0)"

lemma or_eq_0: "(x :: 'a::len word) OR y = 0 \<longleftrightarrow> x = 0 \<and> y = 0"
  by (simp add: or_eq_0_iff)

lemma xor_eq_0: "(x :: 'a::len word) XOR y = 0 \<longleftrightarrow> x = y"
  by (metis xor.assoc xor.left_neutral xor.right_neutral xor_self_eq)

lemma ucast_u8_eq_0: "(ucast (w :: u8) :: u64) = 0 \<longleftrightarrow> w = 0"
proof -
  have "unat w < 2 ^ 64" using unat_bound [of w] by simp
  then show ?thesis by (simp add: word_eq_unat unat_ucast_mod del: unat_eq_zero)
qed

lemma timing_loop_0:
  "timing_loop a b i acc = 0 \<longleftrightarrow>
     acc = 0 \<and> (\<forall>j < length a. a ! j = b ! ((i + j) mod length b))"
proof (induction a arbitrary: i acc)
  case (Cons x a)
  have "ucast (x XOR b ! (i mod length b)) = (0 :: u64) \<longleftrightarrow> x = b ! (i mod length b)"
    by (simp add: ucast_u8_eq_0 xor_eq_0)
  then show ?case by (auto simp: Cons.IH or_eq_0 less_Suc_eq_0_disj)
qed simp


text \<open>
  The timing-resistant comparison is equality of byte sequences: the wrap-around of the
  index in the second sequence and the folding of the lengths never make different
  sequences equal.
\<close>

theorem TimingResistantEqual_iff:
  assumes "length a < 2 ^ 64" "length b < 2 ^ 64"
  shows "TimingResistantEqual a b \<longleftrightarrow> a = b"
proof (cases "length b = 0")
  case True
  then show ?thesis by (simp add: TimingResistantEqual_def)
next
  case False
  have len: "(of_nat (length a) XOR of_nat (length b) = (0 :: u64)) \<longleftrightarrow> length a = length b"
    unfolding xor_eq_0 using assms by (simp add: word_eq_unat unat_of_nat)
  have idx: "(0 + j) mod length b = j" if "j < length b" for j using that by simp
  show ?thesis
    using False unfolding TimingResistantEqual_def timing_loop_0 len list_eq_iff_nth_eq
    by (auto simp: idx)
qed

theorem TimingResistantEqual_iff_witness:
  "\<not> TimingResistantEqual [1, 2] [1, 2, 1, 2]"
  using TimingResistantEqual_iff [of "[1, 2]" "[1, 2, 1, 2]"] by simp

end
