(* ===== verification/Blob.thy ===== *)
theory Blob
  imports Str_Hex
begin

text \<open>
  Fixed-size opaque blobs (bryllite-core/uint256.hpp and uint256.cpp): \<open>base_blob\<close>
  over its width in bytes, with its order, its hexadecimal text, its 64-bit digits and its
  stream operations, and the four widths the program instantiates.
\<close>

datatype base_blob = Blob (blob_data: "u8 list")

definition WIDTH :: "nat \<Rightarrow> nat" where
  "WIDTH BITS = BITS div 8"

definition blob_null :: "nat \<Rightarrow> base_blob" where
  "blob_null BITS = Blob (replicate (WIDTH BITS) 0)"

text \<open>The constructor from a vector asserts its size: \<open>None\<close> is the failed assertion.\<close>

definition blob_of_vector :: "nat \<Rightarrow> u8 list \<Rightarrow> base_blob option" where
  "blob_of_vector BITS vch = (if length vch = WIDTH BITS then Some (Blob vch) else None)"

fun all_zero :: "u8 list \<Rightarrow> bool" where
  "all_zero [] = True"
| "all_zero (d # ds) = (if d \<noteq> 0 then False else all_zero ds)"

definition IsNull :: "base_blob \<Rightarrow> bool" where
  "IsNull b = all_zero (blob_data b)"

definition SetNull :: "base_blob \<Rightarrow> base_blob" where
  "SetNull b = Blob (replicate (length (blob_data b)) 0)"

text \<open>The sign of \<open>memcmp\<close>; blobs of one type have one length.\<close>

fun memcmp :: "u8 list \<Rightarrow> u8 list \<Rightarrow> int" where
  "memcmp [] [] = 0"
| "memcmp [] (b # bs) = - 1"
| "memcmp (a # as) [] = 1"
| "memcmp (a # as) (b # bs) = (if a < b then - 1 else if b < a then 1 else memcmp as bs)"

definition Compare :: "base_blob \<Rightarrow> base_blob \<Rightarrow> int" where
  "Compare a b = memcmp (blob_data a) (blob_data b)"

definition GetHex :: "base_blob \<Rightarrow> string" where
  "GetHex b = HexStr False (rev (blob_data b))"

definition ToString :: "base_blob \<Rightarrow> string" where
  "ToString b = GetHex b"

definition to_lower_x :: "char \<Rightarrow> bool" where
  "to_lower_x c \<longleftrightarrow> c = CHR ''x'' \<or> c = CHR ''X''"

definition skip_0x :: "string \<Rightarrow> string" where
  "skip_0x psz =
     (if length psz \<ge> 2 \<and> psz ! 0 = CHR ''0'' \<and> to_lower_x (psz ! 1) then drop 2 psz else psz)"

text \<open>The filling loop, on the digits from the last to the first.\<close>

fun hex_fill :: "nat \<Rightarrow> string \<Rightarrow> u8 list" where
  "hex_fill 0 ds = []"
| "hex_fill (Suc n) [] = replicate (Suc n) 0"
| "hex_fill (Suc n) [c] = nibble c # replicate n 0"
| "hex_fill (Suc n) (c # d # ds) = (nibble c OR push_bit 4 (nibble d)) # hex_fill n ds"

definition SetHex :: "nat \<Rightarrow> string \<Rightarrow> base_blob" where
  "SetHex BITS str =
     (let psz = skip_0x (dropWhile isspace (c_str str));
          digits = takeWhile (\<lambda>c. HexDigit c \<noteq> - 1) psz
      in Blob (hex_fill (WIDTH BITS) (rev digits)))"

text \<open>The position that \<open>corrupt\<close> draws is an argument.\<close>

definition corrupt :: "nat \<Rightarrow> base_blob \<Rightarrow> base_blob" where
  "corrupt rand b = (let pos = rand mod length (blob_data b) in Blob ((blob_data b)[pos := blob_data b ! pos + 1]))"

definition blob_size :: "base_blob \<Rightarrow> nat" where
  "blob_size b = length (blob_data b)"

definition GetUint64 :: "base_blob \<Rightarrow> nat \<Rightarrow> u64" where
  "GetUint64 b pos =
     (let ptr = drop (pos * 8) (blob_data b)
      in ucast (ptr ! 0) OR push_bit 8 (ucast (ptr ! 1)) OR push_bit 16 (ucast (ptr ! 2)) OR
         push_bit 24 (ucast (ptr ! 3)) OR push_bit 32 (ucast (ptr ! 4)) OR
         push_bit 40 (ucast (ptr ! 5)) OR push_bit 48 (ucast (ptr ! 6)) OR
         push_bit 56 (ucast (ptr ! 7)))"

text \<open>A stream is the bytes written to it and not read yet.\<close>

definition Serialize :: "base_blob \<Rightarrow> u8 list \<Rightarrow> u8 list" where
  "Serialize b s = s @ blob_data b"

definition Unserialize :: "nat \<Rightarrow> u8 list \<Rightarrow> base_blob \<times> u8 list" where
  "Unserialize BITS s = (Blob (take (WIDTH BITS) s), drop (WIDTH BITS) s)"

definition uint160 :: "u8 list \<Rightarrow> base_blob option" where
  "uint160 vch = blob_of_vector 160 vch"

definition uint256 :: "u8 list \<Rightarrow> base_blob option" where
  "uint256 vch = blob_of_vector 256 vch"

definition uint264 :: "u8 list \<Rightarrow> base_blob option" where
  "uint264 vch = blob_of_vector 264 vch"

definition uint512 :: "u8 list \<Rightarrow> base_blob option" where
  "uint512 vch = blob_of_vector 512 vch"

definition uint256S :: "string \<Rightarrow> base_blob" where
  "uint256S str = SetHex 256 str"

definition uint264S :: "string \<Rightarrow> base_blob" where
  "uint264S str = SetHex 264 str"

definition uint512S :: "string \<Rightarrow> base_blob" where
  "uint512S str = SetHex 512 str"

subsection \<open>The order\<close>

lemma memcmp_eq: "memcmp a b = 0 \<longleftrightarrow> a = b"
  by (induction a b rule: memcmp.induct) auto

lemma memcmp_sym: "memcmp b a = - memcmp a b"
  by (induction a b rule: memcmp.induct) auto

lemma memcmp_trans: "memcmp a b \<le> 0 \<Longrightarrow> memcmp b c \<le> 0 \<Longrightarrow> memcmp a c \<le> 0"
proof (induction a b arbitrary: c rule: memcmp.induct)
  case (4 a as b bs)
  then show ?case by (cases c) (auto split: if_splits)
next
  case 1
  then show ?case by (cases c) auto
next
  case 2
  then show ?case by (cases c) auto
qed simp

text \<open>The operators \<open>==\<close>, \<open>!=\<close> and \<open><\<close> of the class.\<close>

definition blob_eq :: "base_blob \<Rightarrow> base_blob \<Rightarrow> bool" where
  "blob_eq a b \<longleftrightarrow> Compare a b = 0"

definition blob_ne :: "base_blob \<Rightarrow> base_blob \<Rightarrow> bool" where
  "blob_ne a b \<longleftrightarrow> Compare a b \<noteq> 0"

definition blob_less :: "base_blob \<Rightarrow> base_blob \<Rightarrow> bool" where
  "blob_less a b \<longleftrightarrow> Compare a b < 0"

lemma blob_eq_iff [simp]: "blob_eq a b \<longleftrightarrow> a = b" "blob_ne a b \<longleftrightarrow> a \<noteq> b"
  using memcmp_eq [of "blob_data a" "blob_data b"]
  by (auto simp: blob_eq_def blob_ne_def Compare_def base_blob.expand)

instantiation base_blob :: linorder
begin

definition less_eq_base_blob :: "base_blob \<Rightarrow> base_blob \<Rightarrow> bool" where
  "less_eq_base_blob a b \<longleftrightarrow> Compare a b \<le> 0"

definition less_base_blob :: "base_blob \<Rightarrow> base_blob \<Rightarrow> bool" where
  "less_base_blob a b \<longleftrightarrow> blob_less a b"

instance
proof
  fix a b c :: base_blob
  show "a < b \<longleftrightarrow> a \<le> b \<and> \<not> b \<le> a"
    using memcmp_sym [of "blob_data b" "blob_data a"]
    by (auto simp: less_eq_base_blob_def less_base_blob_def blob_less_def Compare_def)
  show "a \<le> a" using memcmp_eq [of "blob_data a" "blob_data a"] by (simp add: less_eq_base_blob_def Compare_def)
  show "a \<le> b \<Longrightarrow> b \<le> c \<Longrightarrow> a \<le> c"
    using memcmp_trans by (auto simp: less_eq_base_blob_def Compare_def)
  show "a \<le> b \<Longrightarrow> b \<le> a \<Longrightarrow> a = b"
    using memcmp_sym [of "blob_data b" "blob_data a"] memcmp_eq [of "blob_data a" "blob_data b"]
    by (simp add: less_eq_base_blob_def Compare_def base_blob.expand)
  show "a \<le> b \<or> b \<le> a"
    using memcmp_sym [of "blob_data b" "blob_data a"] by (auto simp: less_eq_base_blob_def Compare_def)
qed

end

text \<open>
  For blobs of one width the order is that of the bytes read as a big-endian number, while
  the hexadecimal text prints them as a little-endian number.
\<close>

lemma memcmp_big_endian:
  "length a = length b \<Longrightarrow> memcmp a b < 0 \<longleftrightarrow> limbs_val (rev a) < limbs_val (rev b)"
proof (induction a b rule: list_induct2)
  case (Cons x a y b)
  let ?B = "2 ^ (8 * length a) :: nat"
  have ab: "limbs_val (rev a) < ?B" "limbs_val (rev b) < ?B"
    using limbs_val_less [of "rev a"] limbs_val_less [of "rev b"] Cons.hyps by simp_all
  have v: "limbs_val (rev (x # a)) = limbs_val (rev a) + ?B * unat x"
      "limbs_val (rev (y # b)) = limbs_val (rev b) + ?B * unat y"
    by (simp_all add: limbs_val_append Cons.hyps)
  consider "unat x < unat y" | "unat y < unat x" | "x = y"
    by (metis linorder_neqE_nat word_eq_unat)
  then show ?case
  proof cases
    case 1
    then have "limbs_val (rev (x # a)) < limbs_val (rev (y # b))"
      using digit_cons_less [OF ab(1) 1] by (simp only: v)
    then show ?thesis using 1 by (simp add: word_lt_unat)
  next
    case 2
    then have "limbs_val (rev (y # b)) < limbs_val (rev (x # a))"
      using digit_cons_less [OF ab(2) 2] by (simp only: v)
    then show ?thesis using 2 by (simp add: word_lt_unat)
  next
    case 3
    then show ?thesis using Cons.IH by (simp add: limbs_val_append Cons.hyps)
  qed
qed simp

subsection \<open>Hexadecimal text\<close>

fun hex_value :: "string \<Rightarrow> nat" where
  "hex_value [] = 0"
| "hex_value (c # cs) = nat (HexDigit c) + 16 * hex_value cs"

lemma HexDigit_range: "HexDigit c \<noteq> - 1 \<Longrightarrow> 0 \<le> HexDigit c \<and> HexDigit c < 16"
proof -
  assume h: "HexDigit c \<noteq> - 1"
  have "of_char c < (256 :: nat)" by simp
  then have "p_util_hexdigit ! of_char c \<in> set p_util_hexdigit"
    by (intro nth_mem) (simp add: p_util_hexdigit_def)
  then have "p_util_hexdigit ! of_char c \<in> insert (- 1) {0..<16}" by (auto simp: p_util_hexdigit_def)
  then show ?thesis using h by (auto simp: HexDigit_def)
qed

lemma unat_nibble: "HexDigit c \<noteq> - 1 \<Longrightarrow> unat (nibble c) = nat (HexDigit c) \<and> nat (HexDigit c) < 16"
  using HexDigit_range [of c] by (auto simp: nibble_def unsigned_of_int take_bit_int_eq_self)

lemma unat_nibble_pair:
  assumes "HexDigit c \<noteq> - 1" "HexDigit d \<noteq> - 1"
  shows "unat (nibble c OR push_bit 4 (nibble d)) = nat (HexDigit c) + 16 * nat (HexDigit d)"
proof -
  have "unat (push_bit 4 (nibble d) OR nibble c) = unat (push_bit 4 (nibble d)) + unat (nibble c)"
    using unat_nibble [OF assms(1)] by (intro unat_push_bit_or) simp_all
  moreover have "unat (push_bit 4 (nibble d)) = 16 * nat (HexDigit d)"
    using unat_nibble [OF assms(2)] by (simp add: unat_push_bit_mod)
  ultimately show ?thesis using unat_nibble [OF assms(1)] by (simp add: or.commute)
qed

lemma length_hex_fill [len_simps, simp]: "length (hex_fill n ds) = n"
  by (induction n ds rule: hex_fill.induct) simp_all

lemma digit_mod: "a < b \<Longrightarrow> (a + b * h) mod (b * m) = a + b * (h mod m)" for a b h m :: nat
  by (simp add: mod_mult2_eq)

text \<open>The filling loop keeps the digits that fit: the value is reduced modulo the width.\<close>

lemma hex_fill_value:
  "\<forall>c \<in> set ds. HexDigit c \<noteq> - 1 \<Longrightarrow> limbs_val (hex_fill n ds) = hex_value ds mod 2 ^ (8 * n)"
proof (induction n ds rule: hex_fill.induct)
  case (3 n c)
  have "nat (HexDigit c) < 2 ^ (8 * Suc n)"
  proof -
    have "(16 :: nat) \<le> 2 ^ 8" by simp
    also have "\<dots> \<le> 2 ^ (8 * Suc n)" by (intro power_increasing) simp_all
    finally show ?thesis using unat_nibble [of c] 3 by (meson less_le_trans list.set_intros(1))
  qed
  then show ?case using unat_nibble [of c] 3 by simp
next
  case (4 n c d ds)
  have l: "nat (HexDigit c) + 16 * nat (HexDigit d) < 256"
    using unat_nibble [of c] unat_nibble [of d] 4(2) by simp
  have "hex_value (c # d # ds) = (nat (HexDigit c) + 16 * nat (HexDigit d)) + 256 * hex_value ds"
    by simp
  moreover have "(2 :: nat) ^ (8 * Suc n) = 256 * 2 ^ (8 * n)" by (simp add: power_add)
  ultimately have "hex_value (c # d # ds) mod 2 ^ (8 * Suc n) =
      (nat (HexDigit c) + 16 * nat (HexDigit d)) + 256 * (hex_value ds mod 2 ^ (8 * n))"
    by (simp only: digit_mod [OF l])
  moreover have "limbs_val (hex_fill (Suc n) (c # d # ds)) =
      unat (nibble c OR push_bit 4 (nibble d)) + 256 * limbs_val (hex_fill n ds)" by simp
  moreover have "limbs_val (hex_fill n ds) = hex_value ds mod 2 ^ (8 * n)" using 4 by simp
  ultimately show ?case using unat_nibble_pair [of c d] 4(2) by simp
qed simp_all

lemma hex_fill_bytes: "hex_fill (length bs) (rev (concat (map hex_byte (rev bs)))) = bs"
proof (induction bs)
  case (Cons b bs)
  have h: "unat (drop_bit 4 b) < 16" by (rule unat_high_nibble)
  have l: "unat (b AND 15) < 16" by (simp add: unat_low_nibble)
  have "nibble (hexmap ! unat (b AND 15)) OR push_bit 4 (nibble (hexmap ! unat (drop_bit 4 b))) = b"
    using nibbles_join [of b] by (simp add: nibble_hexmap [OF h] nibble_hexmap [OF l] or.commute)
  then show ?case using Cons by (simp add: hex_byte_def)
qed simp

lemma takeWhile_hex:
  assumes "all_hex s"
  shows "takeWhile (\<lambda>c. HexDigit c \<noteq> - 1) s = s"
  using assms by (induction s) (auto split: if_splits)

lemma skip_0x_hex: "all_hex s \<Longrightarrow> skip_0x s = s"
proof -
  assume a: "all_hex s"
  have "\<not> to_lower_x c" if "HexDigit c \<ge> 0" for c
    using that by (auto simp: to_lower_x_def HexDigit_def p_util_hexdigit_def nth_append)
  moreover have "HexDigit (s ! 1) \<ge> 0" if "length s \<ge> 2"
    using a that by (cases s; cases "tl s") (auto split: if_splits)
  ultimately show ?thesis by (auto simp: skip_0x_def)
qed

lemma dropWhile_space_hex: "all_hex s \<Longrightarrow> dropWhile isspace s = s"
proof (cases s)
  case (Cons c cs)
  assume "all_hex s"
  then have "HexDigit c \<ge> 0" using Cons by (auto split: if_splits)
  moreover have "HexDigit c < 0" if "isspace c"
    using that by (auto simp: isspace_def HexDigit_def p_util_hexdigit_def nth_append)
  ultimately show ?thesis using Cons by auto
qed simp

lemma SetHex_GetHex:
  assumes "length (blob_data b) = WIDTH BITS"
  shows "SetHex BITS (GetHex b) = b"
proof -
  have h: "all_hex (GetHex b)" by (simp add: GetHex_def HexStr_plain_hex)
  have "c_str (GetHex b) = GetHex b" by (simp add: GetHex_def c_str_id HexStr_no_NUL)
  then have "SetHex BITS (GetHex b) = Blob (hex_fill (WIDTH BITS) (rev (GetHex b)))"
    using h by (simp add: SetHex_def dropWhile_space_hex skip_0x_hex takeWhile_hex)
  also have "\<dots> = b"
    using hex_fill_bytes [of "blob_data b"] assms by (simp add: GetHex_def HexStr_plain)
  finally show ?thesis .
qed

lemma GetUint64_join: "8 * pos + 8 \<le> length (blob_data b) \<Longrightarrow> GetUint64 b pos = le_join (take 8 (drop (8 * pos) (blob_data b)))"
proof -
  assume a: "8 * pos + 8 \<le> length (blob_data b)"
  define ptr where "ptr = drop (8 * pos) (blob_data b)"
  have "length (take 8 ptr) = 8" using a by (simp add: ptr_def)
  then obtain a0 a1 a2 a3 a4 a5 a6 a7 where p: "take 8 ptr = [a0, a1, a2, a3, a4, a5, a6, a7]"
    by (rule length_8_cases)
  have "ptr ! i = take 8 ptr ! i" if "i < 8" for i using that by simp
  then have n: "ptr ! 0 = a0" "ptr ! 1 = a1" "ptr ! 2 = a2" "ptr ! 3 = a3" "ptr ! 4 = a4"
      "ptr ! 5 = a5" "ptr ! 6 = a6" "ptr ! 7 = a7"
    by (simp_all add: p)
  show ?thesis
    unfolding GetUint64_def Let_def mult.commute [of pos] ptr_def [symmetric] n p
    by (simp add: push_bit_or or.assoc)
qed


lemma SetHex_value:
  assumes "list_all isspace ws" "pre \<in> {[], ''0x'', ''0X''}" "all_hex ds"
  shows "limbs_val (blob_data (SetHex BITS (ws @ pre @ ds))) = hex_value (rev ds) mod 2 ^ (8 * WIDTH BITS)"
proof -
  have ds: "HexDigit c \<noteq> - 1 \<and> c \<noteq> NUL" if "c \<in> set ds" for c
  proof -
    have "HexDigit c \<ge> 0" using assms(3) that by (induction ds) (auto split: if_splits)
    moreover have "HexDigit NUL < 0" by (simp add: HexDigit_def p_util_hexdigit_def NUL_def nth_append)
    ultimately show ?thesis by auto
  qed
  have "NUL \<notin> set (ws @ pre @ ds)"
  proof -
    have "\<not> isspace NUL" by (simp add: isspace_def NUL_def)
    then have "NUL \<notin> set ws" using assms(1) by (auto simp: list_all_iff)
    moreover have "NUL \<notin> set pre" using assms(2) by (auto simp: NUL_def)
    ultimately show ?thesis using ds by auto
  qed
  then have c: "c_str (ws @ pre @ ds) = ws @ pre @ ds" by (rule c_str_id)
  have "dropWhile isspace (pre @ ds) = pre @ ds"
    using assms(2) dropWhile_space_hex [OF assms(3)] by (auto simp: isspace_def)
  then have d: "dropWhile isspace (ws @ pre @ ds) = pre @ ds"
    using dropWhile_append2 [of ws isspace "pre @ ds"] assms(1) by (simp only: list_all_iff)
  have "skip_0x (pre @ ds) = ds"
    using assms(2) skip_0x_hex [OF assms(3)] by (auto simp: skip_0x_def to_lower_x_def)
  then show ?thesis
    using hex_fill_value [of "rev ds" "WIDTH BITS"] ds
    by (simp add: SetHex_def c d takeWhile_hex assms(3))
qed

text \<open>
  Hexadecimal text of blobs. \<open>SetHex\<close> after optional spaces and an optional
  \<open>0x\<close> reads a hexadecimal number of any length into the blob, least significant
  byte first and modulo the blob's width, and it reads back what \<open>GetHex\<close> prints of
  every blob of that width.
\<close>

theorem blob_hex_text:
  assumes "list_all isspace ws" "pre \<in> {[], ''0x'', ''0X''}" "all_hex ds"
  shows "limbs_val (blob_data (SetHex BITS (ws @ pre @ ds))) = hex_value (rev ds) mod 2 ^ (8 * WIDTH BITS) \<and>
    (length (blob_data b) = WIDTH BITS \<longrightarrow> SetHex BITS (GetHex b) = b)"
  using SetHex_value [OF assms] SetHex_GetHex by blast

theorem blob_hex_text_witness:
  "limbs_val (blob_data (SetHex 16 ('' '' @ ''0x'' @ ''12345''))) = 0x2345 \<and>
   SetHex 16 (GetHex (Blob [1, 255])) = Blob [1, 255]"
proof -
  have "all_hex ''12345''" by (simp add: HexDigit_def p_util_hexdigit_def nth_append)
  then show ?thesis
    using blob_hex_text [of "'' ''" "''0x''" "''12345''" 16 "Blob [1, 255]"]
    by (simp add: isspace_def WIDTH_def HexDigit_def p_util_hexdigit_def nth_append)
qed

lemma limbs_val_blocks:
  "limbs_val (bs :: u8 list) = limbs_val (take 8 bs) + 2 ^ 64 * limbs_val (drop 8 bs)" if "8 \<le> length bs"
  using limbs_val_take_drop [OF that] by simp

lemma uint64_value:
  "8 * pos + 8 \<le> length (blob_data b) \<Longrightarrow> unat (GetUint64 b pos) = limbs_val (take 8 (drop (8 * pos) (blob_data b)))"
  by (simp add: GetUint64_join le_join_val)

text \<open>
  C33. The numbers in a blob. On 256-bit blobs the comparison operators order the bytes as a
  big-endian number, so they agree with equality and are total, while the four digits of
  \<open>GetUint64\<close> are those of the little-endian number that the hexadecimal text shows.
\<close>

theorem blob_numbers:
  assumes "length (blob_data a) = 32" "length (blob_data b) = 32"
  shows "(blob_less a b \<longleftrightarrow> limbs_val (rev (blob_data a)) < limbs_val (rev (blob_data b))) \<and>
    (blob_eq a b \<longleftrightarrow> a = b) \<and> (blob_ne a b \<longleftrightarrow> a \<noteq> b) \<and>
    limbs_val (map (GetUint64 a) [0, 1, 2, 3]) = limbs_val (blob_data a)"
proof (intro conjI)
  show "blob_less a b \<longleftrightarrow> limbs_val (rev (blob_data a)) < limbs_val (rev (blob_data b))"
    using memcmp_big_endian assms by (simp add: blob_less_def Compare_def)
  show "blob_eq a b \<longleftrightarrow> a = b" "blob_ne a b \<longleftrightarrow> a \<noteq> b" by simp_all
  have b0: "limbs_val (blob_data a) = limbs_val (take 8 (blob_data a)) + 2 ^ 64 * limbs_val (drop 8 (blob_data a))"
    by (rule limbs_val_blocks) (simp add: assms(1))
  have b1: "limbs_val (drop 8 (blob_data a)) =
      limbs_val (take 8 (drop 8 (blob_data a))) + 2 ^ 64 * limbs_val (drop 16 (blob_data a))"
    using limbs_val_blocks [of "drop 8 (blob_data a)"] by (simp add: assms(1))
  have b2: "limbs_val (drop 16 (blob_data a)) =
      limbs_val (take 8 (drop 16 (blob_data a))) + 2 ^ 64 * limbs_val (drop 24 (blob_data a))"
    using limbs_val_blocks [of "drop 16 (blob_data a)"] by (simp add: assms(1))
  have g: "unat (GetUint64 a k) = limbs_val (take 8 (drop (8 * k) (blob_data a)))" if "k < 4" for k
    using that assms(1) by (intro uint64_value) simp
  have "drop 24 (blob_data a) = take 8 (drop 24 (blob_data a))" using assms(1) by simp
  then have "unat (GetUint64 a 3) = limbs_val (drop 24 (blob_data a))" using g [of 3] by simp
  moreover have "unat (GetUint64 a 0) = limbs_val (take 8 (blob_data a))" using g [of 0] by simp
  moreover have "unat (GetUint64 a 1) = limbs_val (take 8 (drop 8 (blob_data a)))" using g [of 1] by simp
  moreover have "unat (GetUint64 a 2) = limbs_val (take 8 (drop 16 (blob_data a)))" using g [of 2] by simp
  ultimately show "limbs_val (map (GetUint64 a) [0, 1, 2, 3]) = limbs_val (blob_data a)"
    unfolding b0 b1 b2 by simp
qed

theorem blob_numbers_witness:
  "limbs_val (map (GetUint64 (Blob (replicate 31 0 @ [1]))) [0, 1, 2, 3]) =
   limbs_val (blob_data (Blob (replicate 31 0 @ [1])))"
  using blob_numbers [of "Blob (replicate 31 0 @ [1])" "Blob (replicate 31 0 @ [1])"] by simp

end
