(* ===== verification/Sha256.thy ===== *)
theory Sha256
  imports Blob
begin

text \<open>
  The hash of bryllite-core/sha256.hpp and sha256.cpp. The code computes with
  \<open>word_t\<close>, an \<open>unsigned long\<close> of 32 or 64 bits by platform, and masks to 32
  bits; every definition here is over a word of any width. The reference is the standard's
  compression function on 32-bit words and its padding of the whole message.
\<close>

subsection \<open>The block function\<close>

definition mask_8bit :: "u8 \<Rightarrow> u8" where
  "mask_8bit x = x AND 0xff"

definition mask_32bit :: "'w::len word \<Rightarrow> 'w word" where
  "mask_32bit x = x AND 0xffffffff"

text \<open>The table in the six columns of the source.\<close>

definition add_constant :: "'w::len word list" where
  "add_constant =
     concat
      [[0x428a2f98, 0x71374491, 0xb5c0fbcf, 0xe9b5dba5, 0x3956c25b, 0x59f111f1],
       [0x923f82a4, 0xab1c5ed5, 0xd807aa98, 0x12835b01, 0x243185be, 0x550c7dc3],
       [0x72be5d74, 0x80deb1fe, 0x9bdc06a7, 0xc19bf174, 0xe49b69c1, 0xefbe4786],
       [0x0fc19dc6, 0x240ca1cc, 0x2de92c6f, 0x4a7484aa, 0x5cb0a9dc, 0x76f988da],
       [0x983e5152, 0xa831c66d, 0xb00327c8, 0xbf597fc7, 0xc6e00bf3, 0xd5a79147],
       [0x06ca6351, 0x14292967, 0x27b70a85, 0x2e1b2138, 0x4d2c6dfc, 0x53380d13],
       [0x650a7354, 0x766a0abb, 0x81c2c92e, 0x92722c85, 0xa2bfe8a1, 0xa81a664b],
       [0xc24b8b70, 0xc76c51a3, 0xd192e819, 0xd6990624, 0xf40e3585, 0x106aa070],
       [0x19a4c116, 0x1e376c08, 0x2748774c, 0x34b0bcb5, 0x391c0cb3, 0x4ed8aa4a],
       [0x5b9cca4f, 0x682e6ff3, 0x748f82ee, 0x78a5636f, 0x84c87814, 0x8cc70208],
       [0x90befffa, 0xa4506ceb, 0xbef9a3f7, 0xc67178f2]]"

definition initial_message_digest :: "'w::len word list" where
  "initial_message_digest =
     [0x6a09e667, 0xbb67ae85, 0x3c6ef372, 0xa54ff53a, 0x510e527f, 0x9b05688c, 0x1f83d9ab, 0x5be0cd19]"

definition ch :: "'w::len word \<Rightarrow> 'w word \<Rightarrow> 'w word \<Rightarrow> 'w word" where
  "ch x y z = (x AND y) XOR (NOT x AND z)"

definition maj :: "'w::len word \<Rightarrow> 'w word \<Rightarrow> 'w word \<Rightarrow> 'w word" where
  "maj x y z = (x AND y) XOR (x AND z) XOR (y AND z)"

definition rotr :: "'w::len word \<Rightarrow> nat \<Rightarrow> 'w word" where
  "rotr x n = mask_32bit (drop_bit n x OR push_bit (32 - n) x)"

definition bsig0 :: "'w::len word \<Rightarrow> 'w word" where
  "bsig0 x = rotr x 2 XOR rotr x 13 XOR rotr x 22"

definition bsig1 :: "'w::len word \<Rightarrow> 'w word" where
  "bsig1 x = rotr x 6 XOR rotr x 11 XOR rotr x 25"

definition shr :: "'w::len word \<Rightarrow> nat \<Rightarrow> 'w word" where
  "shr x n = drop_bit n x"

definition ssig0 :: "'w::len word \<Rightarrow> 'w word" where
  "ssig0 x = rotr x 7 XOR rotr x 18 XOR shr x 3"

definition ssig1 :: "'w::len word \<Rightarrow> 'w word" where
  "ssig1 x = rotr x 17 XOR rotr x 19 XOR shr x 10"

definition block_word :: "u8 list \<Rightarrow> nat \<Rightarrow> 'w::len word" where
  "block_word first i =
     push_bit 24 (ucast (mask_8bit (first ! (i * 4)))) OR
     push_bit 16 (ucast (mask_8bit (first ! (i * 4 + 1)))) OR
     push_bit 8 (ucast (mask_8bit (first ! (i * 4 + 2)))) OR
     ucast (mask_8bit (first ! (i * 4 + 3)))"

text \<open>The words 16 to 63, one per step, appended to those known.\<close>

fun extend_words :: "nat \<Rightarrow> 'w::len word list \<Rightarrow> 'w word list" where
  "extend_words 0 w = w"
| "extend_words (Suc k) w =
     (let i = length w
      in extend_words k
           (w @ [mask_32bit (ssig1 (w ! (i - 2)) + w ! (i - 7) + ssig0 (w ! (i - 15)) + w ! (i - 16))]))"

record 'w vars =
  va :: 'w
  vb :: 'w
  vc :: 'w
  vd :: 'w
  ve :: 'w
  vf :: 'w
  vg :: 'w
  vh :: 'w

fun hash256_rounds :: "('w::len word \<times> 'w word) list \<Rightarrow> 'w word vars \<Rightarrow> 'w word vars" where
  "hash256_rounds [] s = s"
| "hash256_rounds ((k, w) # kws) s =
     (let temp1 = vh s + bsig1 (ve s) + ch (ve s) (vf s) (vg s) + k + w;
          temp2 = bsig0 (va s) + maj (va s) (vb s) (vc s)
      in hash256_rounds kws
           \<lparr>va = mask_32bit (temp1 + temp2), vb = va s, vc = vb s, vd = vc s,
            ve = mask_32bit (vd s + temp1), vf = ve s, vg = vf s, vh = vg s\<rparr>)"

definition hash256_block :: "'w::len word list \<Rightarrow> u8 list \<Rightarrow> 'w word list" where
  "hash256_block message_digest first =
     (let w = extend_words 48 (map (block_word first) [0..<16]);
          m = message_digest;
          s = hash256_rounds (zip add_constant w)
                \<lparr>va = m ! 0, vb = m ! 1, vc = m ! 2, vd = m ! 3,
                 ve = m ! 4, vf = m ! 5, vg = m ! 6, vh = m ! 7\<rparr>
      in map mask_32bit
           [m ! 0 + va s, m ! 1 + vb s, m ! 2 + vc s, m ! 3 + vd s,
            m ! 4 + ve s, m ! 5 + vf s, m ! 6 + vg s, m ! 7 + vh s])"

subsection \<open>The hasher\<close>

record 'w hash256_one_by_one =
  hash_buffer :: "u8 list"
  length_digits :: "'w list"
  hash_h :: "'w list"

definition hasher_init :: "'w::len word hash256_one_by_one" where
  "hasher_init =
     \<lparr>hash_buffer = [], length_digits = replicate 4 0, hash_h = initial_message_digest\<rparr>"

fun carry_digits :: "'w::len word \<Rightarrow> 'w word list \<Rightarrow> 'w word list" where
  "carry_digits carry [] = []"
| "carry_digits carry (d # ds) =
     (let d = d + carry
      in if d \<ge> 65536 then (d AND 65535) # carry_digits (drop_bit 16 d) ds else d # ds)"

definition add_to_data_length :: "'w::len word list \<Rightarrow> 'w word \<Rightarrow> 'w word list" where
  "add_to_data_length digits n = carry_digits 0 ((hd digits + n) # tl digits)"

function process_blocks :: "'w::len word list \<Rightarrow> u8 list \<Rightarrow> 'w word list \<times> u8 list" where
  "process_blocks hs buf =
     (if length buf \<ge> 64 then process_blocks (hash256_block hs (take 64 buf)) (drop 64 buf)
      else (hs, buf))"
  by pat_completeness auto
termination by (relation "measure (\<lambda>(hs, buf). length buf)") auto

declare process_blocks.simps [simp del]

definition hasher_process :: "'w::len word hash256_one_by_one \<Rightarrow> u8 list \<Rightarrow> 'w word hash256_one_by_one" where
  "hasher_process s first =
     (let digits = add_to_data_length (length_digits s) (of_nat (length first));
          (hs, buf) = process_blocks (hash_h s) (hash_buffer s @ first)
      in \<lparr>hash_buffer = buf, length_digits = digits, hash_h = hs\<rparr>)"

fun shift_digits :: "'w::len word \<Rightarrow> 'w word list \<Rightarrow> 'w word list" where
  "shift_digits carry [] = []"
| "shift_digits carry (d # ds) =
     ((push_bit 3 d OR carry) AND 65535) # shift_digits (drop_bit 13 d AND 65535) ds"

fun write_digits :: "'w::len word list \<Rightarrow> u8 list" where
  "write_digits [] = []"
| "write_digits (d # ds) = ucast (drop_bit 8 d) # ucast d # write_digits ds"

definition write_data_bit_length :: "'w::len word list \<Rightarrow> u8 list" where
  "write_data_bit_length digits = write_digits (rev (shift_digits 0 digits))"

definition hasher_finish :: "'w::len word hash256_one_by_one \<Rightarrow> 'w word hash256_one_by_one" where
  "hasher_finish s =
     (let remains = length (hash_buffer s);
          temp = hash_buffer s @ 0x80 # replicate (63 - remains) 0;
          (hs, temp) =
            (if remains > 55 then (hash256_block (hash_h s) temp, replicate 64 0) else (hash_h s, temp));
          temp = take 56 temp @ write_data_bit_length (length_digits s)
      in s\<lparr>hash_h := hash256_block hs temp\<rparr>)"

definition digest_bytes :: "'w::len word \<Rightarrow> u8 list" where
  "digest_bytes w = map (\<lambda>i. mask_8bit (ucast (drop_bit (24 - 8 * i) w))) [0, 1, 2, 3]"

definition get_hash_bytes :: "'w::len word hash256_one_by_one \<Rightarrow> nat \<Rightarrow> u8 list" where
  "get_hash_bytes s count = take count (concat (map digest_bytes (hash_h s)))"

subsection \<open>The standard's compression function\<close>

definition sha_Ch :: "u32 \<Rightarrow> u32 \<Rightarrow> u32 \<Rightarrow> u32" where
  "sha_Ch x y z = (x AND y) XOR (NOT x AND z)"

definition sha_Maj :: "u32 \<Rightarrow> u32 \<Rightarrow> u32 \<Rightarrow> u32" where
  "sha_Maj x y z = (x AND y) XOR (x AND z) XOR (y AND z)"

definition sha_Sigma0 :: "u32 \<Rightarrow> u32" where
  "sha_Sigma0 x = word_rotr 2 x XOR word_rotr 13 x XOR word_rotr 22 x"

definition sha_Sigma1 :: "u32 \<Rightarrow> u32" where
  "sha_Sigma1 x = word_rotr 6 x XOR word_rotr 11 x XOR word_rotr 25 x"

definition sha_sigma0 :: "u32 \<Rightarrow> u32" where
  "sha_sigma0 x = word_rotr 7 x XOR word_rotr 18 x XOR drop_bit 3 x"

definition sha_sigma1 :: "u32 \<Rightarrow> u32" where
  "sha_sigma1 x = word_rotr 17 x XOR word_rotr 19 x XOR drop_bit 10 x"

fun sha_extend :: "nat \<Rightarrow> u32 list \<Rightarrow> u32 list" where
  "sha_extend 0 w = w"
| "sha_extend (Suc k) w =
     (let t = length w
      in sha_extend k (w @ [sha_sigma1 (w ! (t - 2)) + w ! (t - 7) + sha_sigma0 (w ! (t - 15)) + w ! (t - 16)]))"

definition sha_schedule :: "u8 list \<Rightarrow> u32 list" where
  "sha_schedule block = sha_extend 48 (map (\<lambda>i. le_join (rev (take 4 (drop (4 * i) block)))) [0..<16])"

fun sha_rounds :: "(u32 \<times> u32) list \<Rightarrow> u32 vars \<Rightarrow> u32 vars" where
  "sha_rounds [] s = s"
| "sha_rounds ((k, w) # kws) s =
     (let T1 = vh s + sha_Sigma1 (ve s) + sha_Ch (ve s) (vf s) (vg s) + k + w;
          T2 = sha_Sigma0 (va s) + sha_Maj (va s) (vb s) (vc s)
      in sha_rounds kws
           \<lparr>va = T1 + T2, vb = va s, vc = vb s, vd = vc s,
            ve = vd s + T1, vf = ve s, vg = vf s, vh = vg s\<rparr>)"

definition sha_vars :: "'x list \<Rightarrow> 'x vars" where
  "sha_vars H = \<lparr>va = H ! 0, vb = H ! 1, vc = H ! 2, vd = H ! 3, ve = H ! 4, vf = H ! 5, vg = H ! 6, vh = H ! 7\<rparr>"

definition map_vars :: "('x \<Rightarrow> 'y) \<Rightarrow> 'x vars \<Rightarrow> 'y vars" where
  "map_vars f s = \<lparr>va = f (va s), vb = f (vb s), vc = f (vc s), vd = f (vd s),
     ve = f (ve s), vf = f (vf s), vg = f (vg s), vh = f (vh s)\<rparr>"

definition vars_list :: "'x vars \<Rightarrow> 'x list" where
  "vars_list s = [va s, vb s, vc s, vd s, ve s, vf s, vg s, vh s]"

definition sha_compress :: "u32 list \<Rightarrow> u8 list \<Rightarrow> u32 list" where
  "sha_compress H block =
     map2 (+) H (vars_list (sha_rounds (zip add_constant (sha_schedule block)) (sha_vars H)))"

subsection \<open>Computing in wider words\<close>

definition lift :: "u32 \<Rightarrow> 'w::len word" where
  "lift x = ucast x"

definition low :: "'w::len word \<Rightarrow> u32" where
  "low x = ucast x"

lemma mask_32bit_take: "mask_32bit x = take_bit 32 x"
  by (simp add: mask_32bit_def take_bit_eq_mask mask_eq_exp_minus_1)

lemma mask_8bit_id: "mask_8bit x = x"
proof -
  have m: "(0xff :: u8) = mask 8" by (simp add: mask_eq_exp_minus_1)
  show ?thesis
    unfolding mask_8bit_def m by (auto intro!: bit_word_eqI simp: bit_and_iff bit_mask_iff)
qed

lemma bit_u32: "bit (x :: u32) n \<Longrightarrow> n < 32"
  by (auto dest: bit_imp_le_length)

lemma lift_bits:
  "lift (x AND y) = lift x AND lift y" "lift (x XOR y) = lift x XOR lift y"
  by (auto intro!: bit_word_eqI simp: lift_def bit_simps)

locale wide_word =
  fixes word_type :: "'w::len itself"
  assumes wide: "32 \<le> LENGTH('w)"
begin

lemma low_lift: "low (lift x :: 'w word) = x"
  using wide by (auto intro!: bit_word_eqI simp: lift_def low_def bit_simps)

lemma mask_lift: "mask_32bit (x :: 'w word) = lift (low x)"
  using wide by (auto intro!: bit_word_eqI simp: mask_32bit_take lift_def low_def bit_simps)

lemma low_add: "low ((x :: 'w word) + y) = low x + low y"
proof -
  have "(2 :: nat) ^ 32 dvd 2 ^ LENGTH('w)" using wide by (rule le_imp_power_dvd)
  then have "unat (x + y) mod 2 ^ 32 = (unat x + unat y) mod 2 ^ 32"
    by (simp add: unat_word_ariths mod_mod_cancel)
  then show ?thesis
    by (simp add: low_def word_eq_unat unat_ucast_mod unat_word_ariths mod_add_eq)
qed

lemma lift_ch: "ch (lift x :: 'w word) (lift y) (lift z) = lift (sha_Ch x y z)"
  using wide by (auto intro!: bit_word_eqI simp: ch_def sha_Ch_def lift_def bit_simps dest: bit_u32)

lemma lift_maj: "maj (lift x :: 'w word) (lift y) (lift z) = lift (sha_Maj x y z)"
  by (simp add: maj_def sha_Maj_def lift_bits)

lemma lift_rotr:
  assumes "0 < n" "n < 32"
  shows "rotr (lift x :: 'w word) n = lift (word_rotr n x)"
proof (rule bit_word_eqI)
  fix i
  assume i: "i < LENGTH('w)"
  have "bit (rotr (lift x :: 'w word) n) i \<longleftrightarrow>
      i < 32 \<and> (i + n < 32 \<and> bit x (i + n) \<or> 32 - n \<le> i \<and> bit x (i - (32 - n)))"
    using i wide assms by (auto simp: rotr_def mask_32bit_take lift_def bit_simps add.commute [of n i] dest: bit_u32)
  also have "\<dots> \<longleftrightarrow> i < 32 \<and> bit x ((i + n) mod 32)"
  proof (cases "i + n < 32")
    case True
    then show ?thesis using assms by auto
  next
    case False
    then have "(i + n) mod 32 = i - (32 - n)" if "i < 32"
      using assms that by (simp add: le_mod_geq)
    then show ?thesis using False assms by auto
  qed
  also have "\<dots> \<longleftrightarrow> bit (lift (word_rotr n x) :: 'w word) i"
    using i by (auto simp: lift_def bit_simps bit_word_rotr_iff)
  finally show "bit (rotr (lift x :: 'w word) n) i \<longleftrightarrow> bit (lift (word_rotr n x) :: 'w word) i" .
qed

lemma lift_shr: "shr (lift x :: 'w word) n = lift (drop_bit n x)"
proof (rule bit_word_eqI)
  fix i
  assume "i < LENGTH('w)"
  then show "bit (shr (lift x :: 'w word) n) i \<longleftrightarrow> bit (lift (drop_bit n x) :: 'w word) i"
    using wide bit_u32 [of x "n + i"] by (auto simp: shr_def lift_def bit_simps)
qed

lemma lift_sigmas:
  "bsig0 (lift x :: 'w word) = lift (sha_Sigma0 x)" "bsig1 (lift x :: 'w word) = lift (sha_Sigma1 x)"
  "ssig0 (lift x :: 'w word) = lift (sha_sigma0 x)" "ssig1 (lift x :: 'w word) = lift (sha_sigma1 x)"
  by (simp_all add: bsig0_def bsig1_def ssig0_def ssig1_def sha_Sigma0_def sha_Sigma1_def
      sha_sigma0_def sha_sigma1_def lift_rotr lift_shr lift_bits)

lemma mask_sum: "mask_32bit ((x :: 'w word) + y) = lift (low x + low y)"
  by (simp add: mask_lift low_add)

lemma extend_lift:
  "16 \<le> length w \<Longrightarrow> extend_words k (map lift w :: 'w word list) = map lift (sha_extend k w)"
proof (induction k arbitrary: w)
  case (Suc k)
  let ?t = "length w"
  have "mask_32bit (ssig1 ((map lift w :: 'w word list) ! (?t - 2)) + map lift w ! (?t - 7) +
      ssig0 (map lift w ! (?t - 15)) + map lift w ! (?t - 16)) =
      lift (sha_sigma1 (w ! (?t - 2)) + w ! (?t - 7) + sha_sigma0 (w ! (?t - 15)) + w ! (?t - 16))"
    using Suc.prems by (simp add: lift_sigmas mask_lift low_add low_lift)
  then show ?case
    using Suc.IH [of "w @ [sha_sigma1 (w ! (?t - 2)) + w ! (?t - 7) + sha_sigma0 (w ! (?t - 15)) + w ! (?t - 16)]"]
      Suc.prems by (simp add: Let_def)
qed simp

lemma rounds_lift:
  "hash256_rounds (map (\<lambda>(k, w). (lift k, lift w)) kws) (map_vars lift s :: 'w word vars)
    = map_vars lift (sha_rounds kws s)"
proof (induction kws arbitrary: s)
  case (Cons kw kws)
  obtain k w where kw: "kw = (k, w)" by fastforce
  let ?T1 = "vh s + sha_Sigma1 (ve s) + sha_Ch (ve s) (vf s) (vg s) + k + w"
  let ?T2 = "sha_Sigma0 (va s) + sha_Maj (va s) (vb s) (vc s)"
  have "hash256_rounds (map (\<lambda>(k, w). (lift k, lift w)) (kw # kws)) (map_vars lift s :: 'w word vars) =
      hash256_rounds (map (\<lambda>(k, w). (lift k, lift w)) kws)
        (map_vars lift \<lparr>va = ?T1 + ?T2, vb = va s, vc = vb s, vd = vc s,
            ve = vd s + ?T1, vf = ve s, vg = vf s, vh = vg s\<rparr>)"
    by (simp add: kw Let_def map_vars_def lift_sigmas lift_ch lift_maj mask_lift low_add low_lift)
  then show ?case by (simp only: Cons.IH) (simp add: kw Let_def)
qed (simp add: map_vars_def)

lemma lift_le_join: "length bs \<le> 4 \<Longrightarrow> (lift (le_join bs) :: 'w word) = le_join bs"
  by (auto intro!: bit_word_eqI simp: lift_def bit_unsigned_iff bit_le_join)

lemma block_word_lift:
  assumes "length block = 64" "i < 16"
  shows "(block_word block i :: 'w word) = lift (le_join (rev (take 4 (drop (4 * i) block))))"
proof -
  let ?p = "drop (4 * i) block"
  have "length (take 4 ?p) = 4" using assms by simp
  then obtain a b c d where p: "take 4 ?p = [a, b, c, d]" by (rule length_4_cases)
  have "block ! (i * 4 + j) = take 4 ?p ! j" if "j < 4" for j
    using that assms by (simp add: mult.commute)
  from this [of 0] this [of 1] this [of 2] this [of 3]
  have n: "block ! (i * 4) = a" "block ! (i * 4 + 1) = b" "block ! (i * 4 + 2) = c" "block ! (i * 4 + 3) = d"
    by (simp_all add: p)
  have "(block_word block i :: 'w word) = le_join [d, c, b, a]"
    unfolding block_word_def n mask_8bit_id by (simp add: push_bit_or or.assoc or.commute or.left_commute)
  moreover have "(lift (le_join [d, c, b, a]) :: 'w word) = le_join [d, c, b, a]"
    by (rule lift_le_join) simp
  ultimately show ?thesis by (simp only: p rev.simps append.simps)
qed

lemma schedule_lift:
  assumes "length block = 64"
  shows "(extend_words 48 (map (block_word block) [0..<16]) :: 'w word list) = map lift (sha_schedule block)"
proof -
  let ?w = "map (\<lambda>i. le_join (rev (take 4 (drop (4 * i) block)))) [0..<16] :: u32 list"
  have e: "(map (block_word block) [0..<16] :: 'w word list) = map lift ?w"
    using block_word_lift [OF assms] by (auto simp del: upt_rec_numeral)
  show ?thesis unfolding e sha_schedule_def by (rule extend_lift) simp
qed

lemma add_constant_lift: "(add_constant :: 'w word list) = map lift add_constant"
  by (simp add: add_constant_def lift_def)

lemma initial_lift: "(initial_message_digest :: 'w word list) = map lift initial_message_digest"
  by (simp add: initial_message_digest_def lift_def)

lemma block_lift:
  assumes "length H = 8" "length block = 64"
  shows "hash256_block (map lift H :: 'w word list) block = map lift (sha_compress H block)"
proof -
  obtain h0 h1 h2 h3 h4 h5 h6 h7 where H: "H = [h0, h1, h2, h3, h4, h5, h6, h7]"
    using assms(1) by (rule length_8_cases)
  let ?kws = "zip add_constant (sha_schedule block)"
  have z: "zip (add_constant :: 'w word list) (map lift (sha_schedule block))
      = map (\<lambda>(k, w). (lift k, lift w)) ?kws"
    by (simp add: add_constant_lift zip_map_map)
  have v: "\<lparr>va = (map lift H :: 'w word list) ! 0, vb = map lift H ! 1, vc = map lift H ! 2, vd = map lift H ! 3,
      ve = map lift H ! 4, vf = map lift H ! 5, vg = map lift H ! 6, vh = map lift H ! 7\<rparr>
      = map_vars lift (sha_vars H)"
    by (simp add: map_vars_def sha_vars_def H)
  show ?thesis
    unfolding hash256_block_def Let_def schedule_lift [OF assms(2)] z v rounds_lift sha_compress_def
    by (simp add: map_vars_def vars_list_def H mask_lift low_add low_lift)
qed

end

subsection \<open>The standard's message digest\<close>

function sha_absorb :: "u32 list \<Rightarrow> u8 list \<Rightarrow> u32 list \<times> u8 list" where
  "sha_absorb H buf =
     (if length buf \<ge> 64 then sha_absorb (sha_compress H (take 64 buf)) (drop 64 buf) else (H, buf))"
  by pat_completeness auto
termination by (relation "measure (\<lambda>(H, buf). length buf)") auto

declare sha_absorb.simps [simp del]

definition sha_pad :: "u8 list \<Rightarrow> u8 list" where
  "sha_pad msg =
     msg @ 0x80 # replicate ((119 - length msg mod 64) mod 64) 0 @
     rev (le_split 8 (of_nat (8 * length msg) :: u64))"

definition sha_digest :: "u8 list \<Rightarrow> u8 list" where
  "sha_digest msg =
     concat (map (\<lambda>w. rev (le_split 4 w)) (fst (sha_absorb initial_message_digest (sha_pad msg))))"

lemma sha_absorb_append:
  "sha_absorb H (D @ E) = (let (H', r) = sha_absorb H D in sha_absorb H' (r @ E))"
proof (induction H D rule: sha_absorb.induct)
  case (1 H D)
  show ?case
  proof (cases "length D \<ge> 64")
    case True
    then show ?thesis
      using 1 by (simp add: sha_absorb.simps [of H "D @ E"] sha_absorb.simps [of H D])
  next
    case False
    then show ?thesis by (simp add: sha_absorb.simps [of H D])
  qed
qed

lemma sha_absorb_rest: "length (snd (sha_absorb H D)) = length D mod 64"
proof (induction H D rule: sha_absorb.induct)
  case (1 H D)
  then show ?case
    by (cases "length D \<ge> 64") (simp_all add: sha_absorb.simps [of H D] le_mod_geq)
qed

lemma length_sha_compress [len_simps]: "length H = 8 \<Longrightarrow> length (sha_compress H block) = 8"
  by (simp add: sha_compress_def vars_list_def)

lemma length_sha_absorb: "length H = 8 \<Longrightarrow> length (fst (sha_absorb H D)) = 8"
proof (induction H D rule: sha_absorb.induct)
  case (1 H D)
  then show ?case
    by (cases "length D \<ge> 64") (simp_all add: sha_absorb.simps [of H D] length_sha_compress)
qed

subsection \<open>The length in 16-bit digits\<close>

fun val16 :: "'w::len word list \<Rightarrow> nat" where
  "val16 [] = 0"
| "val16 (d # ds) = unat d + 65536 * val16 ds"

definition digits16 :: "'w::len word list \<Rightarrow> bool" where
  "digits16 ds \<longleftrightarrow> (\<forall>d \<in> set ds. unat d < 65536)"

lemma val16_less: "digits16 ds \<Longrightarrow> val16 ds < 65536 ^ length ds"
proof (induction ds)
  case (Cons d ds)
  then show ?case using digit_cons_less [of "unat d" 65536 "val16 ds"] by (simp add: digits16_def)
qed simp

context wide_word
begin

lemma unat_mask16: "unat ((d :: 'w word) AND 65535) = unat d mod 65536"
proof -
  have m: "(65535 :: 'w word) = mask 16" by (simp add: mask_eq_exp_minus_1)
  show ?thesis unfolding m by (simp add: unat_take_bit_mod flip: take_bit_eq_mask)
qed

lemma big: "(2 :: nat) ^ 32 \<le> 2 ^ LENGTH('w)"
  using wide by (rule power_increasing) simp

lemma take_bit_65536 [simp]: "take_bit LENGTH('w) (65536 :: nat) = 65536"
proof -
  have "(65536 :: nat) < 2 ^ LENGTH('w)" using big by simp
  then show ?thesis by (rule take_bit_nat_eq_self)
qed

lemma unat_65536: "unat (65536 :: 'w word) = 65536"
  by simp

lemma carry_digits_value:
  fixes c d :: "'w word"
  assumes "unat d + unat c < 2 ^ LENGTH('w)" "digits16 ds"
  shows "digits16 (carry_digits c (d # ds)) \<and> length (carry_digits c (d # ds)) = Suc (length ds) \<and>
    val16 (carry_digits c (d # ds)) = (val16 (d # ds) + unat c) mod 65536 ^ Suc (length ds)"
  using assms
proof (induction ds arbitrary: c d)
  case Nil
  then have s: "unat (d + c) = unat d + unat c" by (simp add: unat_word_ariths)
  show ?case
    by (auto simp: Let_def s unat_mask16 digits16_def word_le_nat_alt unat_65536)
next
  case (Cons e ds)
  have s: "unat (d + c) = unat d + unat c" using Cons.prems by (simp add: unat_word_ariths)
  show ?case
  proof (cases "unat d + unat c \<ge> 65536")
    case True
    let ?c = "drop_bit 16 (d + c)"
    have q: "unat ?c = (unat d + unat c) div 65536" by (simp add: unat_drop_bit_div s)
    have "(2 :: nat) ^ LENGTH('w) = 2 ^ (LENGTH('w) - 16) * 65536"
      using wide power_add [of "2 :: nat" "LENGTH('w) - 16" 16] by simp
    then have "unat ?c < 2 ^ (LENGTH('w) - 16)"
      using Cons.prems(1) by (simp add: q less_mult_imp_div_less)
    moreover have "unat e < 2 ^ (LENGTH('w) - 16)"
    proof -
      have "unat e < 2 ^ 16" using Cons.prems(2) by (simp add: digits16_def)
      also have "(2 :: nat) ^ 16 \<le> 2 ^ (LENGTH('w) - 16)" using wide by (intro power_increasing) simp_all
      finally show ?thesis .
    qed
    moreover have "(2 :: nat) ^ (LENGTH('w) - 16) + 2 ^ (LENGTH('w) - 16) \<le> 2 ^ LENGTH('w)"
    proof -
      have "Suc (LENGTH('w) - 16) \<le> LENGTH('w)" using wide by linarith
      then have "(2 :: nat) ^ Suc (LENGTH('w) - 16) \<le> 2 ^ LENGTH('w)" by (rule power_increasing) simp
      then show ?thesis by simp
    qed
    ultimately have "unat e + unat ?c < 2 ^ LENGTH('w)" by linarith
    then have ih: "digits16 (carry_digits ?c (e # ds)) \<and> length (carry_digits ?c (e # ds)) = Suc (length ds) \<and>
        val16 (carry_digits ?c (e # ds)) = (val16 (e # ds) + unat ?c) mod 65536 ^ Suc (length ds)"
      using Cons.IH Cons.prems(2) by (simp add: digits16_def)
    have "val16 (d # e # ds) + unat c = (unat d + unat c) mod 65536 + 65536 * (val16 (e # ds) + unat ?c)"
      using div_mult_mod_eq [of "unat d + unat c" 65536] unfolding q val16.simps by algebra
    then have "(val16 (d # e # ds) + unat c) mod 65536 ^ Suc (length (e # ds)) =
        (unat d + unat c) mod 65536 + 65536 * ((val16 (e # ds) + unat ?c) mod 65536 ^ Suc (length ds))"
      by (simp only: length_Cons power_Suc [of _ "Suc (length ds)"] digit_mod mod_less_divisor zero_less_numeral)
    then show ?thesis
      using ih True
      by (simp add: carry_digits.simps(2) [of c d] Let_def word_le_nat_alt unat_65536 s unat_mask16
          digits16_def del: carry_digits.simps(2) val16.simps(2))
        (simp only: val16.simps unat_mask16 s)
  next
    case False
    have "digits16 ((d + c) # e # ds)" using Cons.prems False s by (simp add: digits16_def)
    then have "val16 ((d + c) # e # ds) < 65536 ^ Suc (length (e # ds))" using val16_less by fastforce
    then show ?thesis
      using False \<open>digits16 ((d + c) # e # ds)\<close> s
      by (simp add: Let_def word_le_nat_alt unat_65536 add.commute add.left_commute)
  qed
qed

lemma shift_digits_value:
  fixes c :: "'w word"
  assumes "unat c < 8" "digits16 ds"
  shows "digits16 (shift_digits c ds) \<and> length (shift_digits c ds) = length ds \<and>
    val16 (shift_digits c ds) = (8 * val16 ds + unat c) mod 65536 ^ length ds"
  using assms
proof (induction ds arbitrary: c)
  case Nil
  then show ?case by (simp add: digits16_def)
next
  case (Cons d ds)
  have d: "unat d < 65536" and ds: "digits16 ds" using Cons.prems(2) by (simp_all add: digits16_def)
  have "(65536 :: nat) * 8 \<le> 2 ^ 32" by simp
  then have b: "unat d * 8 < 2 ^ LENGTH('w)" using d big by linarith
  have x: "unat ((push_bit 3 d OR c) AND 65535) = (8 * unat d + unat c) mod 65536"
    using unat_push_bit_or [of 3 c d] wide b Cons.prems(1) by (simp add: unat_mask16 unat_push_bit_mod mult.commute)
  have q: "unat (drop_bit 13 d AND 65535) = unat d div 8192"
    using d div_le_dividend [of "unat d" 8192] by (simp add: unat_mask16 unat_drop_bit_div)
  then have c8: "unat (drop_bit 13 d AND 65535) < 8" using d by (simp add: less_mult_imp_div_less)
  note ih = Cons.IH [OF c8 ds]
  have "8 * unat d + unat c = (8 * unat d + unat c) mod 65536 + 65536 * (unat d div 8192)"
  proof -
    have "(8 * unat d + unat c) div 65536 = (8 * unat d + unat c) div 8 div 8192"
      by (simp flip: div_mult2_eq)
    also have "\<dots> = unat d div 8192" using Cons.prems(1) by simp
    finally show ?thesis by (metis mod_mult_div_eq)
  qed
  then have "8 * val16 (d # ds) + unat c =
      (8 * unat d + unat c) mod 65536 + 65536 * (8 * val16 ds + unat d div 8192)"
    by simp
  then have "(8 * val16 (d # ds) + unat c) mod 65536 ^ length (d # ds) =
      (8 * unat d + unat c) mod 65536 + 65536 * ((8 * val16 ds + unat d div 8192) mod 65536 ^ length ds)"
    by (simp only: length_Cons power_Suc digit_mod mod_less_divisor zero_less_numeral)
  then show ?case using ih by (simp add: x q digits16_def del: val16.simps) (simp only: val16.simps x q)
qed

lemma write_digits_append: "write_digits (xs @ ys) = write_digits xs @ write_digits (ys :: 'w word list)"
  by (induction xs) simp_all

lemma write_digits_value:
  "digits16 (ds :: 'w word list) \<Longrightarrow>
     limbs_val (rev (write_digits (rev ds))) = val16 ds \<and> length (write_digits (rev ds)) = 2 * length ds"
proof (induction ds)
  case (Cons d ds)
  have d: "unat d < 65536" using Cons.prems by (simp add: digits16_def)
  have lo: "unat (ucast d :: u8) = unat d mod 256" by (simp add: unat_ucast_mod)
  have hi: "unat (ucast (drop_bit 8 d) :: u8) = unat d div 256"
    using d by (simp add: unat_ucast_mod unat_drop_bit_div less_mult_imp_div_less)
  have "unat d mod 256 + 256 * (unat d div 256) = unat d" by (rule mod_mult_div_eq)
  then show ?case using Cons by (simp add: write_digits_append digits16_def lo hi)
qed simp

lemma limbs_val_le_split: "limbs_val (le_split 8 (w :: u64)) = unat w"
proof -
  have "unat (le_join (le_split 8 w) :: u64) = limbs_val (le_split 8 w)"
    by (rule le_join_val) (simp add: len_simps)
  then show ?thesis by (simp add: le_join_split)
qed

lemma bit_length_bytes:
  fixes digits :: "'w word list"
  assumes "digits16 digits" "length digits = 4" "val16 digits = N mod 2 ^ 64"
  shows "write_data_bit_length digits = rev (le_split 8 (of_nat (8 * N) :: u64))"
proof -
  note s = shift_digits_value [of 0, OF _ assms(1)]
  note w = write_digits_value [of "shift_digits 0 digits"]
  have "limbs_val (rev (write_data_bit_length digits)) = (8 * (N mod 2 ^ 64)) mod 2 ^ 64"
    using s w by (simp add: write_data_bit_length_def assms(2,3))
  also have "\<dots> = (8 * N) mod 2 ^ 64" by (rule mod_mult_right_eq)
  also have "\<dots> = limbs_val (le_split 8 (of_nat (8 * N) :: u64))"
    unfolding limbs_val_le_split by (simp only: unat_of_nat) simp
  finally have "rev (write_data_bit_length digits) = le_split 8 (of_nat (8 * N) :: u64)"
    using limbs_val_inj [of "rev (write_data_bit_length digits)" "le_split 8 (of_nat (8 * N) :: u64)"] s w
    by (simp add: write_data_bit_length_def assms(2) length_le_split)
  then show ?thesis by (metis rev_rev_ident)
qed

end

subsection \<open>The hasher computes the standard's digest\<close>

text \<open>What the hasher holds after the bytes \<open>D\<close>, in any number of pieces.\<close>

definition hasher_holds :: "'w::len word hash256_one_by_one \<Rightarrow> u8 list \<Rightarrow> bool" where
  "hasher_holds s D \<longleftrightarrow>
     hash_h s = map lift (fst (sha_absorb initial_message_digest D)) \<and>
     hash_buffer s = snd (sha_absorb initial_message_digest D) \<and>
     length (length_digits s) = 4 \<and> digits16 (length_digits s) \<and>
     val16 (length_digits s) = length D mod 2 ^ 64"

context wide_word
begin

lemma val16_zeros: "val16 (replicate n 0) = 0"
  by (induction n) simp_all

lemma init_holds: "hasher_holds (hasher_init :: 'w word hash256_one_by_one) []"
  by (simp add: hasher_holds_def hasher_init_def sha_absorb.simps [of _ "[]"] initial_lift
      digits16_def val16_zeros del: map_eq_conv)

lemma process_blocks_lift:
  "length H = 8 \<Longrightarrow>
     process_blocks (map lift H :: 'w word list) buf = (map lift (fst (sha_absorb H buf)), snd (sha_absorb H buf))"
proof (induction H buf rule: sha_absorb.induct)
  case (1 H buf)
  then show ?case
    by (cases "length buf \<ge> 64")
      (simp_all add: process_blocks.simps [of "map lift H"] sha_absorb.simps [of H buf] block_lift length_sha_compress)
qed

lemma length_initial: "length (initial_message_digest :: u32 list) = 8"
  by (simp add: initial_message_digest_def)

lemma process_holds:
  fixes s :: "'w word hash256_one_by_one"
  assumes "hasher_holds s D" "length E + 65536 \<le> 2 ^ LENGTH('w)"
  shows "hasher_holds (hasher_process s E) (D @ E)"
proof -
  obtain H r where a: "sha_absorb initial_message_digest D = (H, r)" by fastforce
  have H: "length H = 8" using length_sha_absorb [OF length_initial, of D] a by simp
  have s: "hash_h s = map lift H" "hash_buffer s = r" "length (length_digits s) = 4"
      "digits16 (length_digits s)" "val16 (length_digits s) = length D mod 2 ^ 64"
    using assms(1) by (simp_all add: hasher_holds_def a)
  obtain d ds where d: "length_digits s = d # ds" "length ds = 3"
    using s(3) by (cases "length_digits s") simp_all
  have dd: "unat d < 65536" "digits16 ds" using s(4) by (simp_all add: d digits16_def)
  have n: "unat (of_nat (length E) :: 'w word) = length E" using assms(2) by (simp add: unat_of_nat)
  have e: "unat (d + of_nat (length E)) = unat d + length E"
    using dd(1) assms(2) n by (simp add: unat_word_ariths)
  have "unat (d + of_nat (length E)) + unat (0 :: 'w word) < 2 ^ LENGTH('w)" by (simp add: unat_bound)
  from carry_digits_value [OF this dd(2)]
  have c: "digits16 (add_to_data_length (length_digits s) (of_nat (length E)))"
    "length (add_to_data_length (length_digits s) (of_nat (length E))) = 4"
    "val16 (add_to_data_length (length_digits s) (of_nat (length E))) =
      (unat d + length E + 65536 * val16 ds) mod 65536 ^ 4"
    by (simp_all add: add_to_data_length_def d e)
  have "(unat d + length E + 65536 * val16 ds) mod 2 ^ 64 = (length D mod 2 ^ 64 + length E) mod 2 ^ 64"
    using s(5) by (simp add: d ac_simps)
  also have "\<dots> = length (D @ E) mod 2 ^ 64" by (simp add: mod_add_left_eq)
  finally have v: "(unat d + length E + 65536 * val16 ds) mod 65536 ^ 4 = length (D @ E) mod 2 ^ 64" by simp
  have p: "process_blocks (hash_h s) (hash_buffer s @ E) =
      (map lift (fst (sha_absorb initial_message_digest (D @ E))), snd (sha_absorb initial_message_digest (D @ E)))"
    using process_blocks_lift [OF H, of "r @ E"] by (simp add: s sha_absorb_append [of _ D E] a)
  show ?thesis using c v by (simp add: hasher_holds_def hasher_process_def p)
qed

lemma digest_bytes_lift: "digest_bytes (lift x :: 'w word) = rev (le_split 4 x)"
proof -
  have "(ucast (drop_bit n (lift x :: 'w word)) :: u8) = ucast (drop_bit n x)" for n
  proof (rule bit_word_eqI)
    fix i
    show "bit (ucast (drop_bit n (lift x :: 'w word)) :: u8) i \<longleftrightarrow> bit (ucast (drop_bit n x) :: u8) i"
      using wide bit_u32 [of x "n + i"] by (auto simp: lift_def bit_simps)
  qed
  then show ?thesis by (simp add: digest_bytes_def le_split_def mask_8bit_id upt_rec)
qed

lemma finish_holds:
  fixes s :: "'w word hash256_one_by_one"
  assumes "hasher_holds s D"
  shows "get_hash_bytes (hasher_finish s) count = take count (sha_digest D)"
proof -
  obtain H r where a: "sha_absorb initial_message_digest D = (H, r)" by fastforce
  have H: "length H = 8" using length_sha_absorb [OF length_initial, of D] a by simp
  have r: "length r = length D mod 64" using sha_absorb_rest [of initial_message_digest D] a by simp
  then have r64: "length r < 64" by simp
  have s: "hash_h s = map lift H" "hash_buffer s = r" using assms by (simp_all add: hasher_holds_def a)
  define L where "L = rev (le_split 8 (of_nat (8 * length D) :: u64))"
  have L: "length L = 8" by (simp add: L_def length_le_split)
  have w: "write_data_bit_length (length_digits s) = L"
    unfolding L_def using assms by (intro bit_length_bytes) (simp_all add: hasher_holds_def)
  define z where "z = (119 - length r) mod 64"
  have pad: "sha_absorb initial_message_digest (sha_pad D) = sha_absorb H (r @ 0x80 # replicate z 0 @ L)"
    by (simp add: sha_pad_def sha_absorb_append [of _ D] a L_def z_def r)
  have one: "sha_absorb K B = (sha_compress K B, [])" if "length B = 64" for K B
    using that by (simp add: sha_absorb.simps [of K B] sha_absorb.simps [of _ "[]"])
  have "hash_h (hasher_finish s) = map lift (fst (sha_absorb H (r @ 0x80 # replicate z 0 @ L)))"
  proof (cases "length r > 55")
    case True
    let ?B1 = "r @ 0x80 # replicate (63 - length r) 0" and ?B2 = "replicate 56 0 @ L"
    have l: "length ?B1 = 64" "length ?B2 = 64" using r64 L by simp_all
    have "z = 119 - length r" using True r64 by (simp add: z_def)
    then have "z = (63 - length r) + 56" using r64 by simp
    then have "r @ 0x80 # replicate z 0 @ L = ?B1 @ ?B2" by (simp only: replicate_add append_assoc append_Cons)
    then have "sha_absorb H (r @ 0x80 # replicate z 0 @ L) = (sha_compress (sha_compress H ?B1) ?B2, [])"
      using one [OF l(1)] one [OF l(2)] by (simp only: sha_absorb_append [of H ?B1] Let_def prod.case append_Nil)
    moreover have "hash_h (hasher_finish s) = hash256_block (hash256_block (map lift H) ?B1) ?B2"
      using True by (simp add: hasher_finish_def s w)
    ultimately show ?thesis by (simp only: block_lift [OF H l(1)] block_lift [OF length_sha_compress [OF H] l(2)] fst_conv)
  next
    case False
    let ?B = "r @ 0x80 # replicate z 0 @ L"
    have z: "z = 55 - length r" using False by (simp add: z_def le_mod_geq)
    then have l: "length ?B = 64" using False L by simp
    have "take 56 (r @ 0x80 # replicate (63 - length r) 0) = r @ 0x80 # replicate z 0"
      using False by (simp add: z take_Cons')
    then have "hash_h (hasher_finish s) = hash256_block (map lift H) ?B"
      using False by (simp add: hasher_finish_def s w)
    then show ?thesis by (simp only: block_lift [OF H l] one [OF l] fst_conv)
  qed
  then show ?thesis by (simp add: get_hash_bytes_def sha_digest_def pad digest_bytes_lift comp_def)
qed

lemma process_all_holds:
  fixes s :: "'w word hash256_one_by_one"
  shows "hasher_holds s D \<Longrightarrow> \<forall>E \<in> set Es. length E + 65536 \<le> 2 ^ LENGTH('w) \<Longrightarrow>
    hasher_holds (foldl hasher_process s Es) (D @ concat Es)"
proof (induction Es arbitrary: s D)
  case (Cons E Es)
  then show ?case using Cons.IH [of "hasher_process s E" "D @ E"] process_holds by simp
qed simp

lemma pieces_digest:
  assumes "\<forall>E \<in> set Es. length E + 65536 \<le> 2 ^ LENGTH('w)"
  shows "get_hash_bytes (hasher_finish (foldl hasher_process (hasher_init :: 'w word hash256_one_by_one) Es)) 32 =
    take 32 (sha_digest (concat Es))"
  using finish_holds [OF process_all_holds [OF init_holds assms]] by simp

end

interpretation w64: wide_word "TYPE(64)"
  by unfold_locales simp

interpretation w32: wide_word "TYPE(32)"
  by unfold_locales simp


subsection \<open>The entry points\<close>

text \<open>
  The overloads of \<open>hash256\<close> on iterators come down to two: one call of
  \<open>process\<close>, or one per buffer of \<open>buffer_size\<close> elements. The width of
  \<open>word_t\<close> is the type argument.
\<close>

definition hash256 :: "'w::len itself \<Rightarrow> u8 list \<Rightarrow> nat \<Rightarrow> u8 list" where
  "hash256 word_t src count =
     get_hash_bytes (hasher_finish (hasher_process (hasher_init :: 'w word hash256_one_by_one) src)) count"

function feed_buffers :: "nat \<Rightarrow> 'w::len word hash256_one_by_one \<Rightarrow> u8 list \<Rightarrow> 'w word hash256_one_by_one" where
  "feed_buffers buffer_size s src =
     (if src \<noteq> [] \<and> buffer_size > 0
      then feed_buffers buffer_size (hasher_process s (take buffer_size src)) (drop buffer_size src)
      else s)"
  by pat_completeness auto
termination by (relation "measure (\<lambda>(n, s, src). length src)") auto

declare feed_buffers.simps [simp del]

definition hash256_input :: "'w::len itself \<Rightarrow> nat \<Rightarrow> u8 list \<Rightarrow> nat \<Rightarrow> u8 list" where
  "hash256_input word_t buffer_size src count =
     get_hash_bytes (hasher_finish (feed_buffers buffer_size (hasher_init :: 'w word hash256_one_by_one) src)) count"

definition k_digest_size :: nat where
  "k_digest_size = 32"

text \<open>Two lower-case digits per byte, from a stream with width two and fill zero.\<close>

fun output_hex :: "u8 list \<Rightarrow> string" where
  "output_hex [] = []"
| "output_hex (b # bs) = hex_byte b @ output_hex bs"

definition bytes_to_hex_string :: "u8 list \<Rightarrow> string" where
  "bytes_to_hex_string bytes = output_hex bytes"

definition get_hash_hex_string :: "'w::len word hash256_one_by_one \<Rightarrow> string" where
  "get_hash_hex_string hasher = bytes_to_hex_string (get_hash_bytes hasher k_digest_size)"

definition hash256_hex_string :: "'w::len itself \<Rightarrow> u8 list \<Rightarrow> string" where
  "hash256_hex_string word_t src = output_hex (hash256 word_t src k_digest_size)"

text \<open>The digest of OpenSSL, which \<open>sha256\<close> on bytes calls, is a parameter.\<close>

definition sha256 :: "(u8 list \<Rightarrow> u8 list) \<Rightarrow> u8 list \<Rightarrow> nat \<Rightarrow> u8 list" where
  "sha256 openssl target hash_len = take (if hash_len < 32 then hash_len else 32) (openssl target)"

definition sha256_hex_string :: "'w::len itself \<Rightarrow> u8 list \<Rightarrow> string" where
  "sha256_hex_string word_t str = hash256_hex_string word_t str"

definition sha256_of_string :: "'w::len itself \<Rightarrow> u8 list \<Rightarrow> base_blob" where
  "sha256_of_string word_t str = SetHex 256 (hash256_hex_string word_t str)"

definition sha256_of_bytes :: "(u8 list \<Rightarrow> u8 list) \<Rightarrow> u8 list \<Rightarrow> base_blob" where
  "sha256_of_bytes openssl data =
     Blob (sha256 openssl data 32)"

definition sha256s :: "'w::len itself \<Rightarrow> u8 list \<Rightarrow> string" where
  "sha256s word_t str = sha256_hex_string word_t str"

lemma length_sha_digest [len_simps]: "length (sha_digest D) = 32"
  using length_sha_absorb [OF w64.length_initial, of "sha_pad D"]
  by (simp add: sha_digest_def length_concat comp_def length_le_split sum_list_triv)

text \<open>
  C12. The streaming hash is SHA-256. For a \<open>word_t\<close> of 64 and of 32 bits, and for every
  way of cutting the data into pieces whose length fits \<open>word_t\<close> with 65536 to spare,
  feeding the pieces to \<open>process\<close> and finishing gives the digest of the standard, computed
  with 32-bit rotations over the padded message: the masked arithmetic, the block buffer, the
  length in four 16-bit digits and both padding branches are right.
\<close>

theorem hasher_is_sha256:
  assumes "\<forall>E \<in> set Es. length E + 65536 \<le> 2 ^ 32"
  shows "get_hash_bytes (hasher_finish (foldl hasher_process (hasher_init :: 64 word hash256_one_by_one) Es)) 32 =
      sha_digest (concat Es) \<and>
    get_hash_bytes (hasher_finish (foldl hasher_process (hasher_init :: 32 word hash256_one_by_one) Es)) 32 =
      sha_digest (concat Es)"
proof -
  have "\<forall>E \<in> set Es. length E + 65536 \<le> 2 ^ 64" using assms by auto
  then show ?thesis
    using w64.pieces_digest [of Es] w32.pieces_digest [of Es] assms by (simp add: length_sha_digest)
qed

lemma sha_digest_abc:
  "sha_digest [97, 98, 99] =
     [186, 120, 22, 191, 143, 1, 207, 234, 65, 65, 64, 222, 93, 174, 34, 35,
      176, 3, 97, 163, 150, 23, 122, 156, 180, 16, 255, 97, 242, 0, 21, 173]"
  by code_simp

theorem hasher_is_sha256_witness:
  "get_hash_bytes (hasher_finish (foldl hasher_process (hasher_init :: 64 word hash256_one_by_one) [[97], [98, 99]])) 32 =
     [186, 120, 22, 191, 143, 1, 207, 234, 65, 65, 64, 222, 93, 174, 34, 35,
      176, 3, 97, 163, 150, 23, 122, 156, 180, 16, 255, 97, 242, 0, 21, 173]"
  using hasher_is_sha256 [of "[[97], [98, 99]]"] by (simp add: sha_digest_abc)

lemma hash256_digest:
  "length src + 65536 \<le> 2 ^ 64 \<Longrightarrow> hash256 TYPE(64) src count = take count (sha_digest src)"
  using w64.finish_holds [OF w64.process_holds [OF w64.init_holds]] by (simp add: hash256_def)

lemma feed_buffers_holds:
  "hasher_holds s D \<Longrightarrow> n > 0 \<Longrightarrow> n + 65536 \<le> 2 ^ 64 \<Longrightarrow>
     hasher_holds (feed_buffers n (s :: 64 word hash256_one_by_one) src) (D @ src)"
proof (induction n s src arbitrary: D rule: feed_buffers.induct)
  case (1 n s src)
  show ?case
  proof (cases "src = []")
    case True
    then show ?thesis using 1(2) by (subst feed_buffers.simps) simp
  next
    case False
    have "hasher_holds (hasher_process s (take n src)) (D @ take n src)"
      using 1(2-4) by (intro w64.process_holds) simp_all
    then have "hasher_holds (feed_buffers n (hasher_process s (take n src)) (drop n src))
        ((D @ take n src) @ drop n src)"
      using 1(1,3,4) False by blast
    then show ?thesis using False 1(3) by (simp add: feed_buffers.simps [of n s src])
  qed
qed

lemma output_hex_HexStr: "output_hex bs = HexStr False bs"
  by (induction bs) (simp_all add: HexStr_plain)

text \<open>
  C36. The entry points agree, up to byte order. Reading through an input iterator in
  buffers of any size gives the digest of the whole range; the hexadecimal text is the digest
  in lower case; and the \<open>uint256\<close> that the overload on strings sets from that text
  holds the bytes of the digest in reverse, while the overload on bytes, given an OpenSSL that
  computes SHA-256, holds them in order: on data whose digest is not a palindrome the two
  overloads of \<open>sha256\<close> return different values.
\<close>

theorem sha256_entry_points:
  assumes "length src + 65536 \<le> 2 ^ 64" "0 < buffer_size" "buffer_size + 65536 \<le> 2 ^ 64"
    and openssl: "\<forall>m. openssl m = sha_digest m"
  shows "hash256_input TYPE(64) buffer_size src count = hash256 TYPE(64) src count \<and>
    ParseHex (hash256_hex_string TYPE(64) src) = sha_digest src \<and>
    blob_data (sha256_of_string TYPE(64) src) = rev (sha_digest src) \<and>
    blob_data (sha256_of_bytes openssl src) = sha_digest src"
proof (intro conjI)
  have "hasher_holds (feed_buffers buffer_size (hasher_init :: 64 word hash256_one_by_one) src) src"
    using feed_buffers_holds [OF w64.init_holds assms(2,3)] by simp
  then show "hash256_input TYPE(64) buffer_size src count = hash256 TYPE(64) src count"
    using w64.finish_holds assms(1) by (simp add: hash256_input_def hash256_digest)
  have h: "hash256_hex_string TYPE(64) src = HexStr False (sha_digest src)"
    using assms(1)
    by (simp add: hash256_hex_string_def hash256_digest k_digest_size_def output_hex_HexStr length_sha_digest)
  then show "ParseHex (hash256_hex_string TYPE(64) src) = sha_digest src" by (simp add: ParseHex_HexStr)
  have "SetHex 256 (GetHex (Blob (rev (sha_digest src)))) = Blob (rev (sha_digest src))"
    by (rule SetHex_GetHex) (simp add: WIDTH_def length_sha_digest)
  then show "blob_data (sha256_of_string TYPE(64) src) = rev (sha_digest src)"
    by (simp add: sha256_of_string_def h GetHex_def)
  show "blob_data (sha256_of_bytes openssl src) = sha_digest src"
    using openssl by (simp add: sha256_of_bytes_def sha256_def length_sha_digest)
qed

theorem sha256_entry_points_witness:
  "blob_data (sha256_of_string TYPE(64) [97, 98, 99]) = rev (sha_digest [97, 98, 99]) \<and>
   blob_data (sha256_of_bytes sha_digest [97, 98, 99]) = sha_digest [97, 98, 99]"
  using sha256_entry_points [of "[97, 98, 99]" 2 sha_digest 32] by simp

end
