(* ===== verification/Base58.thy ===== *)
theory Base58
  imports Sha256
begin

text \<open>
  Base-58 text (bryllite-core/base58.cpp). Both directions convert a number between radices
  in a vector allocated from the length of the input; the vector is kept here least
  significant digit first, the order in which its reverse iterator visits it. A failed
  \<open>assert(carry == 0)\<close> is a value of the result, so that it can be proved away.
\<close>

subsection \<open>Changing the radix\<close>

text \<open>
  The inner loop multiplies the digits by \<open>m\<close> and adds the carry, over at least
  \<open>len\<close> digits: the digits, the carry left at the end of the vector, and the number of
  digits visited.
\<close>

fun radix_inner :: "nat \<Rightarrow> nat \<Rightarrow> nat \<Rightarrow> nat \<Rightarrow> nat \<Rightarrow> nat list \<Rightarrow> nat list \<times> nat \<times> nat" where
  "radix_inner m B carry i len [] = ([], carry, i)"
| "radix_inner m B carry i len (d # ds) =
     (if carry \<noteq> 0 \<or> i < len
      then let carry = carry + m * d;
               (ds, carry', i) = radix_inner m B (carry div B) (i + 1) len ds
           in ((carry mod B) # ds, carry', i)
      else (d # ds, carry, i))"

fun radix_outer :: "nat \<Rightarrow> nat \<Rightarrow> nat \<Rightarrow> nat list \<Rightarrow> nat list \<Rightarrow> (nat \<times> nat list) option" where
  "radix_outer m B len b [] = Some (len, b)"
| "radix_outer m B len b (d # ds) =
     (let (b, carry, i) = radix_inner m B d 0 len b
      in if carry \<noteq> 0 then None else radix_outer m B i b ds)"

text \<open>Skipping the leading zeroes of the digits in use, most significant first.\<close>

definition radix_digits :: "nat \<Rightarrow> nat list \<Rightarrow> nat list" where
  "radix_digits len b = dropWhile (\<lambda>d. d = 0) (rev (take len b))"

subsection \<open>Encoding\<close>

definition pszBase58 :: string where
  "pszBase58 = ''123456789ABCDEFGHJKLMNPQRSTUVWXYZabcdefghijkmnopqrstuvwxyz''"

text \<open>\<open>None\<close> is the failed assertion.\<close>

definition EncodeBase58 :: "u8 list \<Rightarrow> string option" where
  "EncodeBase58 vch =
     (let zeroes = length (takeWhile (\<lambda>b. b = 0) vch);
          rest = dropWhile (\<lambda>b. b = 0) vch;
          size = length rest * 138 div 100 + 1
      in case radix_outer 256 58 0 (replicate size 0) (map unat rest) of
           None \<Rightarrow> None
         | Some (len, b58) \<Rightarrow>
             Some (replicate zeroes (CHR ''1'') @ map (\<lambda>d. pszBase58 ! d) (radix_digits len b58)))"

subsection \<open>Decoding\<close>

definition mapBase58 :: "int list" where
  "mapBase58 =
     replicate 49 (- 1) @ map int [0..<9] @ replicate 7 (- 1) @ map int [9..<17] @ [- 1] @
     map int [17..<22] @ [- 1] @ map int [22..<33] @ replicate 6 (- 1) @ map int [33..<44] @
     [- 1] @ map int [44..<58] @ replicate 133 (- 1)"

datatype base58_error = Invalid | Assertion | Out_of_range

fun decode_loop :: "nat \<Rightarrow> nat list \<Rightarrow> string \<Rightarrow> base58_error + nat \<times> nat list \<times> string" where
  "decode_loop len b256 [] = Inr (len, b256, [])"
| "decode_loop len b256 (c # psz) =
     (if isspace c then Inr (len, b256, c # psz)
      else if mapBase58 ! of_char c = - 1 then Inl Invalid
      else let (b256, carry, i) = radix_inner 58 256 (nat (mapBase58 ! of_char c)) 0 len b256
           in if carry \<noteq> 0 then Inl Assertion else decode_loop i b256 psz)"

definition DecodeBase58 :: "string \<Rightarrow> base58_error + u8 list" where
  "DecodeBase58 str =
     (let psz = dropWhile isspace (c_str str);
          zeroes = length (takeWhile (\<lambda>c. c = CHR ''1'') psz);
          psz = dropWhile (\<lambda>c. c = CHR ''1'') psz;
          size = length psz * 733 div 1000 + 1
      in case decode_loop 0 (replicate size 0) psz of
           Inl e \<Rightarrow> Inl e
         | Inr (len, b256, psz) \<Rightarrow>
             if dropWhile isspace psz \<noteq> [] then Inl Invalid
             else Inr (replicate zeroes 0 @ map of_nat (radix_digits len b256)))"

subsection \<open>Numbers and their digits\<close>

fun val_le :: "nat \<Rightarrow> nat list \<Rightarrow> nat" where
  "val_le B [] = 0"
| "val_le B (d # ds) = d + B * val_le B ds"

definition digits_ok :: "nat \<Rightarrow> nat list \<Rightarrow> bool" where
  "digits_ok B ds \<longleftrightarrow> (\<forall>d \<in> set ds. d < B)"

definition val_be :: "nat \<Rightarrow> nat list \<Rightarrow> nat" where
  "val_be B ds = val_le B (rev ds)"

lemma val_le_append: "val_le B (xs @ ys) = val_le B xs + B ^ length xs * val_le B ys"
  by (induction xs) (simp_all add: algebra_simps)

lemma val_le_zeros [simp]: "val_le B (replicate n 0) = 0"
  by (induction n) simp_all

lemma val_le_less: "digits_ok B ds \<Longrightarrow> val_le B ds < B ^ length ds"
proof (induction ds)
  case (Cons d ds)
  then show ?case using digit_cons_less [of d B "val_le B ds" "B ^ length ds"] by (simp add: digits_ok_def)
qed simp

lemma val_be_snoc: "val_be B (ds @ [d]) = B * val_be B ds + d"
  by (simp add: val_be_def)

text \<open>Two digit lists without leading zeroes and with one value are the same.\<close>

lemma val_le_pos: "ds \<noteq> [] \<Longrightarrow> last ds \<noteq> 0 \<Longrightarrow> digits_ok B ds \<Longrightarrow> val_le B ds \<noteq> 0"
proof (induction ds)
  case (Cons d ds)
  then show ?case by (cases "ds = []") (auto simp: digits_ok_def)
qed simp

lemma val_le_inj:
  assumes "digits_ok B xs" "digits_ok B ys" "xs \<noteq> [] \<longrightarrow> last xs \<noteq> 0" "ys \<noteq> [] \<longrightarrow> last ys \<noteq> 0"
    "val_le B xs = val_le B ys"
  shows "xs = ys"
  using assms
proof (induction xs arbitrary: ys)
  case Nil
  then show ?case using val_le_pos [of ys B] by (cases "ys = []") simp_all
next
  case (Cons x xs)
  show ?case
  proof (cases ys)
    case Nil
    then show ?thesis using Cons.prems val_le_pos [of "x # xs" B] by (simp del: val_le.simps(2))
  next
    case (Cons y ys')
    have d: "x < B" "y < B" using Cons.prems(1,2) Cons by (simp_all add: digits_ok_def)
    have "x = y \<and> val_le B xs = val_le B ys'"
      using digit_cons_eq [OF d] Cons.prems(5) Cons by simp
    moreover have "xs = ys'"
    proof (rule Cons.IH)
      show "digits_ok B xs" "digits_ok B ys'" using Cons.prems(1,2) Cons by (simp_all add: digits_ok_def)
      show "xs \<noteq> [] \<longrightarrow> last xs \<noteq> 0" "ys' \<noteq> [] \<longrightarrow> last ys' \<noteq> 0" using Cons.prems(3,4) Cons by auto
      show "val_le B xs = val_le B ys'" using calculation by simp
    qed
    ultimately show ?thesis using Cons by simp
  qed
qed

lemma val_be_inj:
  assumes "digits_ok B xs" "digits_ok B ys" "xs \<noteq> [] \<longrightarrow> hd xs \<noteq> 0" "ys \<noteq> [] \<longrightarrow> hd ys \<noteq> 0"
    "val_be B xs = val_be B ys"
  shows "xs = ys"
proof -
  have "rev xs = rev ys"
    using assms by (intro val_le_inj [of B]) (simp_all add: digits_ok_def val_be_def last_rev)
  then show ?thesis by simp
qed

text \<open>The inner loop is exact: what it stores and the carry it leaves make \<open>m * b + carry\<close>.\<close>

lemma radix_inner_value:
  "radix_inner m B c i len b = (b', c', i') \<Longrightarrow> 0 < B \<Longrightarrow> digits_ok B b \<Longrightarrow>
     \<forall>d \<in> set (drop (len - i) b). d = 0 \<Longrightarrow>
     length b' = length b \<and> digits_ok B b' \<and> val_le B b' + B ^ length b * c' = m * val_le B b + c \<and>
     i \<le> i' \<and> (\<forall>d \<in> set (drop (i' - i) b'). d = 0)"
proof (induction m B c i len b arbitrary: b' i' rule: radix_inner.induct)
  case (1 m B carry i len)
  then show ?case by simp
next
  case (2 m B c i len d ds)
  show ?case
  proof (cases "c \<noteq> 0 \<or> i < len")
    case True
    let ?c = "c + m * d"
    obtain ds' i1 where r: "radix_inner m B (?c div B) (i + 1) len ds = (ds', c', i')"
      and b': "b' = (?c mod B) # ds'" and i1: "i1 = i'"
      using 2(2) True by (auto simp: Let_def split: prod.splits)
    have z: "\<forall>d \<in> set (drop (len - (i + 1)) ds). d = 0"
    proof (cases "len - i")
      case 0
      then show ?thesis using 2(5) by (auto dest: in_set_dropD)
    next
      case (Suc k)
      then have "len - (i + 1) = k" by simp
      then show ?thesis using 2(5) Suc by simp
    qed
    have ih: "length ds' = length ds \<and> digits_ok B ds' \<and>
        val_le B ds' + B ^ length ds * c' = m * val_le B ds + ?c div B \<and>
        i + 1 \<le> i' \<and> (\<forall>d \<in> set (drop (i' - (i + 1)) ds'). d = 0)"
      using 2(1) [OF True refl r] 2(3,4) z by (simp add: digits_ok_def)
    have "val_le B b' + B ^ length (d # ds) * c' = ?c mod B + B * (val_le B ds' + B ^ length ds * c')"
      by (simp add: b' algebra_simps)
    also have "\<dots> = ?c mod B + B * (?c div B) + B * (m * val_le B ds)"
      using ih by (simp add: algebra_simps)
    also have "\<dots> = m * val_le B (d # ds) + c" by (simp add: algebra_simps)
    finally have "val_le B b' + B ^ length (d # ds) * c' = m * val_le B (d # ds) + c" .
    moreover have "i' - i = Suc (i' - (i + 1))"
    proof -
      have "i + 1 \<le> i'" using ih by blast
      then show ?thesis by linarith
    qed
    ultimately show ?thesis using ih 2(3) by (simp add: b' digits_ok_def del: val_le.simps)
  next
    case False
    then have "b' = d # ds" "c' = 0" "i' = i" "c = 0" using 2(2) by auto
    moreover have "\<forall>x \<in> set (d # ds). x = 0" using 2(5) False by simp
    then have "val_le B (d # ds) = 0" by (induction ds) simp_all
    ultimately show ?thesis using 2(4) \<open>\<forall>x \<in> set (d # ds). x = 0\<close> by (simp del: val_le.simps)
  qed
qed

lemma radix_outer_value:
  assumes "0 < m" "0 < B" "digits_ok B b" "digits_ok m ds" "\<forall>d \<in> set (drop len b). d = 0"
    "(val_le B b + 1) * m ^ length ds \<le> B ^ length b"
  shows "\<exists>len' b'. radix_outer m B len b ds = Some (len', b') \<and> digits_ok B b' \<and>
    (\<forall>d \<in> set (drop len' b'). d = 0) \<and> val_le B b' = val_le B b * m ^ length ds + val_be m ds"
  using assms(3-)
proof (induction ds arbitrary: b len)
  case Nil
  then show ?case by (simp add: val_be_def)
next
  case (Cons d ds)
  obtain b1 c1 i1 where r: "radix_inner m B d 0 len b = (b1, c1, i1)" by (metis prod_cases3)
  have v: "length b1 = length b \<and> digits_ok B b1 \<and> val_le B b1 + B ^ length b * c1 = m * val_le B b + d \<and>
      (\<forall>d \<in> set (drop i1 b1). d = 0)"
    using radix_inner_value [OF r assms(2) Cons.prems(1)] Cons.prems(3) by simp
  have d: "d < m" "digits_ok m ds" using Cons.prems(2) by (simp_all add: digits_ok_def)
  have b: "(m * val_le B b + m) * m ^ length ds \<le> B ^ length b"
    using Cons.prems(4) by (simp add: algebra_simps)
  have "m * val_le B b + d < m * val_le B b + m" using d by simp
  also have "\<dots> \<le> (m * val_le B b + m) * m ^ length ds" using assms(1) by simp
  also note b
  finally have c1: "c1 = 0" using v
    by (metis add_lessD1 add.commute le_add1 less_le_not_le mult.right_neutral mult_le_mono2 less_one not_le le_trans)
  have "(val_le B b1 + 1) * m ^ length ds \<le> (m * val_le B b + m) * m ^ length ds"
    using v d c1 by (intro mult_le_mono1) simp
  then have "(val_le B b1 + 1) * m ^ length ds \<le> B ^ length b1" using b v by simp
  then obtain len' b' where ih: "radix_outer m B i1 b1 ds = Some (len', b')" "digits_ok B b'"
      "\<forall>d \<in> set (drop len' b'). d = 0" "val_le B b' = val_le B b1 * m ^ length ds + val_be m ds"
    using Cons.IH [of b1 i1] v d by blast
  have "val_be m (d # ds) = d * m ^ length ds + val_be m ds"
    by (simp add: val_be_def val_le_append)
  then have "val_le B b' = val_le B b * m ^ length (d # ds) + val_be m (d # ds)"
    using ih(4) v c1 by (simp add: algebra_simps)
  then show ?case using ih r c1 by simp
qed

lemma radix_digits_value:
  assumes "digits_ok B b" "\<forall>d \<in> set (drop len b). d = 0"
  shows "digits_ok B (radix_digits len b) \<and> val_be B (radix_digits len b) = val_le B b \<and>
    (radix_digits len b \<noteq> [] \<longrightarrow> hd (radix_digits len b) \<noteq> 0)"
proof -
  have "val_be B (dropWhile (\<lambda>d. d = 0) ds) = val_be B ds" for ds
    by (induction ds) (simp_all add: val_be_def val_le_append)
  then have "val_be B (radix_digits len b) = val_le B (take len b)"
    by (simp add: radix_digits_def val_be_def)
  also have "\<dots> = val_le B b"
  proof -
    have "val_le B (drop len b) = 0" using assms(2) by (induction "drop len b" arbitrary: len b) (auto, metis replicate_eqI val_le_zeros)
    then show ?thesis using val_le_append [of B "take len b" "drop len b"] by simp
  qed
  finally show ?thesis
    using assms(1) hd_dropWhile [of "\<lambda>d. d = 0" "rev (take len b)"]
    by (auto simp: radix_digits_def digits_ok_def dest!: set_dropWhileD in_set_takeD)
qed


text \<open>
  The contract of a direction: radices and a size that holds every number of \<open>k\<close> digits.
  The client's result is that the conversion never fails and keeps the value.
\<close>

locale radix =
  fixes m B :: nat and size :: "nat \<Rightarrow> nat"
  assumes pos: "0 < m" "0 < B"
    and fits: "m ^ k \<le> B ^ size k"
begin

lemma converts:
  assumes "digits_ok m ds" "length ds \<le> n"
  shows "\<exists>len b. radix_outer m B 0 (replicate (size n) 0) ds = Some (len, b) \<and>
    digits_ok B (radix_digits len b) \<and> val_be B (radix_digits len b) = val_be m ds \<and>
    (radix_digits len b \<noteq> [] \<longrightarrow> hd (radix_digits len b) \<noteq> 0)"
proof -
  have "m ^ length ds \<le> m ^ n" using assms(2) pos by (intro power_increasing) simp_all
  then have "m ^ length ds \<le> B ^ size n" using fits [of n] by simp
  moreover have "digits_ok B (replicate (size n) 0)" using pos by (simp add: digits_ok_def)
  ultimately obtain len b where "radix_outer m B 0 (replicate (size n) 0) ds = Some (len, b)"
      "digits_ok B b" "\<forall>d \<in> set (drop len b). d = 0" "val_le B b = val_be m ds"
    using radix_outer_value [OF pos, of "replicate (size n) 0" ds 0] assms(1) by auto
  then show ?thesis using radix_digits_value by metis
qed

end

lemma fits_by_root:
  fixes m B p q :: nat
  assumes "m ^ q \<le> B ^ p" "0 < q" "0 < B"
  shows "m ^ k \<le> B ^ (k * p div q + 1)"
proof -
  have "(m ^ k) ^ q = (m ^ q) ^ k" by (simp add: mult.commute flip: power_mult)
  also have "\<dots> \<le> (B ^ p) ^ k" using assms(1) by (rule power_mono) simp
  also have "\<dots> = B ^ (k * p)" by (simp add: mult.commute flip: power_mult)
  also have "\<dots> \<le> B ^ (q * (k * p div q + 1))"
  proof (rule power_increasing)
    have "k * p = q * (k * p div q) + k * p mod q" by simp
    moreover have "k * p mod q < q" using assms(2) by simp
    ultimately show "k * p \<le> q * (k * p div q + 1)" unfolding distrib_left by linarith
  qed (use assms(3) in simp)
  also have "\<dots> = (B ^ (k * p div q + 1)) ^ q" by (metis mult.commute power_mult)
  finally show ?thesis using assms(2) by (simp only: power_mono_iff le0)
qed

lemma power_factor: "n = j * k \<Longrightarrow> (a :: nat) ^ n = (a ^ j) ^ k"
  by (simp only: power_mult)

lemma encode_size: "(256 :: nat) ^ 100 \<le> 58 ^ 138"
proof -
  have "(256 :: nat) = 2 ^ 8" by simp
  then have "(256 :: nat) ^ 100 = (2 ^ 8) ^ 100" by (rule arg_cong)
  also have "\<dots> = 2 ^ 800" by (rule power_factor [symmetric]) simp
  also have "\<dots> \<le> 2 ^ 805" by (rule power_increasing) simp_all
  also have "\<dots> = (2 ^ 35) ^ 23" by (rule power_factor) simp
  also have "\<dots> \<le> (58 ^ 6) ^ 23" by (rule power_mono) simp_all
  also have "\<dots> = 58 ^ 138" by (rule power_factor [symmetric]) simp
  finally show ?thesis .
qed

lemma decode_size: "(58 :: nat) ^ 1000 \<le> 256 ^ 733"
proof -
  have "(58 :: nat) ^ 1000 = (58 ^ 50) ^ 20" by (rule power_factor) simp
  also have "\<dots> \<le> (2 ^ 293) ^ 20" by (rule power_mono) simp_all
  also have "\<dots> = 2 ^ 5860" by (rule power_factor [symmetric]) simp
  also have "\<dots> \<le> 2 ^ 5864" by (rule power_increasing) simp_all
  also have "\<dots> = (2 ^ 8) ^ 733" by (rule power_factor) simp
  also have "(2 :: nat) ^ 8 = 256" by simp
  finally show ?thesis .
qed

interpretation enc: radix 256 58 "\<lambda>k. k * 138 div 100 + 1"
  by unfold_locales (simp_all only: fits_by_root [OF encode_size] zero_less_numeral)

interpretation dec: radix 58 256 "\<lambda>k. k * 733 div 1000 + 1"
  by unfold_locales (simp_all only: fits_by_root [OF decode_size] zero_less_numeral)


subsection \<open>The alphabet\<close>

lemma psz_table:
  "map of_char pszBase58 = map (\<lambda>v. if v < 9 then v + 49 else if v < 17 then v + 56 else if v < 22 then v + 57
     else if v < 33 then v + 58 else if v < 44 then v + 64 else v + 65 :: nat) [0..<58]"
  by code_simp

lemma of_char_psz:
  assumes "v < 58"
  shows "of_char (pszBase58 ! v) =
    (if v < 9 then v + 49 else if v < 17 then v + 56 else if v < 22 then v + 57
     else if v < 33 then v + 58 else if v < 44 then v + 64 else v + 65 :: nat)"
proof -
  have "length pszBase58 = 58" by (simp add: pszBase58_def)
  then have "of_char (pszBase58 ! v) = map of_char pszBase58 ! v" using assms by (simp only: nth_map)
  also have "\<dots> = (if v < 9 then v + 49 else if v < 17 then v + 56 else if v < 22 then v + 57
     else if v < 33 then v + 58 else if v < 44 then v + 64 else v + 65)"
    unfolding psz_table using assms by (simp del: upt_rec_numeral)
  finally show ?thesis .
qed

lemma mapBase58_table:
  "mapBase58 = map (\<lambda>n. if 49 \<le> n \<and> n < 58 then n - 49 else if 65 \<le> n \<and> n < 73 then n - 56
     else if 74 \<le> n \<and> n < 79 then n - 57 else if 80 \<le> n \<and> n < 91 then n - 58
     else if 97 \<le> n \<and> n < 108 then n - 64 else if 109 \<le> n \<and> n < 123 then n - 65 else - 1) [0..255]"
  by code_simp

lemma mapBase58_at:
  assumes "n < 256"
  shows "mapBase58 ! n =
    (if 49 \<le> n \<and> n < 58 then int n - 49 else if 65 \<le> n \<and> n < 73 then int n - 56
     else if 74 \<le> n \<and> n < 79 then int n - 57 else if 80 \<le> n \<and> n < 91 then int n - 58
     else if 97 \<le> n \<and> n < 108 then int n - 64 else if 109 \<le> n \<and> n < 123 then int n - 65 else - 1)"
  using assms by (simp add: mapBase58_table nth_upto)

definition b58_digit :: "char \<Rightarrow> nat" where
  "b58_digit c = nat (mapBase58 ! of_char c)"

definition b58_char :: "char \<Rightarrow> bool" where
  "b58_char c \<longleftrightarrow> mapBase58 ! of_char c \<noteq> - 1"

lemma b58_codes:
  defines "f \<equiv> \<lambda>v. if v < 9 then v + 49 else if v < 17 then v + 56 else if v < 22 then v + 57
     else if v < 33 then v + 58 else if v < 44 then v + 64 else v + 65 :: nat"
  shows "v < 58 \<Longrightarrow> f v < 256 \<and> mapBase58 ! f v = int v"
    and "n < 256 \<Longrightarrow> mapBase58 ! n \<noteq> - 1 \<Longrightarrow> nat (mapBase58 ! n) < 58 \<and> f (nat (mapBase58 ! n)) = n"
proof -
  assume v: "v < 58"
  then have "f v < 256" by (simp add: f_def)
  moreover have "mapBase58 ! f v = int v" unfolding mapBase58_at [OF \<open>f v < 256\<close>] using v by (auto simp: f_def)
  ultimately show "f v < 256 \<and> mapBase58 ! f v = int v" ..
next
  assume n: "n < 256" "mapBase58 ! n \<noteq> - 1"
  then consider "49 \<le> n \<and> n < 58" | "65 \<le> n \<and> n < 73" | "74 \<le> n \<and> n < 79"
    | "80 \<le> n \<and> n < 91" | "97 \<le> n \<and> n < 108" | "109 \<le> n \<and> n < 123"
    unfolding mapBase58_at [OF n(1)] by argo
  then show "nat (mapBase58 ! n) < 58 \<and> f (nat (mapBase58 ! n)) = n"
    unfolding mapBase58_at [OF n(1)] by cases (auto simp: f_def nat_diff_distrib)
qed

lemma psz_digit:
  assumes "v < 58"
  shows "b58_char (pszBase58 ! v)" "b58_digit (pszBase58 ! v) = v"
  using b58_codes(1) [OF assms] unfolding b58_char_def b58_digit_def of_char_psz [OF assms] by simp_all

lemma char_eq_codes: "c = d \<longleftrightarrow> of_char c = (of_char d :: nat)"
  by (metis char_of_char)

lemma digit_psz:
  assumes "b58_char c"
  shows "b58_digit c < 58 \<and> pszBase58 ! b58_digit c = c"
proof
  note m = b58_codes(2) [OF nat_of_char_less_256, of c]
  show d: "b58_digit c < 58" using m assms by (simp add: b58_char_def b58_digit_def)
  have "of_char (pszBase58 ! b58_digit c) = (of_char c :: nat)"
    unfolding of_char_psz [OF d] using m assms unfolding b58_char_def b58_digit_def by blast
  then show "pszBase58 ! b58_digit c = c" by (simp only: char_eq_codes)
qed

lemma digit_0: "b58_char c \<Longrightarrow> b58_digit c = 0 \<longleftrightarrow> c = CHR ''1''"
  using digit_psz [of c] psz_digit(2) [of 0] by (auto simp: pszBase58_def)

lemma char_codes: "b58_char c \<Longrightarrow> 49 \<le> (of_char c :: nat)"
  unfolding b58_char_def mapBase58_at [OF nat_of_char_less_256] by (simp split: if_splits)

lemma b58_char_text: "b58_char c \<Longrightarrow> \<not> isspace c \<and> c \<noteq> NUL"
  using char_codes [of c] by (auto simp: isspace_def NUL_def)

subsection \<open>The decoding loop\<close>

lemma decode_loop_digits:
  "\<forall>c \<in> set xs. b58_char c \<Longrightarrow>
     decode_loop len b (xs @ rest) =
       (case radix_outer 58 256 len b (map b58_digit xs) of
          None \<Rightarrow> Inl Assertion | Some (len, b) \<Rightarrow> decode_loop len b rest)"
proof (induction xs arbitrary: len b)
  case (Cons c xs)
  obtain b1 c1 i1 where r: "radix_inner 58 256 (b58_digit c) 0 len b = (b1, c1, i1)" by (metis prod_cases3)
  show ?case
    using Cons r b58_char_text [of c] by (simp add: b58_digit_def b58_char_def)
qed simp

lemma decode_loop_stop:
  "rest = [] \<or> \<not> b58_char (hd rest) \<Longrightarrow>
     decode_loop len b rest = (if rest \<noteq> [] \<and> \<not> isspace (hd rest) then Inl Invalid else Inr (len, b, rest))"
  by (cases rest) (auto simp: b58_char_def)

lemma digits_ok_values: "\<forall>c \<in> set xs. b58_char c \<Longrightarrow> digits_ok 58 (map b58_digit xs)"
  using digit_psz by (auto simp: digits_ok_def)

text \<open>The text around a number: its ones, its digits and what follows.\<close>

lemma DecodeBase58_parts:
  assumes "dropWhile isspace (c_str s) = replicate z (CHR ''1'') @ xs @ rest"
    and "xs @ rest = [] \<or> hd (xs @ rest) \<noteq> CHR ''1''"
    and "\<forall>c \<in> set xs. b58_char c" "rest = [] \<or> \<not> b58_char (hd rest)"
  shows "\<exists>ds. digits_ok 256 ds \<and> val_be 256 ds = val_be 58 (map b58_digit xs) \<and> (ds \<noteq> [] \<longrightarrow> hd ds \<noteq> 0) \<and>
    DecodeBase58 s = (if dropWhile isspace rest = [] then Inr (replicate z 0 @ map of_nat ds) else Inl Invalid)"
proof -
  have o: "takeWhile (\<lambda>c. c = CHR ''1'') (replicate z (CHR ''1'') @ xs @ rest) = replicate z (CHR ''1'')"
    and d: "dropWhile (\<lambda>c. c = CHR ''1'') (replicate z (CHR ''1'') @ xs @ rest) = xs @ rest"
    using assms(2) by (induction z) (cases "xs @ rest"; auto)+
  obtain len b where c: "radix_outer 58 256 0 (replicate (length (xs @ rest) * 733 div 1000 + 1) 0)
        (map b58_digit xs) = Some (len, b)"
      "digits_ok 256 (radix_digits len b)" "val_be 256 (radix_digits len b) = val_be 58 (map b58_digit xs)"
      "radix_digits len b \<noteq> [] \<longrightarrow> hd (radix_digits len b) \<noteq> 0"
    using dec.converts [OF digits_ok_values [OF assms(3)], of "length (xs @ rest)"] by auto
  have "DecodeBase58 s = (if dropWhile isspace rest = []
      then Inr (replicate z 0 @ map of_nat (radix_digits len b)) else Inl Invalid)"
    unfolding DecodeBase58_def Let_def assms(1) o d decode_loop_digits [OF assms(3)] c(1)
    using decode_loop_stop [OF assms(4), of len b] by (cases rest) auto
  then show ?thesis using c(2-4) by blast
qed

lemma takeWhile_eq_replicate: "takeWhile (\<lambda>x. x = c) xs = replicate (length (takeWhile (\<lambda>x. x = c) xs)) c"
  by (induction xs) simp_all

lemma DecodeBase58_split:
  obtains z xs rest where "dropWhile isspace (c_str s) = replicate z (CHR ''1'') @ xs @ rest"
    "xs @ rest = [] \<or> hd (xs @ rest) \<noteq> CHR ''1''" "\<forall>c \<in> set xs. b58_char c"
    "rest = [] \<or> \<not> b58_char (hd rest)"
proof -
  let ?p = "dropWhile isspace (c_str s)"
  let ?q = "dropWhile (\<lambda>c. c = CHR ''1'') ?p"
  have "takeWhile (\<lambda>c. c = CHR ''1'') ?p = replicate (length (takeWhile (\<lambda>c. c = CHR ''1'') ?p)) (CHR ''1'')"
    by (rule takeWhile_eq_replicate)
  then have "?p = replicate (length (takeWhile (\<lambda>c. c = CHR ''1'') ?p)) (CHR ''1'') @ takeWhile b58_char ?q @ dropWhile b58_char ?q"
    by (metis takeWhile_dropWhile_id)
  moreover have "?q = [] \<or> hd ?q \<noteq> CHR ''1''" using hd_dropWhile [of "\<lambda>c. c = CHR ''1''" ?p] by auto
  moreover have "dropWhile b58_char ?q = [] \<or> \<not> b58_char (hd (dropWhile b58_char ?q))"
    using hd_dropWhile [of b58_char ?q] by auto
  ultimately show thesis
    using that [of _ "takeWhile b58_char ?q" "dropWhile b58_char ?q"] by (auto dest: set_takeWhileD)
qed

lemma EncodeBase58_parts:
  assumes "rest = [] \<or> hd rest \<noteq> 0"
  shows "\<exists>ds. digits_ok 58 ds \<and> val_be 58 ds = val_be 256 (map unat rest) \<and> (ds \<noteq> [] \<longrightarrow> hd ds \<noteq> 0) \<and>
    EncodeBase58 (replicate z 0 @ rest) = Some (replicate z (CHR ''1'') @ map (\<lambda>d. pszBase58 ! d) ds)"
proof -
  have o: "takeWhile (\<lambda>b. b = 0) (replicate z 0 @ rest) = replicate z 0"
    and d: "dropWhile (\<lambda>b. b = 0) (replicate z 0 @ rest) = rest"
    using assms by (induction z) (cases rest; auto)+
  have ok: "digits_ok 256 (map unat rest)" using unat_bound [where 'a = 8] by (auto simp: digits_ok_def)
  obtain len b where "radix_outer 256 58 0 (replicate (length rest * 138 div 100 + 1) 0) (map unat rest) = Some (len, b)"
      "digits_ok 58 (radix_digits len b)" "val_be 58 (radix_digits len b) = val_be 256 (map unat rest)"
      "radix_digits len b \<noteq> [] \<longrightarrow> hd (radix_digits len b) \<noteq> 0"
    using enc.converts [OF ok, of "length rest"] by auto
  then show ?thesis
    unfolding EncodeBase58_def Let_def o d by (intro exI [of _ "radix_digits len b"]) simp
qed

subsection \<open>What the two routines promise\<close>

lemma b58_digits_back:
  assumes "digits_ok 58 ds"
  shows "map b58_digit (map (\<lambda>d. pszBase58 ! d) ds) = ds"
    and "\<forall>c \<in> set (map (\<lambda>d. pszBase58 ! d) ds). b58_char c"
  using assms psz_digit by (auto simp: digits_ok_def intro!: map_idI)

lemma bytes_back: "digits_ok 256 ds \<Longrightarrow> map unat (map of_nat ds :: u8 list) = ds"
  by (auto simp: digits_ok_def unsigned_of_nat take_bit_nat_eq_self intro!: map_idI)

lemma hd_not_one: "\<forall>c \<in> set xs. b58_char c \<Longrightarrow> map b58_digit xs \<noteq> [] \<Longrightarrow>
    hd (map b58_digit xs) \<noteq> 0 \<longleftrightarrow> hd xs \<noteq> CHR ''1''"
  using digit_0 [of "hd xs"] by (cases xs) simp_all

lemma EncodeBase58_total:
  obtains z rest ds where "bs = replicate z 0 @ rest" "rest = [] \<or> hd rest \<noteq> 0" "digits_ok 58 ds"
    "val_be 58 ds = val_be 256 (map unat rest)" "ds \<noteq> [] \<longrightarrow> hd ds \<noteq> 0"
    "EncodeBase58 bs = Some (replicate z (CHR ''1'') @ map (\<lambda>d. pszBase58 ! d) ds)"
proof -
  let ?z = "length (takeWhile (\<lambda>b. b = 0) bs)" and ?rest = "dropWhile (\<lambda>b. b = 0) bs"
  have bs: "bs = replicate ?z 0 @ ?rest" by (metis takeWhile_eq_replicate takeWhile_dropWhile_id)
  have "?rest = [] \<or> hd ?rest \<noteq> 0" using hd_dropWhile [of "\<lambda>b. b = 0" bs] by auto
  then show thesis using EncodeBase58_parts [of ?rest ?z] that [OF bs] bs by metis
qed

lemma decoded_is_encoded:
  assumes "DecodeBase58 s = Inr bs"
  shows "\<exists>ws text ws'. c_str s = ws @ text @ ws' \<and> list_all isspace (ws @ ws') \<and> EncodeBase58 bs = Some text"
proof -
  obtain z xs rest where p: "dropWhile isspace (c_str s) = replicate z (CHR ''1'') @ xs @ rest"
    "xs @ rest = [] \<or> hd (xs @ rest) \<noteq> CHR ''1''" "\<forall>c \<in> set xs. b58_char c"
    "rest = [] \<or> \<not> b58_char (hd rest)" by (rule DecodeBase58_split)
  obtain ds where d: "digits_ok 256 ds" "val_be 256 ds = val_be 58 (map b58_digit xs)" "ds \<noteq> [] \<longrightarrow> hd ds \<noteq> 0"
    "DecodeBase58 s = (if dropWhile isspace rest = [] then Inr (replicate z 0 @ map of_nat ds) else Inl Invalid)"
    using DecodeBase58_parts [OF p] by blast
  let ?bs = "map of_nat ds :: u8 list"
  have bs: "bs = replicate z 0 @ ?bs" "dropWhile isspace rest = []" using d(4) assms by (simp_all split: if_splits)
  have "?bs = [] \<or> hd ?bs \<noteq> 0"
    using d(1,3) bytes_back [OF d(1)] by (cases ds) (auto simp: digits_ok_def)
  then obtain ds' where e: "digits_ok 58 ds'" "val_be 58 ds' = val_be 256 (map unat ?bs)" "ds' \<noteq> [] \<longrightarrow> hd ds' \<noteq> 0"
    "EncodeBase58 bs = Some (replicate z (CHR ''1'') @ map (\<lambda>d. pszBase58 ! d) ds')"
    using EncodeBase58_parts [of ?bs z] bs(1) by auto
  have "ds' = map b58_digit xs"
    using p(2) hd_not_one [OF p(3)] e(2) d(2) unfolding bytes_back [OF d(1)]
    by (intro val_be_inj [OF e(1) digits_ok_values [OF p(3)] e(3)]) (cases xs; simp)+
  then have "map (\<lambda>d. pszBase58 ! d) ds' = xs" using digit_psz p(3) by (auto intro!: map_idI)
  then have "c_str s = takeWhile isspace (c_str s) @ (replicate z (CHR ''1'') @ map (\<lambda>d. pszBase58 ! d) ds') @ rest"
    using p(1) by (metis append.assoc takeWhile_dropWhile_id)
  moreover have "list_all isspace (takeWhile isspace (c_str s) @ rest)"
    using bs(2) by (auto simp: list_all_iff dest: set_takeWhileD)
  ultimately show ?thesis using e(4) by blast
qed

lemma dropWhile_text:
  assumes "list_all isspace ws" "\<forall>c \<in> set text. \<not> isspace c" "list_all isspace ws'"
  shows "dropWhile isspace (ws @ text @ ws') = text @ (if text = [] then [] else ws')"
proof -
  have "dropWhile isspace (ws @ xs) = dropWhile isspace xs" for xs using assms(1) by (induction ws) simp_all
  then show ?thesis using assms(2,3) by (cases "text") (simp_all add: list_all_iff)
qed

lemma encoded_is_decoded:
  assumes "EncodeBase58 bs = Some text" "c_str s = ws @ text @ ws'" "list_all isspace (ws @ ws')"
  shows "DecodeBase58 s = Inr bs"
proof -
  obtain z rest ds where e: "bs = replicate z 0 @ rest" "rest = [] \<or> hd rest \<noteq> 0" "digits_ok 58 ds"
    "val_be 58 ds = val_be 256 (map unat rest)" "ds \<noteq> [] \<longrightarrow> hd ds \<noteq> 0"
    "EncodeBase58 bs = Some (replicate z (CHR ''1'') @ map (\<lambda>d. pszBase58 ! d) ds)"
    by (rule EncodeBase58_total [of bs])
  have t_eq: "text = replicate z (CHR ''1'') @ map (\<lambda>d. pszBase58 ! d) ds" using e(6) assms(1) by simp
  define xs where "xs = map (\<lambda>d. pszBase58 ! d) ds"
  have xs: "map b58_digit xs = ds" "\<forall>c \<in> set xs. b58_char c" using b58_digits_back [OF e(3)] by (simp_all add: xs_def)
  define r where "r = (if text = [] then [] else ws')"
  have one: "b58_char (CHR ''1'')" using psz_digit(1) [of 0] by (simp add: pszBase58_def)
  have "\<forall>c \<in> set text. \<not> isspace c" using xs(2) one b58_char_text by (auto simp: t_eq simp flip: xs_def)
  then have p: "dropWhile isspace (c_str s) = replicate z (CHR ''1'') @ xs @ r"
    using dropWhile_text [of ws "text" ws'] assms(2,3) by (simp add: t_eq xs_def r_def)
  have sp: "list_all isspace r" using assms(3) by (simp add: r_def)
  then have r: "r = [] \<or> isspace (hd r)" by (cases r) simp_all
  have h: "xs @ r = [] \<or> hd (xs @ r) \<noteq> CHR ''1''"
    using r e(5) hd_not_one [OF xs(2)] xs(1) one b58_char_text by (cases xs) auto
  obtain ds' where d: "digits_ok 256 ds'" "val_be 256 ds' = val_be 58 ds" "ds' \<noteq> [] \<longrightarrow> hd ds' \<noteq> 0"
    "DecodeBase58 s = (if dropWhile isspace r = [] then Inr (replicate z 0 @ map of_nat ds') else Inl Invalid)"
    using DecodeBase58_parts [OF p h xs(2)] r b58_char_text xs(1) by auto
  have "digits_ok 256 (map unat rest)" using unat_bound [where 'a = 8] by (auto simp: digits_ok_def)
  then have "ds' = map unat rest"
    using d(2) e(2,4) by (intro val_be_inj [OF d(1) _ d(3)]) (cases rest; simp add: unat_eq_0)+
  then have "map of_nat ds' = rest" by (simp add: comp_def map_idI)
  then show ?thesis using d(4) sp e(1) by (simp add: list_all_iff)
qed



subsection \<open>Checked text\<close>

text \<open>
  The conversions between bytes and hexadecimal text that utils.hpp declares are
  parameters; a \<open>substr\<close> past the end is the value \<open>Out_of_range\<close>. The checksum is
  computed over the hexadecimal text, not over the bytes it stands for.
\<close>

definition text_bytes :: "string \<Rightarrow> u8 list" where
  "text_bytes s = map of_char s"

definition encode_base58_check ::
  "(u8 \<Rightarrow> string) \<Rightarrow> (string \<Rightarrow> u8 list) \<Rightarrow> u8 \<Rightarrow> string \<Rightarrow> string option" where
  "encode_base58_check byte_to_hex hex_to_bytes prefix str =
     (let s = byte_to_hex prefix @ str;
          checksum = take 8 (sha256s TYPE(64) (text_bytes (sha256s TYPE(64) (text_bytes s))));
          s = s @ checksum;
          bytes = hex_to_bytes s
      in EncodeBase58 bytes)"

definition decode_base58_check :: "(u8 list \<Rightarrow> string) \<Rightarrow> string \<Rightarrow> base58_error + u8 list" where
  "decode_base58_check bytes_to_hex psz =
     (case DecodeBase58 psz of
        Inl e \<Rightarrow> Inl e
      | Inr vchOut \<Rightarrow>
          if length vchOut < 4 then Inl Invalid
          else let decoded = bytes_to_hex vchOut
               in if length decoded < 8 then Inl Out_of_range
                  else let payload = take (length decoded - 8) decoded;
                           checksum = drop (length decoded - 8) decoded;
                           payload_checksum = take 8 (sha256s TYPE(64) (text_bytes (sha256s TYPE(64) (text_bytes payload))))
                       in if checksum \<noteq> payload_checksum then Inl Invalid else Inr vchOut)"

lemma sha256s_hex:
  assumes "length s + 65536 \<le> 2 ^ 64"
  shows "sha256s TYPE(64) (text_bytes s) = output_hex (sha_digest (text_bytes s))"
  using assms
  by (simp add: sha256s_def sha256_hex_string_def hash256_hex_string_def hash256_digest k_digest_size_def
      length_sha_digest text_bytes_def)

lemma length_output_hex: "length (output_hex bs) = 2 * length bs"
  by (induction bs) (simp_all add: hex_byte_def)

lemma output_hex_append: "output_hex (xs @ ys) = output_hex xs @ output_hex ys"
  by (induction xs) simp_all

lemma output_hex_take: "output_hex (take n bs) = take (2 * n) (output_hex bs)"
  by (induction bs arbitrary: n) (auto simp: hex_byte_def take_Cons' diff_mult_distrib2 numeral_2_eq_2)

definition hex_checksum :: "u8 list \<Rightarrow> u8 list" where
  "hex_checksum bs = take 4 (sha_digest (text_bytes (output_hex (sha_digest (text_bytes (output_hex bs))))))"

lemma double_sha256s:
  assumes "2 * length bs + 65536 \<le> 2 ^ 64"
  shows "take 8 (sha256s TYPE(64) (text_bytes (sha256s TYPE(64) (text_bytes (output_hex bs))))) =
    output_hex (hex_checksum bs)"
  using assms output_hex_take [of 4]
  by (simp add: sha256s_hex length_output_hex length_sha_digest hex_checksum_def)

lemma EncodeBase58_decodes: "EncodeBase58 bs = Some t \<Longrightarrow> DecodeBase58 t = Inr bs"
proof (rule encoded_is_decoded [of bs t t "[]" "[]"])
  assume "EncodeBase58 bs = Some t"
  moreover obtain z ds where "digits_ok 58 ds"
    "EncodeBase58 bs = Some (replicate z (CHR ''1'') @ map (\<lambda>d. pszBase58 ! d) ds)"
    by (rule EncodeBase58_total [of bs])
  ultimately have "\<forall>c \<in> set t. c \<noteq> NUL"
    using b58_digits_back(2) [of ds] b58_char_text by (auto simp: NUL_def) metis
  then show "c_str t = [] @ t @ []" by (simp add: c_str_def takeWhile_eq_all_conv)
qed simp_all

text \<open>
  Checked text. When the conversions of utils.hpp write two lower-case digits per byte
  and read them back, encoding a prefix and a payload gives a text that decoding accepts, and
  decoding returns the prefix, the payload and also the four bytes of the checksum, which it
  leaves in the output; decoding accepts no other texts than those whose bytes end in the
  checksum of the rest.
\<close>

theorem base58_check_roundtrip:
  assumes "\<forall>b. byte_to_hex b = output_hex [b]" "\<forall>bs. bytes_to_hex bs = output_hex bs"
    and "\<forall>bs. hex_to_bytes (output_hex bs) = bs"
    and "2 * length payload + 65546 \<le> 2 ^ 64"
  shows "(\<exists>t. encode_base58_check byte_to_hex hex_to_bytes prefix (bytes_to_hex payload) = Some t \<and>
      decode_base58_check bytes_to_hex t = Inr ((prefix # payload) @ hex_checksum (prefix # payload))) \<and>
    (2 * length out + 65536 \<le> 2 ^ 64 \<longrightarrow>
      (decode_base58_check bytes_to_hex s = Inr out \<longleftrightarrow>
        DecodeBase58 s = Inr out \<and> (\<exists>bs. out = bs @ hex_checksum bs)))"
proof -
  have lc: "length (hex_checksum bs) = 4" for bs by (simp add: hex_checksum_def length_sha_digest)
  have inj: "output_hex xs = output_hex ys \<Longrightarrow> xs = ys" for xs ys using assms(3) by metis
  have dec: "decode_base58_check bytes_to_hex s = Inr out \<longleftrightarrow>
      DecodeBase58 s = Inr out \<and> (\<exists>bs. out = bs @ hex_checksum bs)"
    if l: "2 * length out + 65536 \<le> 2 ^ 64" for s out
  proof (cases "DecodeBase58 s = Inr out \<and> 4 \<le> length out")
    case True
    define bs where "bs = take (length out - 4) out"
    define cs where "cs = drop (length out - 4) out"
    have out: "out = bs @ cs" "length cs = 4" using True by (simp_all add: bs_def cs_def)
    have "decode_base58_check bytes_to_hex s =
        (if output_hex cs \<noteq> output_hex (hex_checksum bs) then Inl Invalid else Inr out)"
      using True assms(2) l double_sha256s [of bs]
      by (simp add: decode_base58_check_def out length_output_hex output_hex_append)
    moreover have "(\<exists>bs. out = bs @ hex_checksum bs) \<longleftrightarrow> cs = hex_checksum bs"
      using out lc by (metis append_eq_append_conv)
    ultimately show ?thesis using True inj by auto
  next
    case False
    then show ?thesis using lc by (auto simp: decode_base58_check_def Let_def split: sum.splits if_splits)
  qed
  let ?bs = "prefix # payload"
  have s: "byte_to_hex prefix @ bytes_to_hex payload = output_hex ?bs" using assms(1,2) by simp
  have "encode_base58_check byte_to_hex hex_to_bytes prefix (bytes_to_hex payload) =
      EncodeBase58 (?bs @ hex_checksum ?bs)"
    unfolding encode_base58_check_def Let_def s using double_sha256s [of ?bs] assms(4)
    by (simp add: assms(3) flip: output_hex_append del: output_hex.simps append_Cons)
  moreover obtain t where t: "EncodeBase58 (?bs @ hex_checksum ?bs) = Some t"
    by (rule EncodeBase58_total [of "?bs @ hex_checksum ?bs"])
  moreover have "decode_base58_check bytes_to_hex t = Inr (?bs @ hex_checksum ?bs)"
  proof (rule iffD2 [OF dec])
    show "2 * length (?bs @ hex_checksum ?bs) + 65536 \<le> 2 ^ 64" using assms(4) lc by simp
    show "DecodeBase58 t = Inr (?bs @ hex_checksum ?bs) \<and> (\<exists>bs. ?bs @ hex_checksum ?bs = bs @ hex_checksum bs)"
      using EncodeBase58_decodes [OF t] by blast
  qed
  ultimately show ?thesis using dec by metis
qed

theorem base58_check_roundtrip_witness:
  "\<exists>t. encode_base58_check (\<lambda>b. output_hex [b]) ParseHex 5 (output_hex [171, 205]) = Some t \<and>
     decode_base58_check output_hex t = Inr ([5, 171, 205] @ hex_checksum [5, 171, 205])"
  using base58_check_roundtrip [of "\<lambda>b. output_hex [b]" output_hex ParseHex "[171, 205]" 5]
  by (simp add: output_hex_HexStr ParseHex_HexStr)

end
