(* ===== verification/Ripemd160.thy ===== *)
theory Ripemd160
  imports Bcp_Prelude
begin

text \<open>
  RIPEMD-160 (bryllite-core/ripemd160.cpp): the unrolled compression function as the list of
  its 160 macro calls on named registers, and the function that cuts the message into
  blocks and builds the last one. The reference is the standard: one step function over
  rotating variables, whose word order and shifts come from the message permutation rather
  than from 320 literal numbers, on the padded message.
\<close>

subsection \<open>The macros\<close>

definition ROL :: "u32 \<Rightarrow> nat \<Rightarrow> u32" where
  "ROL x n = push_bit n x OR drop_bit (32 - n) x"

definition rmd_F :: "u32 \<Rightarrow> u32 \<Rightarrow> u32 \<Rightarrow> u32" where
  "rmd_F x y z = x XOR y XOR z"

definition rmd_G :: "u32 \<Rightarrow> u32 \<Rightarrow> u32 \<Rightarrow> u32" where
  "rmd_G x y z = (x AND y) OR (NOT x AND z)"

definition rmd_H :: "u32 \<Rightarrow> u32 \<Rightarrow> u32 \<Rightarrow> u32" where
  "rmd_H x y z = (x OR NOT y) XOR z"

definition rmd_IQ :: "u32 \<Rightarrow> u32 \<Rightarrow> u32 \<Rightarrow> u32" where
  "rmd_IQ x y z = (x AND z) OR (y AND NOT z)"

definition rmd_J :: "u32 \<Rightarrow> u32 \<Rightarrow> u32 \<Rightarrow> u32" where
  "rmd_J x y z = x XOR (y OR NOT z)"

datatype macro = FF | GG | HH | II | JJ | FFF | GGG | HHH | III | JJJ

fun macro_sum :: "macro \<Rightarrow> u32 \<Rightarrow> u32 \<Rightarrow> u32 \<Rightarrow> u32 \<Rightarrow> u32" where
  "macro_sum FF b c d x = rmd_F b c d + x"
| "macro_sum GG b c d x = rmd_G b c d + x + 0x5a827999"
| "macro_sum HH b c d x = rmd_H b c d + x + 0x6ed9eba1"
| "macro_sum II b c d x = rmd_IQ b c d + x + 0x8f1bbcdc"
| "macro_sum JJ b c d x = rmd_J b c d + x + 0xa953fd4e"
| "macro_sum FFF b c d x = rmd_F b c d + x"
| "macro_sum GGG b c d x = rmd_G b c d + x + 0x7a6d76e9"
| "macro_sum HHH b c d x = rmd_H b c d + x + 0x6d703ef3"
| "macro_sum III b c d x = rmd_IQ b c d + x + 0x5c4dd124"
| "macro_sum JJJ b c d x = rmd_J b c d + x + 0x50a28be6"

datatype reg = RA | RB | RC | RD | RE

text \<open>A macro call: its registers, the index into \<open>X\<close> and the shift.\<close>

datatype call = Call macro reg reg reg reg reg nat nat

fun exec :: "u32 list \<Rightarrow> call \<Rightarrow> (reg \<Rightarrow> u32) \<Rightarrow> reg \<Rightarrow> u32" where
  "exec X (Call m a b c d e x s) st =
     (let va = st a + macro_sum m (st b) (st c) (st d) (X ! x);
          va = ROL va s + st e
      in (st(a := va))(c := ROL (st c) 10))"

definition left_calls :: "call list" where
  "left_calls =
     [      Call FF RA RB RC RD RE 0 11, Call FF RE RA RB RC RD 1 14, Call FF RD RE RA RB RC 2 15, Call FF RC RD RE RA RB 3 12, Call FF RB RC RD RE RA 4 5,
      Call FF RA RB RC RD RE 5 8, Call FF RE RA RB RC RD 6 7, Call FF RD RE RA RB RC 7 9, Call FF RC RD RE RA RB 8 11, Call FF RB RC RD RE RA 9 13,
      Call FF RA RB RC RD RE 10 14, Call FF RE RA RB RC RD 11 15, Call FF RD RE RA RB RC 12 6, Call FF RC RD RE RA RB 13 7, Call FF RB RC RD RE RA 14 9,
      Call FF RA RB RC RD RE 15 8, Call GG RE RA RB RC RD 7 7, Call GG RD RE RA RB RC 4 6, Call GG RC RD RE RA RB 13 8, Call GG RB RC RD RE RA 1 13,
      Call GG RA RB RC RD RE 10 11, Call GG RE RA RB RC RD 6 9, Call GG RD RE RA RB RC 15 7, Call GG RC RD RE RA RB 3 15, Call GG RB RC RD RE RA 12 7,
      Call GG RA RB RC RD RE 0 12, Call GG RE RA RB RC RD 9 15, Call GG RD RE RA RB RC 5 9, Call GG RC RD RE RA RB 2 11, Call GG RB RC RD RE RA 14 7,
      Call GG RA RB RC RD RE 11 13, Call GG RE RA RB RC RD 8 12, Call HH RD RE RA RB RC 3 11, Call HH RC RD RE RA RB 10 13, Call HH RB RC RD RE RA 14 6,
      Call HH RA RB RC RD RE 4 7, Call HH RE RA RB RC RD 9 14, Call HH RD RE RA RB RC 15 9, Call HH RC RD RE RA RB 8 13, Call HH RB RC RD RE RA 1 15,
      Call HH RA RB RC RD RE 2 14, Call HH RE RA RB RC RD 7 8, Call HH RD RE RA RB RC 0 13, Call HH RC RD RE RA RB 6 6, Call HH RB RC RD RE RA 13 5,
      Call HH RA RB RC RD RE 11 12, Call HH RE RA RB RC RD 5 7, Call HH RD RE RA RB RC 12 5, Call II RC RD RE RA RB 1 11, Call II RB RC RD RE RA 9 12,
      Call II RA RB RC RD RE 11 14, Call II RE RA RB RC RD 10 15, Call II RD RE RA RB RC 0 14, Call II RC RD RE RA RB 8 15, Call II RB RC RD RE RA 12 9,
      Call II RA RB RC RD RE 4 8, Call II RE RA RB RC RD 13 9, Call II RD RE RA RB RC 3 14, Call II RC RD RE RA RB 7 5, Call II RB RC RD RE RA 15 6,
      Call II RA RB RC RD RE 14 8, Call II RE RA RB RC RD 5 6, Call II RD RE RA RB RC 6 5, Call II RC RD RE RA RB 2 12, Call JJ RB RC RD RE RA 4 9,
      Call JJ RA RB RC RD RE 0 15, Call JJ RE RA RB RC RD 5 5, Call JJ RD RE RA RB RC 9 11, Call JJ RC RD RE RA RB 7 6, Call JJ RB RC RD RE RA 12 8,
      Call JJ RA RB RC RD RE 2 13, Call JJ RE RA RB RC RD 10 12, Call JJ RD RE RA RB RC 14 5, Call JJ RC RD RE RA RB 1 12, Call JJ RB RC RD RE RA 3 13,
      Call JJ RA RB RC RD RE 8 14, Call JJ RE RA RB RC RD 11 11, Call JJ RD RE RA RB RC 6 8, Call JJ RC RD RE RA RB 15 5, Call JJ RB RC RD RE RA 13 6]"

definition right_calls :: "call list" where
  "right_calls =
     [      Call JJJ RA RB RC RD RE 5 8, Call JJJ RE RA RB RC RD 14 9, Call JJJ RD RE RA RB RC 7 9, Call JJJ RC RD RE RA RB 0 11, Call JJJ RB RC RD RE RA 9 13,
      Call JJJ RA RB RC RD RE 2 15, Call JJJ RE RA RB RC RD 11 15, Call JJJ RD RE RA RB RC 4 5, Call JJJ RC RD RE RA RB 13 7, Call JJJ RB RC RD RE RA 6 7,
      Call JJJ RA RB RC RD RE 15 8, Call JJJ RE RA RB RC RD 8 11, Call JJJ RD RE RA RB RC 1 14, Call JJJ RC RD RE RA RB 10 14, Call JJJ RB RC RD RE RA 3 12,
      Call JJJ RA RB RC RD RE 12 6, Call III RE RA RB RC RD 6 9, Call III RD RE RA RB RC 11 13, Call III RC RD RE RA RB 3 15, Call III RB RC RD RE RA 7 7,
      Call III RA RB RC RD RE 0 12, Call III RE RA RB RC RD 13 8, Call III RD RE RA RB RC 5 9, Call III RC RD RE RA RB 10 11, Call III RB RC RD RE RA 14 7,
      Call III RA RB RC RD RE 15 7, Call III RE RA RB RC RD 8 12, Call III RD RE RA RB RC 12 7, Call III RC RD RE RA RB 4 6, Call III RB RC RD RE RA 9 15,
      Call III RA RB RC RD RE 1 13, Call III RE RA RB RC RD 2 11, Call HHH RD RE RA RB RC 15 9, Call HHH RC RD RE RA RB 5 7, Call HHH RB RC RD RE RA 1 15,
      Call HHH RA RB RC RD RE 3 11, Call HHH RE RA RB RC RD 7 8, Call HHH RD RE RA RB RC 14 6, Call HHH RC RD RE RA RB 6 6, Call HHH RB RC RD RE RA 9 14,
      Call HHH RA RB RC RD RE 11 12, Call HHH RE RA RB RC RD 8 13, Call HHH RD RE RA RB RC 12 5, Call HHH RC RD RE RA RB 2 14, Call HHH RB RC RD RE RA 10 13,
      Call HHH RA RB RC RD RE 0 13, Call HHH RE RA RB RC RD 4 7, Call HHH RD RE RA RB RC 13 5, Call GGG RC RD RE RA RB 8 15, Call GGG RB RC RD RE RA 6 5,
      Call GGG RA RB RC RD RE 4 8, Call GGG RE RA RB RC RD 1 11, Call GGG RD RE RA RB RC 3 14, Call GGG RC RD RE RA RB 11 14, Call GGG RB RC RD RE RA 15 6,
      Call GGG RA RB RC RD RE 0 14, Call GGG RE RA RB RC RD 5 6, Call GGG RD RE RA RB RC 12 9, Call GGG RC RD RE RA RB 2 12, Call GGG RB RC RD RE RA 13 9,
      Call GGG RA RB RC RD RE 9 12, Call GGG RE RA RB RC RD 7 5, Call GGG RD RE RA RB RC 10 15, Call GGG RC RD RE RA RB 14 8, Call FFF RB RC RD RE RA 12 8,
      Call FFF RA RB RC RD RE 15 5, Call FFF RE RA RB RC RD 10 12, Call FFF RD RE RA RB RC 4 9, Call FFF RC RD RE RA RB 1 12, Call FFF RB RC RD RE RA 5 5,
      Call FFF RA RB RC RD RE 8 14, Call FFF RE RA RB RC RD 7 6, Call FFF RD RE RA RB RC 6 8, Call FFF RC RD RE RA RB 2 13, Call FFF RB RC RD RE RA 13 6,
      Call FFF RA RB RC RD RE 14 5, Call FFF RE RA RB RC RD 0 15, Call FFF RD RE RA RB RC 3 13, Call FFF RC RD RE RA RB 9 11, Call FFF RB RC RD RE RA 11 11]"

definition load_regs :: "u32 list \<Rightarrow> reg \<Rightarrow> u32" where
  "load_regs MDbuf r =
     (case r of RA \<Rightarrow> MDbuf ! 0 | RB \<Rightarrow> MDbuf ! 1 | RC \<Rightarrow> MDbuf ! 2 | RD \<Rightarrow> MDbuf ! 3 | RE \<Rightarrow> MDbuf ! 4)"

definition compress :: "u32 list \<Rightarrow> u32 list \<Rightarrow> u32 list" where
  "compress MDbuf X =
     (let l = fold (exec X) left_calls (load_regs MDbuf);
          r = fold (exec X) right_calls (load_regs MDbuf);
          ddd = r RD + l RC + MDbuf ! 1
      in [ddd, MDbuf ! 2 + l RD + r RE, MDbuf ! 3 + l RE + r RA, MDbuf ! 4 + l RA + r RB,
          MDbuf ! 0 + l RB + r RC])"

subsection \<open>The message\<close>

definition rmd_initial :: "u32 list" where
  "rmd_initial = [0x67452301, 0xefcdab89, 0x98badcfe, 0x10325476, 0xc3d2e1f0]"

definition read_chunk :: "u8 list \<Rightarrow> u32 list" where
  "read_chunk msg =
     map (\<lambda>j. ucast (msg ! (4 * j)) OR push_bit 8 (ucast (msg ! (4 * j + 1))) OR
            push_bit 16 (ucast (msg ! (4 * j + 2))) OR push_bit 24 (ucast (msg ! (4 * j + 3)))) [0..<16]"

fun full_chunks :: "nat \<Rightarrow> u32 list \<Rightarrow> u8 list \<Rightarrow> u32 list \<times> u8 list" where
  "full_chunks 0 digest msg = (digest, msg)"
| "full_chunks (Suc n) digest msg = full_chunks n (compress digest (read_chunk msg)) (drop 64 msg)"

fun fill_chunk :: "nat \<Rightarrow> u32 list \<Rightarrow> u8 list \<Rightarrow> u32 list" where
  "fill_chunk i chunk [] = chunk"
| "fill_chunk i chunk (b # msg) =
     fill_chunk (i + 1) (chunk[i div 4 := chunk ! (i div 4) XOR push_bit (8 * (i mod 4)) (ucast b)]) msg"

definition rmd_output :: "u32 list \<Rightarrow> u8 list" where
  "rmd_output digest =
     concat (map (\<lambda>d. [ucast d, ucast (drop_bit 8 d), ucast (drop_bit 16 d), ucast (drop_bit 24 d)]) digest)"

definition ripemd160 :: "u8 list \<Rightarrow> u32 \<Rightarrow> u8 list" where
  "ripemd160 msg msg_len =
     (let n = unat msg_len;
          (digest, msg) = full_chunks (n div 64) rmd_initial msg;
          chunk = fill_chunk 0 (replicate 16 0) (take (n mod 64) msg);
          k = n div 4 mod 16;
          chunk = chunk[k := chunk ! k XOR push_bit (8 * (n mod 4) + 7) 1];
          (digest, chunk) =
            (if n mod 64 > 55 then (compress digest chunk, replicate 16 0) else (digest, chunk));
          chunk = chunk[14 := push_bit 3 msg_len, 15 := drop_bit 29 msg_len];
          digest = compress digest chunk
      in rmd_output digest)"

subsection \<open>The standard\<close>

definition rmd_rho :: "nat list" where
  "rmd_rho = [7, 4, 13, 1, 10, 6, 15, 3, 12, 0, 9, 5, 2, 14, 11, 8]"

definition rmd_word :: "nat \<Rightarrow> nat \<Rightarrow> nat" where
  "rmd_word round i = ((\<lambda>i. rmd_rho ! i) ^^ round) i"

text \<open>The shift of each message word in each round, the same for both lines.\<close>

definition rmd_shift :: "nat \<Rightarrow> nat \<Rightarrow> nat" where
  "rmd_shift round word =
     [[11, 14, 15, 12, 5, 8, 7, 9, 11, 13, 14, 15, 6, 7, 9, 8],
      [12, 13, 11, 15, 6, 9, 9, 7, 12, 15, 11, 13, 7, 8, 7, 7],
      [13, 15, 14, 11, 7, 7, 6, 8, 13, 14, 13, 12, 5, 5, 6, 9],
      [14, 11, 12, 14, 8, 6, 5, 5, 15, 12, 15, 14, 9, 9, 8, 6],
      [15, 12, 13, 13, 9, 5, 8, 6, 14, 11, 12, 11, 8, 6, 5, 5]] ! round ! word"

definition left_word :: "nat \<Rightarrow> nat" where
  "left_word j = rmd_word (j div 16) (j mod 16)"

definition right_word :: "nat \<Rightarrow> nat" where
  "right_word j = rmd_word (j div 16) ((9 * (j mod 16) + 5) mod 16)"

definition left_sum :: "nat \<Rightarrow> u32 \<Rightarrow> u32 \<Rightarrow> u32 \<Rightarrow> u32 \<Rightarrow> u32" where
  "left_sum j = macro_sum ([FF, GG, HH, II, JJ] ! (j div 16))"

definition right_sum :: "nat \<Rightarrow> u32 \<Rightarrow> u32 \<Rightarrow> u32 \<Rightarrow> u32 \<Rightarrow> u32" where
  "right_sum j = macro_sum ([JJJ, III, HHH, GGG, FFF] ! (j div 16))"

type_synonym rmd_state = "u32 \<times> u32 \<times> u32 \<times> u32 \<times> u32"

fun rmd_step :: "(nat \<Rightarrow> u32 \<Rightarrow> u32 \<Rightarrow> u32 \<Rightarrow> u32 \<Rightarrow> u32) \<Rightarrow> (nat \<Rightarrow> nat) \<Rightarrow> u32 list \<Rightarrow> nat \<Rightarrow> rmd_state \<Rightarrow> rmd_state" where
  "rmd_step f word X j (A, B, C, D, E) =
     (E, word_rotl (rmd_shift (j div 16) (word j)) (A + f j B C D (X ! word j)) + E, B, word_rotl 10 C, D)"

fun rmd_combine :: "u32 list \<Rightarrow> rmd_state \<Rightarrow> rmd_state \<Rightarrow> u32 list" where
  "rmd_combine h (A, B, C, D, E) (A', B', C', D', E') =
     [h ! 1 + C + D', h ! 2 + D + E', h ! 3 + E + A', h ! 4 + A + B', h ! 0 + B + C']"

definition rmd_compress :: "u32 list \<Rightarrow> u32 list \<Rightarrow> u32 list" where
  "rmd_compress h X =
     (let s = (h ! 0, h ! 1, h ! 2, h ! 3, h ! 4)
      in rmd_combine h (fold (rmd_step left_sum left_word X) [0..<80] s)
           (fold (rmd_step right_sum right_word X) [0..<80] s))"

definition rmd_words :: "u8 list \<Rightarrow> u32 list" where
  "rmd_words block = map (\<lambda>j. le_join (take 4 (drop (4 * j) block))) [0..<16]"

function rmd_absorb :: "u32 list \<Rightarrow> u8 list \<Rightarrow> u32 list" where
  "rmd_absorb h buf =
     (if length buf \<ge> 64 then rmd_absorb (rmd_compress h (rmd_words (take 64 buf))) (drop 64 buf) else h)"
  by pat_completeness auto
termination by (relation "measure (\<lambda>(h, buf). length buf)") auto

declare rmd_absorb.simps [simp del]

definition rmd_pad :: "u8 list \<Rightarrow> u8 list" where
  "rmd_pad msg =
     msg @ 0x80 # replicate ((119 - length msg mod 64) mod 64) 0 @
     le_split 8 (of_nat (8 * length msg) :: u64)"

definition rmd_digest :: "u8 list \<Rightarrow> u8 list" where
  "rmd_digest msg = concat (map (le_split 4) (rmd_absorb rmd_initial (rmd_pad msg)))"

subsection \<open>The unrolled calls are the step function\<close>

text \<open>The register that plays the standard's variable \<open>i\<close> before step \<open>k\<close>.\<close>

definition reg_at :: "nat \<Rightarrow> nat \<Rightarrow> reg" where
  "reg_at k i = [RA, RB, RC, RD, RE] ! ((i + 4 * (k mod 5)) mod 5)"

definition line_call :: "macro list \<Rightarrow> (nat \<Rightarrow> nat) \<Rightarrow> nat \<Rightarrow> call" where
  "line_call ms word k =
     Call (ms ! (k div 16)) (reg_at k 0) (reg_at k 1) (reg_at k 2) (reg_at k 3) (reg_at k 4)
       (word k) (rmd_shift (k div 16) (word k))"

lemma left_calls_table: "left_calls = map (line_call [FF, GG, HH, II, JJ] left_word) [0..<80]"
  by code_simp

lemma right_calls_table: "right_calls = map (line_call [JJJ, III, HHH, GGG, FFF] right_word) [0..<80]"
  by code_simp

definition view :: "nat \<Rightarrow> (reg \<Rightarrow> u32) \<Rightarrow> rmd_state" where
  "view k st = (st (reg_at k 0), st (reg_at k 1), st (reg_at k 2), st (reg_at k 3), st (reg_at k 4))"

lemma ROL_rotl:
  assumes "0 < n" "n < 32"
  shows "ROL x n = word_rotl n x"
proof (rule bit_word_eqI)
  fix i
  assume "i < LENGTH(32)"
  then have i: "i < 32" by simp
  have "bit (ROL x n) i \<longleftrightarrow> n \<le> i \<and> bit x (i - n) \<or> i + (32 - n) < 32 \<and> bit x (i + (32 - n))"
    using i bit_imp_le_length [of x "i + (32 - n)"]
    by (auto simp: ROL_def bit_simps add.commute [of "32 - n"])
  also have "\<dots> \<longleftrightarrow> bit x ((i + (32 - n)) mod 32)"
  proof (cases "n \<le> i")
    case True
    then have "(i + (32 - n)) mod 32 = i - n" using i assms by (simp add: le_mod_geq)
    then show ?thesis using True assms by auto
  next
    case False
    then show ?thesis using assms by auto
  qed
  also have "\<dots> \<longleftrightarrow> bit (word_rotl n x) i"
    using i assms by (simp add: bit_word_rotl_iff)
  finally show "bit (ROL x n) i \<longleftrightarrow> bit (word_rotl n x) i" .
qed

lemma mod_5_cases: "k mod 5 = 0 \<or> k mod 5 = 1 \<or> k mod 5 = 2 \<or> k mod 5 = 3 \<or> k mod 5 = (4 :: nat)"
  by linarith

lemma reg_at_Suc:
  "reg_at (Suc k) 0 = reg_at k 4" "reg_at (Suc k) 1 = reg_at k 0" "reg_at (Suc k) 2 = reg_at k 1"
  "reg_at (Suc k) 3 = reg_at k 2" "reg_at (Suc k) 4 = reg_at k 3"
  using mod_5_cases [of k] by (auto simp: reg_at_def mod_Suc)

lemma reg_at_distinct: "distinct [reg_at k 0, reg_at k 1, reg_at k 2, reg_at k 3, reg_at k 4]"
  using mod_5_cases [of k] by (elim disjE) (simp_all add: reg_at_def)

lemma exec_step:
  assumes "0 < rmd_shift (k div 16) (word k)" "rmd_shift (k div 16) (word k) < 32"
  shows "view (Suc k) (exec X (line_call ms word k) st) =
    rmd_step (\<lambda>j. macro_sum (ms ! (j div 16))) word X k (view k st)"
proof -
  define a b c d e where "a = reg_at k 0" "b = reg_at k 1" "c = reg_at k 2" "d = reg_at k 3" "e = reg_at k 4"
  note defs = a_b_c_d_e_def
  have "distinct [a, b, c, d, e]" using reg_at_distinct unfolding defs .
  then have "a \<noteq> b" "a \<noteq> c" "a \<noteq> d" "a \<noteq> e" "b \<noteq> a" "b \<noteq> c" "c \<noteq> a" "c \<noteq> b" "d \<noteq> a" "d \<noteq> c"
      "e \<noteq> a" "e \<noteq> c" by auto
  moreover have "view (Suc k) st' = (st' e, st' a, st' b, st' c, st' d)" for st'
    unfolding view_def reg_at_Suc defs ..
  moreover have "view k st = (st a, st b, st c, st d, st e)" by (simp only: view_def defs)
  moreover have "line_call ms word k = Call (ms ! (k div 16)) a b c d e (word k) (rmd_shift (k div 16) (word k))"
    by (simp only: line_call_def defs)
  ultimately show ?thesis by (simp add: Let_def ROL_rotl assms)
qed

lemma fold_steps:
  assumes "\<And>k. k < n \<Longrightarrow> 0 < rmd_shift (k div 16) (word k) \<and> rmd_shift (k div 16) (word k) < 32"
  shows "view n (fold (exec X) (map (line_call ms word) [0..<n]) st) =
    fold (rmd_step (\<lambda>j. macro_sum (ms ! (j div 16))) word X) [0..<n] (view 0 st)"
  using assms
proof (induction n)
  case (Suc n)
  have "0 < rmd_shift (n div 16) (word n)" "rmd_shift (n div 16) (word n) < 32"
    using Suc.prems [of n] by simp_all
  from exec_step [where k = n and word = word, OF this] show ?case using Suc.IH Suc.prems by simp
qed simp

lemma shifts_in_range:
  "list_all (\<lambda>k. 0 < rmd_shift (k div 16) (left_word k) \<and> rmd_shift (k div 16) (left_word k) < 32) [0..<80]"
  "list_all (\<lambda>k. 0 < rmd_shift (k div 16) (right_word k) \<and> rmd_shift (k div 16) (right_word k) < 32) [0..<80]"
  by code_simp+

lemma compress_standard: "compress MDbuf X = rmd_compress MDbuf X"
proof -
  have v: "view 0 (load_regs MDbuf) = (MDbuf ! 0, MDbuf ! 1, MDbuf ! 2, MDbuf ! 3, MDbuf ! 4)"
    by (simp add: view_def reg_at_def load_regs_def)
  have e: "view 80 st = (st RA, st RB, st RC, st RD, st RE)" for st
    by (simp add: view_def reg_at_def)
  have fl: "(\<lambda>j. macro_sum ([FF, GG, HH, II, JJ] ! (j div 16))) = left_sum"
    and fr: "(\<lambda>j. macro_sum ([JJJ, III, HHH, GGG, FFF] ! (j div 16))) = right_sum"
    by (simp_all add: fun_eq_iff left_sum_def right_sum_def)
  define l where "l = fold (exec X) left_calls (load_regs MDbuf)"
  define r where "r = fold (exec X) right_calls (load_regs MDbuf)"
  have "view 80 l = fold (rmd_step left_sum left_word X) [0..<80] (view 0 (load_regs MDbuf))"
    unfolding l_def left_calls_table fl [symmetric]
    using shifts_in_range(1) by (intro fold_steps) (simp only: list_all_iff set_upt atLeastLessThan_iff le0 simp_thms)
  moreover have "view 80 r = fold (rmd_step right_sum right_word X) [0..<80] (view 0 (load_regs MDbuf))"
    unfolding r_def right_calls_table fr [symmetric]
    using shifts_in_range(2) by (intro fold_steps) (simp only: list_all_iff set_upt atLeastLessThan_iff le0 simp_thms)
  ultimately have "rmd_compress MDbuf X = rmd_combine MDbuf (view 80 l) (view 80 r)"
    by (simp only: rmd_compress_def Let_def v)
  then show ?thesis
    unfolding e rmd_combine.simps compress_def Let_def l_def [symmetric] r_def [symmetric]
    by (simp add: add.commute add.left_commute)
qed


subsection \<open>Blocks and the last chunk\<close>

lemma read_chunk_words: "64 \<le> length msg \<Longrightarrow> read_chunk msg = rmd_words (take 64 msg)"
proof -
  assume l: "64 \<le> length msg"
  have "ucast (msg ! (4 * j)) OR push_bit 8 (ucast (msg ! (4 * j + 1))) OR
      push_bit 16 (ucast (msg ! (4 * j + 2))) OR push_bit 24 (ucast (msg ! (4 * j + 3)))
      = (le_join (take 4 (drop (4 * j) (take 64 msg))) :: u32)" if "j < 16" for j
  proof -
    let ?p = "drop (4 * j) (take 64 msg)"
    have "length (take 4 ?p) = 4" using that l by simp
    then obtain a b c d where p: "take 4 ?p = [a, b, c, d]" by (rule length_4_cases)
    have "msg ! (4 * j + i) = take 4 ?p ! i" if "i < 4" for i
      using that \<open>j < 16\<close> l by simp
    from this [of 0] this [of 1] this [of 2] this [of 3]
    have "msg ! (4 * j) = a" "msg ! (4 * j + 1) = b" "msg ! (4 * j + 2) = c" "msg ! (4 * j + 3) = d"
      by (simp_all add: p)
    then show ?thesis unfolding p by (simp add: push_bit_or or.assoc)
  qed
  then show ?thesis unfolding read_chunk_def rmd_words_def by (intro map_cong) simp_all
qed

lemma full_chunks_absorb:
  "length msg div 64 = n \<Longrightarrow>
     rmd_absorb h (msg @ tail) = rmd_absorb (fst (full_chunks n h msg)) (snd (full_chunks n h msg) @ tail) \<and>
     snd (full_chunks n h msg) = drop (64 * n) msg"
proof (induction n arbitrary: h msg)
  case (Suc n)
  then have l: "64 \<le> length msg" by (metis Suc_not_Zero div_less not_le)
  have n: "length (drop 64 msg) div 64 = n" using Suc.prems l by (simp add: le_div_geq)
  have "rmd_absorb h (msg @ tail) = rmd_absorb (compress h (read_chunk msg)) (drop 64 msg @ tail)"
    using l by (simp add: rmd_absorb.simps [of h "msg @ tail"] compress_standard read_chunk_words)
  then show ?case using Suc.IH [OF n] by (simp add: add.commute)
qed simp

lemma length_rmd_words [len_simps, simp]: "length (rmd_words block) = 16"
  by (simp add: rmd_words_def)

lemma bit_rmd_words:
  assumes "j < 16" "length block = 64"
  shows "bit (rmd_words block ! j) n \<longleftrightarrow> n < 32 \<and> bit (block ! (4 * j + n div 8)) (n mod 8)"
proof -
  have "rmd_words block ! j = le_join (take 4 (drop (4 * j) block))"
    using assms(1) by (simp add: rmd_words_def del: upt_rec_numeral)
  moreover have "take 4 (drop (4 * j) block) ! (n div 8) = block ! (4 * j + n div 8)" if "n < 32"
    using that assms by simp
  ultimately show ?thesis using assms by (auto simp: bit_le_join)
qed

text \<open>Storing a byte where the block has a zero is the exclusive or on its word.\<close>

lemma rmd_words_store:
  assumes "length block = 64" "i < 64" "block ! i = 0"
  shows "rmd_words (block[i := b]) =
    (rmd_words block)[i div 4 := rmd_words block ! (i div 4) XOR push_bit (8 * (i mod 4)) (ucast b)]"
proof (rule nth_equalityI)
  fix j
  assume "j < length (rmd_words (block[i := b]))"
  then have j: "j < 16" by simp
  let ?rhs = "(rmd_words block)[i div 4 := rmd_words block ! (i div 4) XOR push_bit (8 * (i mod 4)) (ucast b)] ! j"
  show "rmd_words (block[i := b]) ! j = ?rhs"
  proof (rule bit_word_eqI)
    fix n
    assume "n < LENGTH(32)"
    then have n: "n < 32" by simp
    have i: "i = 4 * (i div 4) + i mod 4" "i mod 4 < 4" by simp_all
    have l: "bit (rmd_words (block[i := b]) ! j) n \<longleftrightarrow> bit (block[i := b] ! (4 * j + n div 8)) (n mod 8)"
      using j n assms by (simp add: bit_rmd_words)
    have b: "bit b k \<Longrightarrow> k < 8" for k using bit_imp_le_length [of b k] by simp
    show "bit (rmd_words (block[i := b]) ! j) n \<longleftrightarrow> bit ?rhs n"
    proof (cases "j = i div 4")
      case False
      then have "4 * j + n div 8 \<noteq> i" using n by auto
      then show ?thesis using False j n assms by (simp add: l bit_rmd_words)
    next
      case True
      have e: "4 * j + n div 8 = i \<longleftrightarrow> n div 8 = i mod 4" using i True by linarith
      have r: "bit ?rhs n \<longleftrightarrow> bit (block ! (4 * j + n div 8)) (n mod 8) \<noteq>
          (8 * (i mod 4) \<le> n \<and> bit b (n - 8 * (i mod 4)))"
      proof -
        have "n - 8 * (i mod 4) < 32" using n by linarith
        then show ?thesis
          using True j n assms by (simp add: bit_xor_iff bit_push_bit_iff bit_unsigned_iff bit_rmd_words)
      qed
      show ?thesis
      proof (cases "n div 8 = i mod 4")
        case same: True
        then have "n mod 8 = n - 8 * (i mod 4)" "8 * (i mod 4) \<le> n"
          by (simp_all add: minus_mult_div_eq_mod [symmetric] flip: same)
        then show ?thesis using l r e same assms(2,3) by (simp add: assms(1))
      next
        case other: False
        have "\<not> (8 * (i mod 4) \<le> n \<and> bit b (n - 8 * (i mod 4)))"
        proof
          assume a: "8 * (i mod 4) \<le> n \<and> bit b (n - 8 * (i mod 4))"
          then have "n - 8 * (i mod 4) < 8" using b by blast
          then have "n div 8 = i mod 4" using a by (intro div_nat_eqI) simp_all
          then show False using other by simp
        qed
        then show ?thesis using l r e other by (simp add: assms)
      qed
    qed
  qed
qed simp

lemma fill_chunk_words:
  "length xs + length ys \<le> 64 \<Longrightarrow>
     fill_chunk (length xs) (rmd_words (xs @ replicate (64 - length xs) 0)) ys =
       rmd_words (xs @ ys @ replicate (64 - (length xs + length ys)) 0)"
proof (induction ys arbitrary: xs)
  case (Cons y ys)
  let ?block = "xs @ replicate (64 - length xs) 0"
  have "?block[length xs := y] = (xs @ [y]) @ replicate (64 - length (xs @ [y])) 0"
    using Cons.prems by (cases "64 - length xs") (simp_all add: list_update_append)
  moreover have "length ?block = 64" "?block ! length xs = 0" "length xs < 64"
    using Cons.prems by (simp_all add: nth_append)
  ultimately have "fill_chunk (length xs) (rmd_words ?block) (y # ys) =
      fill_chunk (length (xs @ [y])) (rmd_words ((xs @ [y]) @ replicate (64 - length (xs @ [y])) 0)) ys"
    using rmd_words_store [of ?block "length xs" y] by simp
  also have "\<dots> = rmd_words ((xs @ [y]) @ ys @ replicate (64 - (length (xs @ [y]) + length ys)) 0)"
    using Cons.prems by (intro Cons.IH) simp
  finally show ?case by simp
qed simp


lemma rmd_words_zero: "rmd_words (replicate 64 0) = replicate 16 0"
  by (rule nth_equalityI) (auto intro!: bit_word_eqI simp: bit_rmd_words)

lemma rmd_words_length:
  assumes "length block = 64" "length L = 8"
  shows "(rmd_words block)[14 := le_join (take 4 L), 15 := le_join (drop 4 L)] = rmd_words (take 56 block @ L)"
proof (rule nth_equalityI)
  fix j
  assume "j < length ((rmd_words block)[14 := le_join (take 4 L), 15 := le_join (drop 4 L)])"
  then have j: "j < 16" by simp
  have w: "rmd_words B ! j = le_join (take 4 (drop (4 * j) B))" for B
    using j by (simp add: rmd_words_def del: upt_rec_numeral)
  consider "j < 14" | "j = 14" | "j = 15" using j by linarith
  then show "(rmd_words block)[14 := le_join (take 4 L), 15 := le_join (drop 4 L)] ! j =
      rmd_words (take 56 block @ L) ! j"
  proof cases
    case 1
    have "take 4 (drop (4 * j) (take 56 block)) = take 4 (drop (4 * j) block)"
      using 1 by (simp add: drop_take take_take min_def)
    then show ?thesis using 1 assms by (simp add: w)
  next
    case 2
    then show ?thesis using assms w [of "take 56 block @ L"] by simp
  next
    case 3
    then show ?thesis using assms w [of "take 56 block @ L"] by simp
  qed
qed simp

lemma bit_word_of_nat_iff: "bit (of_nat m :: 'a::len word) i \<longleftrightarrow> i < LENGTH('a) \<and> bit m i"
proof -
  have "bit (unat (of_nat m :: 'a word)) i \<longleftrightarrow> bit (of_nat m :: 'a word) i"
    by (rule bit_unsigned_iff [THEN trans]) simp
  moreover have "unat (of_nat m :: 'a word) = take_bit LENGTH('a) m"
    by (simp only: unat_of_nat take_bit_eq_mod)
  ultimately show ?thesis by (metis bit_take_bit_iff)
qed

lemma bit_of_8n: "bit (of_nat (8 * n) :: 'a::len word) i \<longleftrightarrow> i < LENGTH('a) \<and> 3 \<le> i \<and> bit n (i - 3)"
proof -
  have "8 * n = push_bit 3 n" by (simp add: push_bit_eq_mult)
  then show ?thesis by (simp add: bit_word_of_nat_iff bit_push_bit_iff)
qed

lemma bytes_of_u64:
  "k < 8 \<Longrightarrow> bit (le_split 8 (w :: u64) ! k) m \<longleftrightarrow> m < 8 \<and> bit w (8 * k + m)"
  using bit_imp_le_length [of w "8 * k + m"]
  by (auto simp: le_split_def bit_unsigned_iff bit_drop_bit_eq simp del: upt_rec_numeral)

lemma length_words:
  assumes "n < 2 ^ 32"
  shows "(le_join (take 4 (le_split 8 (of_nat (8 * n) :: u64))) :: u32) = push_bit 3 (of_nat n)"
    and "(le_join (drop 4 (le_split 8 (of_nat (8 * n) :: u64))) :: u32) = drop_bit 29 (of_nat n)"
proof -
  define w where "w = (of_nat (8 * n) :: u64)"
  have w: "bit w i \<longleftrightarrow> i < 64 \<and> 3 \<le> i \<and> bit n (i - 3)" for i
    unfolding w_def bit_of_8n by simp
  have s: "length (le_split 8 w) = 8" by (rule length_le_split)
  have "(le_join (take 4 (le_split 8 w)) :: u32) = push_bit 3 (of_nat n)"
  proof (rule bit_word_eqI)
    fix i
    assume "i < LENGTH(32)"
    then have i: "i < 32" by simp
    then have d: "i div 8 < 4" "i div 8 < 8" by simp_all
    have e: "8 * (i div 8) + i mod 8 = i" by simp
    have "bit (le_join (take 4 (le_split 8 w)) :: u32) i \<longleftrightarrow> bit w i"
      using i d bytes_of_u64 [OF d(2), of w "i mod 8"] unfolding e by (simp add: bit_le_join s)
    then show "bit (le_join (take 4 (le_split 8 w)) :: u32) i \<longleftrightarrow> bit (push_bit 3 (of_nat n) :: u32) i"
      using i by (auto simp: w bit_push_bit_iff bit_word_of_nat_iff)
  qed
  then show "(le_join (take 4 (le_split 8 (of_nat (8 * n) :: u64))) :: u32) = push_bit 3 (of_nat n)"
    by (simp only: w_def)
  have "(le_join (drop 4 (le_split 8 w)) :: u32) = drop_bit 29 (of_nat n)"
  proof (rule bit_word_eqI)
    fix i
    assume "i < LENGTH(32)"
    then have i: "i < 32" by simp
    then have d: "i div 8 < 4" "4 + i div 8 < 8" by simp_all
    have h: "\<not> bit n k" if "32 \<le> k" for k
    proof -
      have "(2 :: nat) ^ 32 \<le> 2 ^ k" using that by (rule power_increasing) simp
      then have "n < 2 ^ k" using assms by linarith
      then show ?thesis by (simp add: bit_nat_iff bit_iff_odd)
    qed
    have e: "8 * (4 + i div 8) + i mod 8 = 32 + i" by simp
    have "bit (le_join (drop 4 (le_split 8 w)) :: u32) i \<longleftrightarrow> bit w (32 + i)"
      using i d bytes_of_u64 [OF d(2), of w "i mod 8"] unfolding e by (simp add: bit_le_join s)
    also have "\<dots> \<longleftrightarrow> bit n (29 + i)" using i by (simp add: w)
    also have "\<dots> \<longleftrightarrow> bit (drop_bit 29 (of_nat n) :: u32) i"
    proof (cases "3 \<le> i")
      case True
      then show ?thesis using h [of "29 + i"] by (simp add: bit_drop_bit_eq bit_word_of_nat_iff)
    next
      case False
      then show ?thesis by (simp add: bit_drop_bit_eq bit_word_of_nat_iff)
    qed
    finally show "bit (le_join (drop 4 (le_split 8 w)) :: u32) i \<longleftrightarrow> bit (drop_bit 29 (of_nat n) :: u32) i" .
  qed
  then show "(le_join (drop 4 (le_split 8 (of_nat (8 * n) :: u64))) :: u32) = drop_bit 29 (of_nat n)"
    by (simp only: w_def)
qed

lemma last_chunk_bit:
  assumes "length r < 64"
  shows "(rmd_words (r @ replicate (64 - length r) 0))
      [length r div 4 := rmd_words (r @ replicate (64 - length r) 0) ! (length r div 4)
         XOR push_bit (8 * (length r mod 4) + 7) 1]
    = rmd_words (r @ 0x80 # replicate (63 - length r) 0)"
proof -
  let ?block = "r @ replicate (64 - length r) 0"
  have "push_bit (8 * (length r mod 4) + 7) 1 = (push_bit (8 * (length r mod 4)) (ucast (0x80 :: u8)) :: u32)"
  proof -
    have c: "(ucast (0x80 :: u8) :: u32) = push_bit 7 1" by simp
    show ?thesis unfolding c push_bit_push_bit ..
  qed
  moreover have "?block[length r := 0x80] = r @ 0x80 # replicate (63 - length r) 0"
    using assms by (cases "64 - length r") (simp_all add: list_update_append Suc_diff_Suc)
  moreover have "length ?block = 64" "?block ! length r = 0" using assms by (simp_all add: nth_append)
  ultimately show ?thesis using rmd_words_store [of ?block "length r" "0x80"] assms by simp
qed


text \<open>The digest and the bytes left after the whole blocks, and the blocks of the padding.\<close>

lemma rmd_output_split: "rmd_output digest = concat (map (le_split 4) digest)"
proof -
  have "le_split 4 = (\<lambda>d :: u32. [ucast d, ucast (drop_bit 8 d), ucast (drop_bit 16 d), ucast (drop_bit 24 d)])"
    by (simp add: le_split_def fun_eq_iff upt_rec)
  then show ?thesis by (simp only: rmd_output_def)
qed

lemma rmd_absorb_one: "length block = 64 \<Longrightarrow> rmd_absorb h block = rmd_compress h (rmd_words block)"
  by (simp add: rmd_absorb.simps [of h block] rmd_absorb.simps [of _ "[]"])

lemma rmd_absorb_two:
  "length b1 = 64 \<Longrightarrow> length b2 = 64 \<Longrightarrow>
     rmd_absorb h (b1 @ b2) = rmd_compress (rmd_compress h (rmd_words b1)) (rmd_words b2)"
  by (simp add: rmd_absorb.simps [of h "b1 @ b2"] rmd_absorb_one)

lemma ripemd160_digest:
  assumes "length msg < 2 ^ 32"
  shows "ripemd160 msg (of_nat (length msg)) = rmd_digest msg"
proof -
  let ?n = "length msg"
  have n: "unat (of_nat ?n :: u32) = ?n" using assms by (simp add: unat_of_nat)
  obtain h r where f: "full_chunks (?n div 64) rmd_initial msg = (h, r)" by fastforce
  have "r = drop (64 * (?n div 64)) msg" using full_chunks_absorb [of msg "?n div 64" rmd_initial "[]"] f by simp
  then have r: "length r = ?n mod 64" by (simp add: minus_mult_div_eq_mod)
  then have r64: "length r < 64" by simp
  define L where "L = le_split 8 (of_nat (8 * ?n) :: u64)"
  have L: "length L = 8" by (simp add: L_def length_le_split)
  define z where "z = (119 - length r) mod 64"
  have pad: "rmd_absorb rmd_initial (rmd_pad msg) = rmd_absorb h (r @ 0x80 # replicate z 0 @ L)"
    using full_chunks_absorb [of msg "?n div 64" rmd_initial, THEN conjunct1] f
    by (simp add: rmd_pad_def L_def z_def flip: r)
  have t: "take (length r) r = r" by simp
  have fill: "fill_chunk 0 (replicate 16 0) r = rmd_words (r @ replicate (64 - length r) 0)"
    using fill_chunk_words [of "[]" r] r64 by (simp add: rmd_words_zero r)
  have k: "?n div 4 mod 16 = length r div 4" "?n mod 4 = length r mod 4"
    using mod_mult2_eq [of ?n 4 16] by (simp_all add: r)
  let ?chunk = "rmd_words (r @ 0x80 # replicate (63 - length r) 0)"
  have len: "X[14 := push_bit 3 (of_nat ?n), 15 := drop_bit 29 (of_nat ?n)] =
      X[14 := le_join (take 4 L), 15 := le_join (drop 4 L)]" for X :: "u32 list"
    using length_words [OF assms] by (simp add: L_def)
  have c: "ripemd160 msg (of_nat ?n) =
      (let (digest, chunk) = (if length r > 55 then (compress h ?chunk, rmd_words (replicate 64 0)) else (h, ?chunk))
       in rmd_output (compress digest (chunk[14 := le_join (take 4 L), 15 := le_join (drop 4 L)])))"
    unfolding ripemd160_def n f Let_def prod.case r [symmetric] t fill k last_chunk_bit [OF r64] len rmd_words_zero
    by simp
  have "ripemd160 msg (of_nat ?n) = rmd_output (rmd_absorb h (r @ 0x80 # replicate z 0 @ L))"
  proof (cases "length r > 55")
    case True
    let ?B1 = "r @ 0x80 # replicate (63 - length r) 0" and ?B2 = "replicate 56 0 @ L"
    have l: "length ?B1 = 64" "length ?B2 = 64" using r64 L by simp_all
    have "z = 119 - length r" using True r64 by (simp add: z_def)
    then have "z = (63 - length r) + 56" using r64 by simp
    then have "r @ 0x80 # replicate z 0 @ L = ?B1 @ ?B2" by (simp only: replicate_add append_assoc append_Cons)
    moreover have "(rmd_words (replicate 64 0))[14 := le_join (take 4 L), 15 := le_join (drop 4 L)] = rmd_words ?B2"
      using rmd_words_length [of "replicate 64 0" L] L by simp
    ultimately show ?thesis
      using True by (simp only: c if_True Let_def prod.case rmd_absorb_two [OF l] compress_standard)
  next
    case False
    let ?B = "r @ 0x80 # replicate z 0 @ L"
    have z: "z = 55 - length r" using False by (simp add: z_def le_mod_geq)
    then have l: "length ?B = 64" using False L by simp
    have "take 56 (r @ 0x80 # replicate (63 - length r) 0) = r @ 0x80 # replicate z 0"
      using False by (simp add: z take_Cons')
    then have "?chunk[14 := le_join (take 4 L), 15 := le_join (drop 4 L)] = rmd_words ?B"
      using rmd_words_length [of "r @ 0x80 # replicate (63 - length r) 0" L] L r64 by simp
    then show ?thesis
      using False by (simp only: c if_False Let_def prod.case rmd_absorb_one [OF l] compress_standard)
  qed
  then show ?thesis by (simp only: rmd_digest_def pad rmd_output_split)
qed

lemma rmd_digest_abc:
  "rmd_digest [97, 98, 99] =
     [142, 178, 8, 247, 224, 93, 152, 122, 155, 4, 74, 142, 152, 198, 176, 135, 241, 90, 11, 252]"
  by code_simp

text \<open>
  C18. \<open>ripemd160\<close> is RIPEMD-160. For every message shorter than \<open>2 ^ 32\<close> bytes the
  unrolled calls on named registers, the exclusive-or filling of the last block and the two
  length words give the digest of the standard: 80 steps per line over rotating variables, the
  words in the order of the message permutation, on the padded message.
\<close>

theorem ripemd160_is_standard:
  assumes "length msg < 2 ^ 32"
  shows "ripemd160 msg (of_nat (length msg)) = rmd_digest msg"
  by (rule ripemd160_digest [OF assms])

theorem ripemd160_is_standard_witness:
  "ripemd160 [97, 98, 99] 3 =
     [142, 178, 8, 247, 224, 93, 152, 122, 155, 4, 74, 142, 152, 198, 176, 135, 241, 90, 11, 252]"
  using ripemd160_is_standard [of "[97, 98, 99]"] by (simp add: rmd_digest_abc)

end
