(* ===== verification/Messages.thy ===== *)
theory Messages
  imports Blob
begin

text \<open>
  Packet messages (bryllite-core/message.inl) and the records they carry (block_header.hpp,
  secret.hpp, peer_data.hpp): the numbering of the messages, the packed header, one
  constructor per message class and the accessors. The size of a class is computed from its
  members by the layout rules of a 64-bit system, where \<open>size_t\<close> and \<open>time_t\<close> are eight
  bytes; the size of \<open>std::string\<close> is a parameter. The serialization of blocks and of
  transactions has no source and is a parameter too.
\<close>

subsection \<open>Numbering\<close>

text \<open>The ports are an enumeration of explicit values.\<close>

datatype port_kind = node_default_port | node_bridge_default_port | bridge_game_default_port
  | game_default_port | node_game_default_port

fun port_number :: "port_kind \<Rightarrow> nat" where
  "port_number node_default_port = 8300"
| "port_number node_bridge_default_port = 8400"
| "port_number bridge_game_default_port = 8500"
| "port_number game_default_port = 8600"
| "port_number node_game_default_port = 8700"

definition max_message_length :: nat where
  "max_message_length = 64 * 1024"

text \<open>
  The enumerators of \<open>message_id\<close> in the order of the source. An initializer is a number,
  possibly added to an earlier enumerator; without one the value is that of the enumerator
  before it, plus one.
\<close>

datatype enum_init = Next | Value nat | Plus string nat

definition message_id :: "(string \<times> enum_init) list" where
  "message_id =
     [(''message_start'', Value 100),
      (''message_common_start'', Plus ''message_start'' 0),
      (''message_ping_id'', Next),
      (''message_pong_id'', Next),
      (''message_header_sign_req_id'', Next),
      (''message_header_sign_ack_id'', Next),
      (''message_balance_req_id'', Next),
      (''message_balance_ack_id'', Next),
      (''message_transactions_notify_id'', Next),
      (''message_common_end'', Next),
      (''node_message_start'', Value 1000),
      (''node_message_system_start'', Next),
      (''node_message_peer_id_id'', Next),
      (''node_message_time_req_id'', Next),
      (''node_message_time_ack_id'', Next),
      (''node_message_system_end'', Next),
      (''node_message_user_start'', Plus ''node_message_start'' 100),
      (''node_message_block_req_id'', Next),
      (''node_message_block_notify_id'', Next),
      (''node_message_new_round_id'', Next),
      (''node_message_propose_id'', Next),
      (''node_message_vote_id'', Next),
      (''node_message_commit_id'', Next),
      (''node_message_verify_block_id'', Next),
      (''node_message_end'', Next),
      (''node_bridge_message_start'', Value 2000),
      (''node_bridge_message_end'', Next),
      (''bridge_game_message_start'', Value 3000),
      (''bridge_game_message_end'', Next),
      (''game_message_start'', Value 4000),
      (''game_message_end'', Next),
      (''node_client_message_start'', Value 5000),
      (''node_client_message_end'', Next),
      (''message_end'', Next)]"

fun enum_values :: "(string \<times> nat) list \<Rightarrow> nat \<Rightarrow> (string \<times> enum_init) list \<Rightarrow> (string \<times> nat) list" where
  "enum_values seen v [] = seen"
| "enum_values seen v ((name, i) # ds) =
     (let v = (case i of Next \<Rightarrow> v | Value n \<Rightarrow> n | Plus other n \<Rightarrow> the (map_of seen other) + n)
      in enum_values (seen @ [(name, v)]) (v + 1) ds)"

definition message_ids :: "(string \<times> nat) list" where
  "message_ids = enum_values [] 0 message_id"

definition id_of :: "string \<Rightarrow> u16" where
  "id_of name = of_nat (the (map_of message_ids name))"

subsection \<open>The records in messages\<close>

type_synonym BlockIdx = "32 word"

text \<open>\<open>CSecret\<close>: a compressed public key and a signature.\<close>

record CSecret =
  secret_key :: base_blob
  secret_signature :: base_blob

record CBlockHeader =
  hdr_idx :: BlockIdx
  hdr_version :: u32
  hdr_timestamp :: u64
  hashPrevBlock :: base_blob
  hashMerkleRoot :: base_blob
  hdr_transactions :: u64
  hdr_node_secret :: CSecret
  hdr_user_secret :: CSecret

record PeerData =
  peer_id :: u32
  peer_host :: string
  peer_port :: u16

definition max_address_length :: nat where
  "max_address_length = 35"

definition max_transactions_size :: nat where
  "max_transactions_size = 60 * 1024"

definition max_block_size :: nat where
  "max_block_size = 62 * 1024"

subsection \<open>Layout\<close>

text \<open>A type is its size and its alignment; the members of a class follow each other at the
  next offset of their alignment, after the base class, and the class is padded to its own.\<close>

type_synonym ctype = "nat \<times> nat"

definition align_up :: "nat \<Rightarrow> nat \<Rightarrow> nat" where
  "align_up n a = (n + a - 1) div a * a"

fun members_end :: "nat \<Rightarrow> ctype list \<Rightarrow> nat" where
  "members_end off [] = off"
| "members_end off ((n, align) # ms) = members_end (align_up off align + n) ms"

definition class_type :: "nat \<Rightarrow> ctype list \<Rightarrow> ctype" where
  "class_type base ms =
     (let a = foldr (\<lambda>m. max (snd m)) ms 1 in (align_up (members_end base ms) a, a))"

definition bytes_type :: "nat \<Rightarrow> ctype" where
  "bytes_type n = (n, 1)"

definition secret_type :: ctype where
  "secret_type = class_type 0 [bytes_type (WIDTH 264), bytes_type (WIDTH 512)]"

definition block_header_type :: ctype where
  "block_header_type = class_type 0
     [(4, 4), (4, 4), (8, 8), bytes_type (WIDTH 256), bytes_type (WIDTH 256), (8, 8), secret_type, secret_type]"

definition peer_data_type :: "nat \<Rightarrow> ctype" where
  "peer_data_type string_size = class_type 0 [(4, 4), (string_size, 8), (2, 2)]"

text \<open>The header is packed.\<close>

definition header_size :: nat where
  "header_size = members_end 0 [(4, 1), (8, 1), (2, 1)]"

subsection \<open>The header\<close>

record message_header =
  msg_signature :: string
  msg_size :: u64
  msgid :: u16

definition message_header_make :: "u16 \<Rightarrow> u64 \<Rightarrow> message_header" where
  "message_header_make mid n = \<lparr>msg_signature = ''BRC'' @ [NUL], msg_size = n, msgid = mid\<rparr>"

definition message_header_default :: message_header where
  "message_header_default = message_header_make 0 (of_nat header_size)"

definition message_header_id :: "u16 \<Rightarrow> message_header" where
  "message_header_id mid = message_header_make mid (of_nat header_size)"

definition payload_size :: "message_header \<Rightarrow> u64" where
  "payload_size h = (if msg_size h > of_nat header_size then msg_size h - of_nat header_size else 0)"

definition header_valid :: "message_header \<Rightarrow> bool" where
  "header_valid h \<longleftrightarrow>
     (msg_signature h ! 0 = CHR ''B'' \<and> msg_signature h ! 1 = CHR ''R'' \<and>
      msg_signature h ! 2 = CHR ''C'' \<and> msg_signature h ! 3 = NUL) \<and>
     (msg_size h \<ge> of_nat header_size \<and> msg_size h \<le> of_nat max_message_length)"

text \<open>The packed bytes of the header on a little-endian machine, and the cast back.\<close>

definition header_bytes :: "message_header \<Rightarrow> u8 list" where
  "header_bytes h = map of_char (msg_signature h) @ le_split 8 (msg_size h) @ le_split 2 (msgid h)"

definition header_of_bytes :: "u8 list \<Rightarrow> message_header" where
  "header_of_bytes bs =
     \<lparr>msg_signature = map (\<lambda>b. char_of (unat b)) (take 4 bs),
      msg_size = le_join (take 8 (drop 4 bs)), msgid = le_join (take 2 (drop 12 bs))\<rparr>"

subsection \<open>The messages\<close>

text \<open>One constructor per class, with its members.\<close>

datatype body =
    message_ping u64
  | message_pong u64
  | node_message_time_req u64
  | node_message_time_ack u64 u64
  | message_header_sign_req CBlockHeader CSecret CSecret
  | message_header_sign_ack CBlockHeader CSecret CSecret
  | message_balance_req "u8 list"
  | message_balance_ack "u8 list" u64
  | message_transactions_notify u64 "u8 list"
  | node_message_peer_id PeerData CSecret BlockIdx
  | node_message_block_req BlockIdx
  | node_message_block_notify BlockIdx "u8 list"
  | node_message_new_round BlockIdx
  | node_message_propose CBlockHeader
  | node_message_vote CBlockHeader
  | node_message_commit "u8 list" CSecret
  | node_message_verify_block "u8 list"

text \<open>The identifier that \<open>_ctor\<close> pastes from the name of the class.\<close>

fun body_name :: "body \<Rightarrow> string" where
  "body_name (message_ping _) = ''message_ping''"
| "body_name (message_pong _) = ''message_pong''"
| "body_name (node_message_time_req _) = ''node_message_time_req''"
| "body_name (node_message_time_ack _ _) = ''node_message_time_ack''"
| "body_name (message_header_sign_req _ _ _) = ''message_header_sign_req''"
| "body_name (message_header_sign_ack _ _ _) = ''message_header_sign_ack''"
| "body_name (message_balance_req _) = ''message_balance_req''"
| "body_name (message_balance_ack _ _) = ''message_balance_ack''"
| "body_name (message_transactions_notify _ _) = ''message_transactions_notify''"
| "body_name (node_message_peer_id _ _ _) = ''node_message_peer_id''"
| "body_name (node_message_block_req _) = ''node_message_block_req''"
| "body_name (node_message_block_notify _ _) = ''node_message_block_notify''"
| "body_name (node_message_new_round _) = ''node_message_new_round''"
| "body_name (node_message_propose _) = ''node_message_propose''"
| "body_name (node_message_vote _) = ''node_message_vote''"
| "body_name (node_message_commit _ _) = ''node_message_commit''"
| "body_name (node_message_verify_block _) = ''node_message_verify_block''"

definition body_id :: "body \<Rightarrow> u16" where
  "body_id b = id_of (body_name b @ ''_id'')"

fun body_members :: "nat \<Rightarrow> body \<Rightarrow> ctype list" where
  "body_members S (message_ping _) = [(8, 8)]"
| "body_members S (message_pong _) = [(8, 8)]"
| "body_members S (node_message_time_req _) = [(8, 8)]"
| "body_members S (node_message_time_ack _ _) = [(8, 8), (8, 8)]"
| "body_members S (message_header_sign_req _ _ _) = [block_header_type, secret_type, secret_type]"
| "body_members S (message_header_sign_ack _ _ _) = [block_header_type, secret_type, secret_type]"
| "body_members S (message_balance_req _) = [bytes_type (max_address_length + 1)]"
| "body_members S (message_balance_ack _ _) = [bytes_type (max_address_length + 1), (8, 8)]"
| "body_members S (message_transactions_notify _ _) = [(8, 8), bytes_type (max_transactions_size + 1)]"
| "body_members S (node_message_peer_id _ _ _) = [peer_data_type S, secret_type, (4, 4)]"
| "body_members S (node_message_block_req _) = [(4, 4)]"
| "body_members S (node_message_block_notify _ _) = [(4, 4), bytes_type (max_block_size + 1)]"
| "body_members S (node_message_new_round _) = [(4, 4)]"
| "body_members S (node_message_propose _) = [block_header_type]"
| "body_members S (node_message_vote _) = [block_header_type]"
| "body_members S (node_message_commit _ _) = [bytes_type (max_block_size + 1), secret_type]"
| "body_members S (node_message_verify_block _) = [bytes_type (max_block_size + 1)]"

definition body_sizeof :: "nat \<Rightarrow> body \<Rightarrow> nat" where
  "body_sizeof S b = fst (class_type header_size (body_members S b))"

text \<open>\<open>_ctor\<close>: the header of a message is made from its class.\<close>

definition message_make :: "nat \<Rightarrow> body \<Rightarrow> message_header \<times> body" where
  "message_make S b = (message_header_make (body_id b) (of_nat (body_sizeof S b)), b)"

subsection \<open>Constructors and accessors\<close>

text \<open>
  \<open>copy_string\<close> clears the target and copies at most its length. The accessors that make a
  string read up to the first zero; \<open>None\<close> is a read past the end of the buffer.
\<close>

definition copy_string :: "nat \<Rightarrow> u8 list \<Rightarrow> u8 list" where
  "copy_string target_length source =
     (let n = (if length source < target_length then length source else target_length)
      in take n source @ drop n (replicate target_length 0))"

definition string_at :: "u8 list \<Rightarrow> string option" where
  "string_at buf = (if 0 \<in> set buf then Some (map (\<lambda>b. char_of (unat b)) (takeWhile (\<lambda>b. b \<noteq> 0) buf)) else None)"

definition make_ping :: "nat \<Rightarrow> u64 \<Rightarrow> message_header \<times> body" where
  "make_ping S i = message_make S (message_ping i)"

definition make_pong :: "nat \<Rightarrow> u64 \<Rightarrow> message_header \<times> body" where
  "make_pong S i = message_make S (message_pong i)"

definition make_time_req :: "nat \<Rightarrow> u64 \<Rightarrow> message_header \<times> body" where
  "make_time_req S localTime = message_make S (node_message_time_req localTime)"

definition make_time_ack :: "nat \<Rightarrow> u64 \<Rightarrow> u64 \<Rightarrow> message_header \<times> body" where
  "make_time_ack S localTime remoteTime = message_make S (node_message_time_ack localTime remoteTime)"

text \<open>The overloads leave the secrets they are not given to the default constructor.\<close>

definition make_header_sign_req ::
  "nat \<Rightarrow> CSecret \<Rightarrow> CBlockHeader \<Rightarrow> CSecret option \<Rightarrow> CSecret option \<Rightarrow> message_header \<times> body" where
  "make_header_sign_req S null_secret header bridge_server_secret game_server_secret =
     message_make S (message_header_sign_req header
       (case bridge_server_secret of Some s \<Rightarrow> s | None \<Rightarrow> null_secret)
       (case game_server_secret of Some s \<Rightarrow> s | None \<Rightarrow> null_secret))"

definition make_header_sign_ack ::
  "nat \<Rightarrow> CSecret \<Rightarrow> CBlockHeader \<Rightarrow> CSecret option \<Rightarrow> CSecret option \<Rightarrow> message_header \<times> body" where
  "make_header_sign_ack S null_secret header bridge_server_secret game_server_secret =
     message_make S (message_header_sign_ack header
       (case bridge_server_secret of Some s \<Rightarrow> s | None \<Rightarrow> null_secret)
       (case game_server_secret of Some s \<Rightarrow> s | None \<Rightarrow> null_secret))"

definition make_balance_req :: "nat \<Rightarrow> string \<Rightarrow> message_header \<times> body" where
  "make_balance_req S address =
     message_make S (message_balance_req (copy_string (max_address_length + 1) (map of_char address)))"

definition make_balance_ack :: "nat \<Rightarrow> string \<Rightarrow> u64 \<Rightarrow> message_header \<times> body" where
  "make_balance_ack S address balance =
     message_make S (message_balance_ack (copy_string (max_address_length + 1) (map of_char address)) balance)"

fun msg_address :: "body \<Rightarrow> string option" where
  "msg_address (message_balance_req a) = string_at a"
| "msg_address (message_balance_ack a _) = string_at a"
| "msg_address _ = None"

fun msg_balance :: "body \<Rightarrow> u64 option" where
  "msg_balance (message_balance_ack _ balance) = Some balance"
| "msg_balance _ = None"

text \<open>
  Serializing writes into a buffer of given contents and returns the number of bytes it
  needed; the constructors do not look at it, and the buffer is not cleared.
\<close>

definition make_transactions_notify_empty :: "nat \<Rightarrow> u64 \<Rightarrow> message_header \<times> body" where
  "make_transactions_notify_empty S lifetime =
     message_make S (message_transactions_notify lifetime (replicate (max_transactions_size + 1) 0))"

definition make_transactions_notify ::
  "('t \<Rightarrow> u8 list \<Rightarrow> u64 \<times> u8 list) \<Rightarrow> u8 list \<Rightarrow> nat \<Rightarrow> u64 \<Rightarrow> 't \<Rightarrow> message_header \<times> body" where
  "make_transactions_notify serialize memory S lifetime txs =
     message_make S (message_transactions_notify lifetime (snd (serialize txs memory)))"

fun msg_transactions :: "(u8 list \<Rightarrow> u64 \<times> 't) \<Rightarrow> body \<Rightarrow> 't option" where
  "msg_transactions unserialize (message_transactions_notify _ buffer) =
     (let (n, txs) = unserialize buffer in if n > 0 then Some txs else None)"
| "msg_transactions _ _ = None"

definition make_peer_id :: "nat \<Rightarrow> PeerData \<Rightarrow> CSecret \<Rightarrow> BlockIdx \<Rightarrow> message_header \<times> body" where
  "make_peer_id S peer_data secret block_height =
     message_make S (node_message_peer_id peer_data secret block_height)"

text \<open>The index of a block request is a \<open>size_t\<close> narrowed to the \<open>int\<close> of the member.\<close>

definition make_block_req :: "nat \<Rightarrow> u64 \<Rightarrow> message_header \<times> body" where
  "make_block_req S block_idx = message_make S (node_message_block_req (ucast block_idx))"

definition make_block_notify ::
  "('b \<Rightarrow> u8 list \<Rightarrow> u64 \<times> u8 list) \<Rightarrow> u8 list \<Rightarrow> nat \<Rightarrow> BlockIdx \<Rightarrow> 'b \<Rightarrow> message_header \<times> body" where
  "make_block_notify serialize memory S block_idx block =
     message_make S (node_message_block_notify block_idx (snd (serialize block memory)))"

definition make_new_round :: "nat \<Rightarrow> BlockIdx \<Rightarrow> message_header \<times> body" where
  "make_new_round S new_block_index = message_make S (node_message_new_round new_block_index)"

definition make_propose :: "nat \<Rightarrow> CBlockHeader \<Rightarrow> message_header \<times> body" where
  "make_propose S header = message_make S (node_message_propose header)"

definition make_vote :: "nat \<Rightarrow> CBlockHeader \<Rightarrow> message_header \<times> body" where
  "make_vote S header = message_make S (node_message_vote header)"

definition make_commit ::
  "('b \<Rightarrow> u8 list \<Rightarrow> u64 \<times> u8 list) \<Rightarrow> u8 list \<Rightarrow> nat \<Rightarrow> 'b \<Rightarrow> CSecret \<Rightarrow> message_header \<times> body" where
  "make_commit serialize memory S block secret =
     message_make S (node_message_commit (snd (serialize block memory)) secret)"

definition make_verify_block ::
  "('b \<Rightarrow> u8 list \<Rightarrow> u64 \<times> u8 list) \<Rightarrow> u8 list \<Rightarrow> nat \<Rightarrow> 'b \<Rightarrow> message_header \<times> body" where
  "make_verify_block serialize memory S block =
     message_make S (node_message_verify_block (snd (serialize block memory)))"

fun msg_idx :: "body \<Rightarrow> BlockIdx option" where
  "msg_idx (node_message_block_req i) = Some i"
| "msg_idx (node_message_block_notify i _) = Some i"
| "msg_idx _ = None"

text \<open>\<open>block()\<close> and \<open>get()\<close> return the block even when unserializing it fails.\<close>

fun msg_block :: "(u8 list \<Rightarrow> u64 \<times> 'b) \<Rightarrow> body \<Rightarrow> 'b option" where
  "msg_block unserialize (node_message_block_notify _ data) = Some (snd (unserialize data))"
| "msg_block unserialize (node_message_commit data _) = Some (snd (unserialize data))"
| "msg_block unserialize (node_message_verify_block data) = Some (snd (unserialize data))"
| "msg_block _ _ = None"

fun msg_secret :: "body \<Rightarrow> CSecret option" where
  "msg_secret (node_message_peer_id _ s _) = Some s"
| "msg_secret (node_message_commit _ s) = Some s"
| "msg_secret _ = None"

subsection \<open>Identifiers and sizes\<close>

lemma message_ids_value:
  "message_ids =
     [(''message_start'', 100), (''message_common_start'', 100),
      (''message_ping_id'', 101), (''message_pong_id'', 102),
      (''message_header_sign_req_id'', 103), (''message_header_sign_ack_id'', 104),
      (''message_balance_req_id'', 105), (''message_balance_ack_id'', 106),
      (''message_transactions_notify_id'', 107), (''message_common_end'', 108),
      (''node_message_start'', 1000), (''node_message_system_start'', 1001),
      (''node_message_peer_id_id'', 1002), (''node_message_time_req_id'', 1003),
      (''node_message_time_ack_id'', 1004), (''node_message_system_end'', 1005),
      (''node_message_user_start'', 1100), (''node_message_block_req_id'', 1101),
      (''node_message_block_notify_id'', 1102), (''node_message_new_round_id'', 1103),
      (''node_message_propose_id'', 1104), (''node_message_vote_id'', 1105),
      (''node_message_commit_id'', 1106), (''node_message_verify_block_id'', 1107),
      (''node_message_end'', 1108), (''node_bridge_message_start'', 2000),
      (''node_bridge_message_end'', 2001), (''bridge_game_message_start'', 3000),
      (''bridge_game_message_end'', 3001), (''game_message_start'', 4000),
      (''game_message_end'', 4001), (''node_client_message_start'', 5000),
      (''node_client_message_end'', 5001), (''message_end'', 5002)]"
  by (simp add: message_ids_def message_id_def)

lemma id_of_values:
  "id_of ''message_ping_id'' = 101" "id_of ''message_pong_id'' = 102"
  "id_of ''message_header_sign_req_id'' = 103" "id_of ''message_header_sign_ack_id'' = 104"
  "id_of ''message_balance_req_id'' = 105" "id_of ''message_balance_ack_id'' = 106"
  "id_of ''message_transactions_notify_id'' = 107" "id_of ''node_message_peer_id_id'' = 1002"
  "id_of ''node_message_time_req_id'' = 1003" "id_of ''node_message_time_ack_id'' = 1004"
  "id_of ''node_message_block_req_id'' = 1101" "id_of ''node_message_block_notify_id'' = 1102"
  "id_of ''node_message_new_round_id'' = 1103" "id_of ''node_message_propose_id'' = 1104"
  "id_of ''node_message_vote_id'' = 1105" "id_of ''node_message_commit_id'' = 1106"
  "id_of ''node_message_verify_block_id'' = 1107"
  by (simp_all add: id_of_def message_ids_value)

lemma body_id_names: "body_id b = body_id b' \<longleftrightarrow> body_name b = body_name b'"
  by (cases b; cases b') (simp_all add: body_id_def id_of_values)

lemmas layout_simps = class_type_def align_up_def bytes_type_def secret_type_def block_header_type_def
  peer_data_type_def WIDTH_def header_size_def max_address_length_def max_transactions_size_def
  max_block_size_def max_message_length_def

lemma header_size_14: "header_size = 14"
  by (simp add: layout_simps)

lemma align_up_le: "0 < a \<Longrightarrow> align_up n a \<le> n + a - 1"
  by (simp add: align_up_def)

lemma align_up_ge: "0 < a \<Longrightarrow> n \<le> align_up n a"
  using div_mult_mod_eq [of "n + a - 1" a] mod_less_divisor [of a "n + a - 1"] unfolding align_up_def by linarith

lemma body_sizeof_values:
  "body_sizeof S (message_ping i) = 24" "body_sizeof S (message_pong i) = 24"
  "body_sizeof S (node_message_time_req t) = 24" "body_sizeof S (node_message_time_ack t t') = 32"
  "body_sizeof S (message_header_sign_req h s s') = 504" "body_sizeof S (message_header_sign_ack h s s') = 504"
  "body_sizeof S (message_balance_req a) = 50" "body_sizeof S (message_balance_ack a v) = 64"
  "body_sizeof S (message_transactions_notify l txs) = 61472"
  "body_sizeof S (node_message_block_req k) = 20" "body_sizeof S (node_message_block_notify k d) = 63512"
  "body_sizeof S (node_message_new_round k) = 20" "body_sizeof S (node_message_propose h) = 304"
  "body_sizeof S (node_message_vote h) = 304" "body_sizeof S (node_message_commit d s) = 63600"
  "body_sizeof S (node_message_verify_block d) = 63503"
  by (simp_all add: body_sizeof_def layout_simps)

lemma body_sizeof_peer_id:
  "16 \<le> body_sizeof S (node_message_peer_id p s k)" "body_sizeof S (node_message_peer_id p s k) \<le> S + 200"
proof -
  define d where "d = align_up (align_up (8 + S) 2 + 2) 8"
  have d: "S + 10 \<le> d" "d \<le> S + 20"
    using align_up_ge [of 2 "8 + S"] align_up_le [of 2 "8 + S"] align_up_ge [of 8 "align_up (8 + S) 2 + 2"]
      align_up_le [of 8 "align_up (8 + S) 2 + 2"] unfolding d_def by linarith+
  have pd: "peer_data_type S = (d, 8)" by (simp add: peer_data_type_def class_type_def d_def align_up_def)
  have "body_sizeof S (node_message_peer_id p s k) = align_up (align_up (113 + d) 4 + 4) 8"
    by (simp add: body_sizeof_def pd class_type_def secret_type_def bytes_type_def WIDTH_def header_size_14)
      (simp add: align_up_def)
  then show "16 \<le> body_sizeof S (node_message_peer_id p s k)" "body_sizeof S (node_message_peer_id p s k) \<le> S + 200"
    using d align_up_ge [of 4 "113 + d"] align_up_le [of 4 "113 + d"] align_up_ge [of 8 "align_up (113 + d) 4 + 4"]
      align_up_le [of 8 "align_up (113 + d) 4 + 4"] by linarith+
qed

lemma body_sizeof_range:
  assumes "S \<le> 1024"
  shows "header_size \<le> body_sizeof S b \<and> body_sizeof S b \<le> max_message_length"
  using body_sizeof_peer_id [of S] assms
  by (cases b) (simp_all add: body_sizeof_values header_size_14 max_message_length_def
      order.trans [OF _ body_sizeof_peer_id(1)] order.trans [OF body_sizeof_peer_id(2)])

subsection \<open>Every message is well typed\<close>

text \<open>The arrays of a message have the size its class declares.\<close>

fun arrays_ok :: "body \<Rightarrow> bool" where
  "arrays_ok (message_balance_req a) \<longleftrightarrow> length a = max_address_length + 1"
| "arrays_ok (message_balance_ack a _) \<longleftrightarrow> length a = max_address_length + 1"
| "arrays_ok (message_transactions_notify _ d) \<longleftrightarrow> length d = max_transactions_size + 1"
| "arrays_ok (node_message_block_notify _ d) \<longleftrightarrow> length d = max_block_size + 1"
| "arrays_ok (node_message_commit d _) \<longleftrightarrow> length d = max_block_size + 1"
| "arrays_ok (node_message_verify_block d) \<longleftrightarrow> length d = max_block_size + 1"
| "arrays_ok _ \<longleftrightarrow> True"

definition typed :: "nat \<Rightarrow> message_header \<times> body \<Rightarrow> bool" where
  "typed S m \<longleftrightarrow>
     header_valid (fst m) \<and> msgid (fst m) = body_id (snd m) \<and>
     unat (msg_size (fst m)) = body_sizeof S (snd m) \<and>
     unat (payload_size (fst m)) = body_sizeof S (snd m) - header_size \<and>
     header_of_bytes (header_bytes (fst m)) = fst m \<and> arrays_ok (snd m)"

text \<open>The messages a program can construct.\<close>

inductive constructed ::
  "('t \<Rightarrow> u8 list \<Rightarrow> u64 \<times> u8 list) \<Rightarrow> ('b \<Rightarrow> u8 list \<Rightarrow> u64 \<times> u8 list) \<Rightarrow> CSecret \<Rightarrow> nat \<Rightarrow> message_header \<times> body \<Rightarrow> bool"
  for txs_out block_out null_secret S where
  "constructed txs_out block_out null_secret S (make_ping S i)"
| "constructed txs_out block_out null_secret S (make_pong S i)"
| "constructed txs_out block_out null_secret S (make_time_req S t)"
| "constructed txs_out block_out null_secret S (make_time_ack S t t')"
| "constructed txs_out block_out null_secret S (make_header_sign_req S null_secret h so so')"
| "constructed txs_out block_out null_secret S (make_header_sign_ack S null_secret h so so')"
| "constructed txs_out block_out null_secret S (make_balance_req S a)"
| "constructed txs_out block_out null_secret S (make_balance_ack S a v)"
| "constructed txs_out block_out null_secret S (make_transactions_notify_empty S l)"
| "length mem = max_transactions_size + 1 \<Longrightarrow>
     constructed txs_out block_out null_secret S (make_transactions_notify txs_out mem S l txs)"
| "constructed txs_out block_out null_secret S (make_peer_id S p s k)"
| "constructed txs_out block_out null_secret S (make_block_req S n)"
| "length mem = max_block_size + 1 \<Longrightarrow>
     constructed txs_out block_out null_secret S (make_block_notify block_out mem S k b)"
| "constructed txs_out block_out null_secret S (make_new_round S k)"
| "constructed txs_out block_out null_secret S (make_propose S h)"
| "constructed txs_out block_out null_secret S (make_vote S h)"
| "length mem = max_block_size + 1 \<Longrightarrow>
     constructed txs_out block_out null_secret S (make_commit block_out mem S b s)"
| "length mem = max_block_size + 1 \<Longrightarrow>
     constructed txs_out block_out null_secret S (make_verify_block block_out mem S b)"

lemma unat_of_char: "unat (of_char c :: u8) = of_char c"
proof -
  have "of_nat (horner_sum of_bool 2 bs) = (horner_sum of_bool 2 bs :: u8)" for bs by (induction bs) simp_all
  then have "of_char c = (of_nat (of_char c) :: u8)" unfolding of_char_def by metis
  then have "unat (of_char c :: u8) = unat (of_nat (of_char c) :: u8)" by (rule arg_cong)
  also have "\<dots> = of_char c mod 2 ^ 8" by (simp only: unat_of_nat) simp
  finally show ?thesis by simp
qed

lemma char_of_byte: "char_of (unat (of_char c :: u8)) = c"
  by (simp add: unat_of_char)

lemma byte_NUL: "of_char c = (0 :: u8) \<longleftrightarrow> c = NUL"
proof -
  have "of_char c = (0 :: u8) \<longleftrightarrow> of_char c = (of_char (CHR 0x00) :: nat)"
    unfolding word_unat_eq_iff unat_of_char by simp
  then show ?thesis unfolding NUL_def by (simp only: of_char_eq_iff)
qed

lemma byte_zero: "of_char NUL = (0 :: u8)"
  using byte_NUL by blast

lemma header_of_bytes_bytes:
  assumes "length (msg_signature h) = 4"
  shows "header_of_bytes (header_bytes h) = h"
proof -
  have "map (\<lambda>b. char_of (unat (b :: u8))) (map of_char cs) = cs" for cs
    by (induction cs) (simp_all add: unat_of_char)
  moreover have "le_join (le_split 8 (msg_size h)) = msg_size h" "le_join (le_split 2 (msgid h)) = msgid h"
    by (simp_all add: le_join_split)
  ultimately show ?thesis
    using assms by (simp add: header_of_bytes_def header_bytes_def length_le_split)
qed

lemma message_make_typed:
  assumes "S \<le> 1024" "arrays_ok b"
  shows "typed S (message_make S b)"
proof -
  have r: "14 \<le> body_sizeof S b" "body_sizeof S b \<le> 65536"
    using body_sizeof_range [OF assms(1), of b] by (simp_all add: header_size_14 max_message_length_def)
  then have u: "unat (of_nat (body_sizeof S b) :: u64) = body_sizeof S b" by (simp add: unsigned_of_nat take_bit_nat_eq_self)
  have "header_valid (fst (message_make S b))"
    using r u by (simp add: message_make_def message_header_make_def header_valid_def header_size_14
        max_message_length_def word_le_nat_alt)
  moreover have "unat (payload_size (fst (message_make S b))) = body_sizeof S b - header_size"
    using r u by (auto simp: message_make_def message_header_make_def payload_size_def header_size_14
        word_less_nat_alt unat_sub word_le_nat_alt)
  ultimately show ?thesis
    using u assms(2) by (simp add: typed_def message_make_def header_of_bytes_bytes message_header_make_def)
qed

lemma length_copy_string: "length (copy_string n source) = n"
  by (simp add: copy_string_def)

text \<open>
  C16. Every message is well typed. Whatever constructor makes a message, its header is valid,
  carries the identifier of its class and the size of its object, survives the trip over the
  wire, and announces as payload exactly the bytes behind the header; the arrays inside have
  their declared size, and different classes have different identifiers, so a receiver that
  switches on the identifier casts to the class that was sent. In particular the largest
  blocks and transaction lists fit the limit of a message.
\<close>

theorem messages_well_typed:
  assumes "constructed txs_out block_out null_secret S m" "S \<le> 1024"
    and "\<forall>txs mem. length (snd (txs_out txs mem)) = length mem"
    and "\<forall>b mem. length (snd (block_out b mem)) = length mem"
  shows "typed S m \<and> (body_id (snd m) = body_id b \<longleftrightarrow> body_name (snd m) = body_name b)"
proof
  show "typed S m"
    using assms(1)
    by cases (use assms(2-4) in \<open>simp_all add: make_ping_def make_pong_def make_time_req_def make_time_ack_def
      make_header_sign_req_def make_header_sign_ack_def make_balance_req_def make_balance_ack_def
      make_transactions_notify_empty_def make_transactions_notify_def make_peer_id_def make_block_req_def
      make_block_notify_def make_new_round_def make_propose_def make_vote_def make_commit_def make_verify_block_def
      message_make_typed length_copy_string\<close>)
qed (rule body_id_names)

theorem messages_well_typed_witness:
  "typed 32 (make_block_req 32 7)"
  using messages_well_typed [of "\<lambda>(t :: unit) mem. (1, mem)" "\<lambda>(b :: unit) mem. (1, mem)"
      "\<lparr>secret_key = blob_null 264, secret_signature = blob_null 512\<rparr>" 32 "make_block_req 32 7"]
  by (simp add: constructed.intros)

subsection \<open>Addresses in messages\<close>

lemma string_at_chars: "string_at (map of_char cs @ 0 # bs) = Some (c_str cs)"
  by (induction cs) (simp_all add: string_at_def c_str_def byte_NUL char_of_byte)

lemma string_at_no_NUL: "NUL \<notin> set cs \<Longrightarrow> string_at (map of_char cs) = None"
  by (auto simp: string_at_def byte_NUL)

lemma string_at_NUL: "NUL \<in> set cs \<Longrightarrow> string_at (map of_char cs) = Some (c_str cs)"
proof -
  assume "NUL \<in> set cs"
  then have "map of_char cs = map of_char (c_str cs) @ (0 :: u8) # map of_char (tl (dropWhile (\<lambda>c. c \<noteq> NUL) cs))"
    unfolding c_str_def by (induction cs) (auto simp: byte_zero)
  then show ?thesis by (simp add: string_at_chars c_str_def)
qed

lemma c_str_take: "NUL \<in> set (take n cs) \<Longrightarrow> c_str (take n cs) = c_str cs"
  by (induction cs arbitrary: n) (auto simp: c_str_def take_Cons')

lemma address_copy:
  "string_at (copy_string (Suc max_address_length) (map of_char a)) =
     (if length a \<le> 35 \<or> NUL \<in> set (take 36 a) then Some (c_str a) else None)"
proof (cases "length a \<le> 35")
  case True
  then obtain k where "36 - length a = Suc k" by (cases "36 - length a") simp_all
  then have "copy_string (Suc max_address_length) (map of_char a) = map of_char a @ 0 # replicate k 0"
    using True by (simp add: copy_string_def max_address_length_def)
  then show ?thesis using True by (simp add: string_at_chars)
next
  case False
  then have "copy_string (Suc max_address_length) (map of_char a) = map of_char (take 36 a)"
    by (simp add: copy_string_def max_address_length_def take_map)
  then show ?thesis using False by (simp add: string_at_no_NUL string_at_NUL c_str_take)
qed

text \<open>
  C37. The address in a balance message. Reading it back gives the address that was put in,
  up to its first zero, when it has at most 35 characters. A longer one is cut without a
  terminator, and reading it runs past the end of the array unless a zero is among the
  characters that were copied.
\<close>

theorem balance_address:
  "msg_address (snd (make_balance_req S a)) =
     (if length a \<le> 35 \<or> NUL \<in> set (take 36 a) then Some (c_str a) else None) \<and>
   msg_address (snd (make_balance_ack S a v)) = msg_address (snd (make_balance_req S a)) \<and>
   msg_balance (snd (make_balance_ack S a v)) = Some v"
  by (simp add: make_balance_req_def make_balance_ack_def message_make_def address_copy)

end
