(* ===== verification/Socket_Buffer.thy ===== *)
theory Socket_Buffer
  imports Bcp_Prelude
begin

text \<open>
  The ring of packet buffers (bryllite-core/socket_buffer.hpp) and the session that queues
  its asynchronous writes on it (tests/dev/p2p_server/p2p_session.cpp, \<open>write\<close>). A pointer
  into the ring is the number of its row; a write that the network has not finished yet is
  a row and a length, and what is sent is what the row holds when the write completes.
\<close>

subsection \<open>The ring\<close>

record socket_buffer =
  sb_data :: "u8 list list"
  sb_pos :: nat

definition sb_init :: "nat \<Rightarrow> nat \<Rightarrow> socket_buffer" where
  "sb_init COUNT LEN =
     \<lparr>sb_data = replicate (COUNT + 1) (replicate (LEN + 1) 0), sb_pos = 0\<rparr>"

definition sb_get :: "nat \<Rightarrow> socket_buffer \<Rightarrow> nat option" where
  "sb_get COUNT sb = (if sb_pos sb < COUNT then Some (sb_pos sb) else None)"

definition sb_get_at :: "nat \<Rightarrow> socket_buffer \<Rightarrow> nat \<Rightarrow> nat option" where
  "sb_get_at COUNT sb pos = (if pos < COUNT then Some pos else None)"

text \<open>Both overloads of \<open>next\<close>: the new ring, the position and the buffer.\<close>

definition sb_next :: "nat \<Rightarrow> socket_buffer \<Rightarrow> socket_buffer \<times> nat \<times> nat option" where
  "sb_next COUNT sb =
     (let pos = (sb_pos sb + 1) mod 2 ^ 64 mod COUNT;
          sb = sb\<lparr>sb_pos := pos\<rparr>
      in (sb, pos, sb_get COUNT sb))"

definition sb_current_pos :: "socket_buffer \<Rightarrow> nat" where
  "sb_current_pos sb = sb_pos sb"

definition sb_count :: "nat \<Rightarrow> nat" where
  "sb_count COUNT = COUNT"

definition sb_length :: "nat \<Rightarrow> nat" where
  "sb_length LEN = LEN"

text \<open>\<open>memcpy\<close> into a row.\<close>

definition sb_store :: "socket_buffer \<Rightarrow> nat \<Rightarrow> u8 list \<Rightarrow> socket_buffer" where
  "sb_store sb row data =
     sb\<lparr>sb_data := (sb_data sb)[row := data @ drop (length data) (sb_data sb ! row)]\<rparr>"

subsection \<open>A session writing through the ring\<close>

record session =
  write_buffer :: socket_buffer
  pending :: "(nat \<times> nat) list"

definition session_init :: "nat \<Rightarrow> nat \<Rightarrow> session" where
  "session_init COUNT LEN = \<lparr>write_buffer = sb_init COUNT LEN, pending = []\<rparr>"

text \<open>
  \<open>write\<close> refuses a null pointer (\<open>None\<close>) and a message longer than a row; otherwise it
  copies the message, moves to the next row and starts the asynchronous write. A null row,
  where the code would crash, never occurs (\<open>ring_inv\<close>).
\<close>

definition session_write :: "nat \<Rightarrow> nat \<Rightarrow> session \<Rightarrow> u8 list option \<Rightarrow> session \<times> bool" where
  "session_write COUNT LEN s msg =
     (case msg of
        None \<Rightarrow> (s, False)
      | Some data \<Rightarrow>
          if length data > sb_length LEN then (s, False)
          else (case sb_get COUNT (write_buffer s) of
                  None \<Rightarrow> (s, False)
                | Some buffer \<Rightarrow>
                    (s\<lparr>write_buffer := fst (sb_next COUNT (sb_store (write_buffer s) buffer data)),
                       pending := pending s @ [(buffer, length data)]\<rparr>, True)))"

text \<open>The network completes the oldest write, with the bytes the row holds by then.\<close>

definition session_complete :: "session \<Rightarrow> session \<times> u8 list option" where
  "session_complete s =
     (case pending s of
        [] \<Rightarrow> (s, None)
      | (row, len) # rest \<Rightarrow>
          (s\<lparr>pending := rest\<rparr>, Some (take len (sb_data (write_buffer s) ! row))))"

datatype event = Write "u8 list option" | Complete

fun session_run :: "nat \<Rightarrow> nat \<Rightarrow> session \<Rightarrow> event list \<Rightarrow> u8 list list" where
  "session_run COUNT LEN s [] = []"
| "session_run COUNT LEN s (Write msg # es) =
     session_run COUNT LEN (fst (session_write COUNT LEN s msg)) es"
| "session_run COUNT LEN s (Complete # es) =
     (case session_complete s of
        (s, None) \<Rightarrow> session_run COUNT LEN s es
      | (s, Some bytes) \<Rightarrow> bytes # session_run COUNT LEN s es)"

subsection \<open>The queue it should be\<close>

fun accepted :: "nat \<Rightarrow> u8 list option \<Rightarrow> u8 list list" where
  "accepted LEN None = []"
| "accepted LEN (Some data) = (if length data > LEN then [] else [data])"

fun fifo_run :: "nat \<Rightarrow> u8 list list \<Rightarrow> event list \<Rightarrow> u8 list list" where
  "fifo_run LEN q [] = []"
| "fifo_run LEN q (Write msg # es) = fifo_run LEN (q @ accepted LEN msg) es"
| "fifo_run LEN [] (Complete # es) = fifo_run LEN [] es"
| "fifo_run LEN (m # q) (Complete # es) = m # fifo_run LEN q es"

text \<open>No more than \<open>COUNT\<close> writes are ever outstanding.\<close>

fun within :: "nat \<Rightarrow> nat \<Rightarrow> u8 list list \<Rightarrow> event list \<Rightarrow> bool" where
  "within COUNT LEN q [] \<longleftrightarrow> True"
| "within COUNT LEN q (Write msg # es) \<longleftrightarrow>
     length (q @ accepted LEN msg) \<le> COUNT \<and> within COUNT LEN (q @ accepted LEN msg) es"
| "within COUNT LEN q (Complete # es) \<longleftrightarrow> within COUNT LEN (tl q) es"

subsection \<open>Simulation\<close>

text \<open>
  The pending rows are the last ones handed out, counted from the first write on: the
  \<open>w\<close>-th write uses row \<open>w mod COUNT\<close>, and each row starts with its message.
\<close>

definition ring_inv :: "nat \<Rightarrow> nat \<Rightarrow> session \<Rightarrow> u8 list list \<Rightarrow> bool" where
  "ring_inv COUNT LEN s q \<longleftrightarrow>
     length (sb_data (write_buffer s)) = COUNT + 1 \<and>
     (\<forall>r \<in> set (sb_data (write_buffer s)). length r = LEN + 1) \<and>
     (\<exists>w. length q \<le> w \<and> sb_pos (write_buffer s) = w mod COUNT \<and>
        pending s = zip (map (\<lambda>j. j mod COUNT) [w - length q..<w]) (map length q) \<and>
        (\<forall>i < length q. length (q ! i) \<le> LEN \<and>
           take (length (q ! i)) (sb_data (write_buffer s) ! ((w - length q + i) mod COUNT)) = q ! i))"

lemma ring_inv_init: "ring_inv COUNT LEN (session_init COUNT LEN) []"
  by (auto simp: ring_inv_def session_init_def sb_init_def intro: exI [of _ 0])

lemma mod_distinct:
  fixes a b n :: nat
  assumes "a < b" "b - a < n"
  shows "a mod n \<noteq> b mod n"
proof
  assume "a mod n = b mod n"
  then have "n dvd b - a" using assms(1) by (metis less_imp_le mod_eq_dvd_iff_nat)
  then show False using assms by (auto dest: dvd_imp_le)
qed

lemma ring_inv_write:
  assumes inv: "ring_inv COUNT LEN s q" and c: "0 < COUNT" "COUNT < 2 ^ 64"
    and len: "length (q @ accepted LEN msg) \<le> COUNT"
  shows "ring_inv COUNT LEN (fst (session_write COUNT LEN s msg)) (q @ accepted LEN msg)"
proof (cases "accepted LEN msg = []")
  case True
  then have "fst (session_write COUNT LEN s msg) = s"
    by (cases msg) (auto simp: session_write_def sb_length_def split: if_splits)
  then show ?thesis using inv True by simp
next
  case False
  then obtain data where data: "msg = Some data" "length data \<le> LEN" "accepted LEN msg = [data]"
    by (cases msg) (auto split: if_splits)
  obtain w where w: "length q \<le> w" "sb_pos (write_buffer s) = w mod COUNT"
      "pending s = zip (map (\<lambda>j. j mod COUNT) [w - length q..<w]) (map length q)"
      "\<forall>i < length q. length (q ! i) \<le> LEN \<and>
         take (length (q ! i)) (sb_data (write_buffer s) ! ((w - length q + i) mod COUNT)) = q ! i"
    and d: "length (sb_data (write_buffer s)) = COUNT + 1" "\<forall>r \<in> set (sb_data (write_buffer s)). length r = LEN + 1"
    using inv unfolding ring_inv_def by blast
  let ?r = "w mod COUNT" and ?D = "sb_data (write_buffer s)"
  have r: "?r < COUNT" using c(1) by simp
  define row where "row = data @ drop (length data) (?D ! ?r)"
  have row: "length row = LEN + 1" "take (length data) row = data"
    using d r data(2) by (simp_all add: row_def)
  have "Suc (w mod COUNT) mod 18446744073709551616 = Suc (w mod COUNT)" using r c(2) by simp
  then have pos: "Suc (w mod COUNT) mod 18446744073709551616 mod COUNT = Suc w mod COUNT" by (simp add: mod_Suc_eq)
  let ?s = "fst (session_write COUNT LEN s msg)"
  have s: "sb_data (write_buffer ?s) = ?D[?r := row]" "sb_pos (write_buffer ?s) = (w + 1) mod COUNT"
      "pending ?s = pending s @ [(?r, length data)]"
    using r data(2) by (simp_all add: session_write_def data(1) sb_length_def sb_get_def w(2) sb_next_def
        sb_store_def row_def pos Let_def)
  have q: "w + 1 - length (q @ [data]) = w - length q" by simp
  have "[w - length q..<w + 1] = [w - length q..<w] @ [w]" using w(1) by simp
  then have "pending ?s = zip (map (\<lambda>j. j mod COUNT) [w + 1 - length (q @ [data])..<w + 1]) (map length (q @ [data]))"
    unfolding q s(3) w(3) using w(1) by (simp add: zip_append)
  moreover have "length ((q @ [data]) ! i) \<le> LEN \<and>
      take (length ((q @ [data]) ! i)) ((?D[?r := row]) ! ((w - length q + i) mod COUNT)) = (q @ [data]) ! i"
    if "i < length (q @ [data])" for i
  proof (cases "i < length q")
    case True
    have "w - length q + i < w" "w - (w - length q + i) < COUNT" using True w(1) len data(3) by simp_all
    then have "(w - length q + i) mod COUNT \<noteq> ?r" by (rule mod_distinct)
    then show ?thesis using True w(4) by (simp add: nth_append)
  next
    case False
    then have i: "i = length q" using that by simp
    have "w - length q + i = w" using i w(1) by simp
    then show ?thesis using row(2) data(2) d(1) r i by simp
  qed
  moreover have "\<forall>r \<in> set (?D[?r := row]). length r = LEN + 1"
    using d(2) row(1) by (auto dest!: subsetD [OF set_update_subset_insert])
  ultimately show ?thesis
    unfolding ring_inv_def s(1,2) data(3) using w(1) d(1) q
    by (intro conjI exI [of _ "w + 1"]) simp_all
qed

lemma ring_inv_complete:
  assumes inv: "ring_inv COUNT LEN s q"
  shows "session_complete s = (case q of [] \<Rightarrow> (s, None) | m # q' \<Rightarrow> (fst (session_complete s), Some m)) \<and>
    ring_inv COUNT LEN (fst (session_complete s)) (tl q)"
proof (cases q)
  case Nil
  then show ?thesis using inv by (auto simp: ring_inv_def session_complete_def)
next
  case (Cons m q')
  obtain w where w: "length q \<le> w" "sb_pos (write_buffer s) = w mod COUNT"
      "pending s = zip (map (\<lambda>j. j mod COUNT) [w - length q..<w]) (map length q)"
      "\<forall>i < length q. length (q ! i) \<le> LEN \<and>
         take (length (q ! i)) (sb_data (write_buffer s) ! ((w - length q + i) mod COUNT)) = q ! i"
    and d: "length (sb_data (write_buffer s)) = COUNT + 1" "\<forall>r \<in> set (sb_data (write_buffer s)). length r = LEN + 1"
    using inv unfolding ring_inv_def by blast
  have u: "[w - length q..<w] = (w - length q) # [w - length q'..<w]"
    using upt_conv_Cons [of "w - length q" w] w(1) Cons by (simp add: Suc_diff_Suc)
  then have p: "pending s = ((w - length q) mod COUNT, length m) #
      zip (map (\<lambda>j. j mod COUNT) [w - length q'..<w]) (map length q')"
    using w(3) Cons by simp
  have "take (length m) (sb_data (write_buffer s) ! ((w - length q) mod COUNT)) = m"
    using w(4) Cons by force
  then have c: "session_complete s =
      (s\<lparr>pending := zip (map (\<lambda>j. j mod COUNT) [w - length q'..<w]) (map length q')\<rparr>, Some m)"
    by (simp add: session_complete_def p)
  have "length (q' ! i) \<le> LEN \<and>
      take (length (q' ! i)) (sb_data (write_buffer s) ! ((w - length q' + i) mod COUNT)) = q' ! i"
    if "i < length q'" for i
  proof -
    have e: "w - length q + Suc i = w - length q' + i" using w(1) Cons by simp
    show ?thesis using spec [OF w(4), of "Suc i"] that unfolding e by (simp add: Cons)
  qed
  then have "ring_inv COUNT LEN (fst (session_complete s)) q'"
    unfolding ring_inv_def c using w(1,2) d Cons by (intro conjI exI [of _ w]) simp_all
  then show ?thesis using c Cons by simp
qed

lemma session_run_fifo:
  assumes "0 < COUNT" "COUNT < 2 ^ 64"
  shows "ring_inv COUNT LEN s q \<Longrightarrow> within COUNT LEN q es \<Longrightarrow>
    session_run COUNT LEN s es = fifo_run LEN q es"
proof (induction es arbitrary: s q)
  case (Cons e es)
  show ?case
  proof (cases e)
    case (Write msg)
    then show ?thesis using Cons.IH [OF ring_inv_write [OF Cons.prems(1) assms]] Cons.prems(2) by simp
  next
    case Complete
    then show ?thesis
      using ring_inv_complete [OF Cons.prems(1)] Cons.prems(2) Cons.IH [of "fst (session_complete s)" "tl q"]
      by (cases q) (auto split: prod.splits option.splits)
  qed
qed simp



text \<open>One write more than the ring has rows, and the oldest message is sent with the bytes of the newest.\<close>

lemma write_ring_overrun:
  "session_run 2 4 (session_init 2 4) [Write (Some [1]), Write (Some [2]), Write (Some [3]), Complete]
     \<noteq> fifo_run 4 [] [Write (Some [1]), Write (Some [2]), Write (Some [3]), Complete]"
  by (simp add: session_init_def sb_init_def session_write_def sb_length_def sb_get_def sb_next_def
      sb_store_def session_complete_def Let_def numeral_3_eq_3)

end
