(* ===== verification/Framing.thy ===== *)
theory Framing
  imports Messages Socket_Buffer
begin

text \<open>
  How the two ends of a p2p connection read messages: the session of the server
  (tests/dev/p2p_server/p2p_server.cpp, \<open>session_start\<close> to \<open>handle_session_read_body\<close>) and
  the client (p2p_client.cpp, \<open>do_read\<close> to \<open>handle_read_body\<close>). Both read a header, then as
  many bytes as it announces, each message into the next row of a ring of read buffers
  (\<open>session_buffer\<close>, with the members of \<open>socket_buffer\<close>). An asynchronous read is what boost
  documents of it: bytes go into the buffer as they arrive, and the handler is called when
  the number asked for, or the buffer, is complete. What arrives is any sequence of chunks,
  or an error.
\<close>

subsection \<open>The two ends\<close>

datatype endpoint = Session | Client

fun read_count :: "endpoint \<Rightarrow> nat" where
  "read_count Session = 32"
| "read_count Client = 16"

record reader =
  rd_buffer :: socket_buffer
  rd_row :: nat
  rd_at :: nat
  rd_need :: nat
  rd_body :: bool
  rd_active :: bool
  rd_messages :: "u8 list list"

definition reader_init :: "endpoint \<Rightarrow> reader" where
  "reader_init e =
     \<lparr>rd_buffer = sb_init (read_count e) max_message_length, rd_row = 0, rd_at = 0, rd_need = 0, rd_body = False,
      rd_active = True, rd_messages = []\<rparr>"

definition row_of :: "reader \<Rightarrow> u8 list" where
  "row_of s = sb_data (rd_buffer s) ! rd_row s"

text \<open>Both ends take the next row and read into it as many bytes as a header has.\<close>

definition read_header :: "endpoint \<Rightarrow> reader \<Rightarrow> reader" where
  "read_header e s =
     (let (sb, pos, buffer) = sb_next (read_count e) (rd_buffer s)
      in s\<lparr>rd_buffer := sb, rd_row := the buffer, rd_at := 0,
           rd_need := min header_size (sb_length max_message_length), rd_body := False\<rparr>)"

text \<open>The session; \<open>handle_accept\<close> makes it active and starts it.\<close>

definition session_read_header :: "reader \<Rightarrow> reader" where
  "session_read_header s = read_header Session s"

definition session_start :: reader where
  "session_start = session_read_header (reader_init Session)"

definition close_session :: "reader \<Rightarrow> reader" where
  "close_session s = s\<lparr>rd_active := False\<rparr>"

definition session_read_body :: "reader \<Rightarrow> message_header \<Rightarrow> reader" where
  "session_read_body s header =
     s\<lparr>rd_at := header_size, rd_need := min (unat (payload_size header)) (sb_length max_message_length - header_size), rd_body := True\<rparr>"

definition handle_session_read_header :: "bool \<Rightarrow> reader \<Rightarrow> reader" where
  "handle_session_read_header error s =
     (if error then close_session s
      else let header = header_of_bytes (take header_size (row_of s))
           in if \<not> header_valid header then close_session s else session_read_body s header)"

definition handle_session_read_body :: "bool \<Rightarrow> reader \<Rightarrow> reader" where
  "handle_session_read_body error s =
     (if error then close_session s
      else let header = header_of_bytes (take header_size (row_of s));
               bytes_transferred = rd_at s - header_size
           in if unat (msg_size header) < bytes_transferred + header_size then close_session s
              else if \<not> header_valid header then close_session s
              else session_read_header
                     (s\<lparr>rd_messages := rd_messages s @ [take (unat (msg_size header)) (row_of s)]\<rparr>))"

text \<open>The client; the result of the connect decides whether it is connected and reads.\<close>

definition do_read :: "reader \<Rightarrow> reader" where
  "do_read s = (if rd_active s then read_header Client s else s)"

definition handle_connect :: "bool \<Rightarrow> reader" where
  "handle_connect error = do_read ((reader_init Client)\<lparr>rd_active := \<not> error\<rparr>)"

definition client_close :: "reader \<Rightarrow> reader" where
  "client_close s = (if rd_active s then s\<lparr>rd_active := False\<rparr> else s)"

definition handle_read_header :: "bool \<Rightarrow> reader \<Rightarrow> reader" where
  "handle_read_header error s =
     (if error then client_close s
      else let bytes_transferred = rd_at s
           in if bytes_transferred < header_size then client_close s
              else let header = header_of_bytes (take header_size (row_of s))
                   in if \<not> header_valid header then client_close s
                      else s\<lparr>rd_at := bytes_transferred,
                             rd_need := min (unat (payload_size header)) (sb_length max_message_length - bytes_transferred),
                             rd_body := True\<rparr>)"

definition handle_read_body :: "bool \<Rightarrow> reader \<Rightarrow> reader" where
  "handle_read_body error s =
     (if error then client_close s
      else let header = header_of_bytes (take header_size (row_of s));
               bytes_transferred = rd_at s - header_size
           in if unat (msg_size header) > bytes_transferred + header_size then client_close s
              else if \<not> header_valid header \<or> bytes_transferred + header_size < unat (msg_size header) then client_close s
              else do_read (s\<lparr>rd_messages := rd_messages s @ [take (unat (msg_size header)) (row_of s)]\<rparr>))"

text \<open>Bytes that arrive for the current read, and its completion.\<close>

definition rd_store :: "reader \<Rightarrow> u8 list \<Rightarrow> reader" where
  "rd_store s bs =
     (let row = row_of s; k = rd_at s
      in s\<lparr>rd_buffer := (rd_buffer s)\<lparr>sb_data := (sb_data (rd_buffer s))
             [rd_row s := take k row @ bs @ drop (k + length bs) row]\<rparr>,
           rd_at := k + length bs, rd_need := rd_need s - length bs\<rparr>)"

fun rd_complete :: "endpoint \<Rightarrow> bool \<Rightarrow> reader \<Rightarrow> reader" where
  "rd_complete Session error s = (if rd_body s then handle_session_read_body error s else handle_session_read_header error s)"
| "rd_complete Client error s = (if rd_body s then handle_read_body error s else handle_read_header error s)"

definition rd_rank :: "reader \<Rightarrow> nat" where
  "rd_rank s = (if \<not> rd_active s \<or> rd_need s > 0 then 0 else if rd_body s then 1 else 2)"

lemma header_size_max: "header_size < max_message_length"
  by (simp add: header_size_14 max_message_length_def)

lemma read_header_rank [simp]: "rd_rank (read_header e s) = 0"
  using header_size_max by (simp add: rd_rank_def read_header_def Let_def sb_length_def header_size_14 split: prod.split)

lemmas handler_defs = handle_session_read_body_def handle_session_read_header_def close_session_def
  session_read_body_def session_read_header_def handle_read_body_def handle_read_header_def client_close_def do_read_def

lemma rank_closed [simp]: "\<not> rd_active s \<Longrightarrow> rd_rank s = 0"
  by (simp add: rd_rank_def)

lemma rank_body [simp]: "rd_body s \<Longrightarrow> rd_rank s < 2"
  by (simp add: rd_rank_def)

lemma rd_complete_rank: "rd_active s \<Longrightarrow> rd_need s = 0 \<Longrightarrow> rd_rank (rd_complete e error s) < rd_rank s"
  by (cases e; cases "rd_body s") (simp_all add: handler_defs Let_def rd_rank_def [of s])

function receive :: "endpoint \<Rightarrow> u8 list \<Rightarrow> reader \<Rightarrow> reader" where
  "receive e bs s =
     (if \<not> rd_active s then s
      else if rd_need s = 0 then receive e bs (rd_complete e False s)
      else if bs = [] then s
      else let n = min (rd_need s) (length bs) in receive e (drop n bs) (rd_store s (take n bs)))"
  by pat_completeness auto
termination
  by (relation "inv_image (less_than <*lex*> less_than) (\<lambda>(e, bs, s). (length bs, rd_rank s))")
    (auto simp: rd_complete_rank)

declare receive.simps [simp del]

datatype net_event = Chunk "u8 list" | Read_error

fun reader_event :: "endpoint \<Rightarrow> reader \<Rightarrow> net_event \<Rightarrow> reader" where
  "reader_event e s (Chunk bs) = receive e bs s"
| "reader_event e s Read_error = (if rd_active s then rd_complete e True s else s)"

definition reader_start :: "endpoint \<Rightarrow> reader" where
  "reader_start e = (case e of Session \<Rightarrow> session_start | Client \<Rightarrow> handle_connect False)"

subsection \<open>The stream cut into messages\<close>

lemma header_valid_size:
  "header_valid h \<Longrightarrow> header_size \<le> unat (msg_size h) \<and> unat (msg_size h) \<le> max_message_length"
  by (simp add: header_valid_def word_le_nat_alt header_size_14 max_message_length_def)

text \<open>The reference reads the whole stream at once: the messages, the rest, and whether no header was invalid.\<close>

function frames :: "u8 list \<Rightarrow> u8 list list \<times> u8 list \<times> bool" where
  "frames bs =
     (if length bs < header_size then ([], bs, True)
      else let header = header_of_bytes (take header_size bs); n = unat (msg_size header)
           in if \<not> header_valid header then ([], bs, False)
              else if length bs < n then ([], bs, True)
              else let (ms, rest, ok) = frames (drop n bs) in (take n bs # ms, rest, ok))"
  by pat_completeness auto

termination
proof (relation "measure length")
  fix bs :: "u8 list" and header n
  assume "header = header_of_bytes (take header_size bs)" "n = unat (msg_size header)" "\<not> \<not> header_valid header"
    and l: "\<not> length bs < header_size"
  then have "header_size \<le> n" using header_valid_size [of header] by simp
  then show "(drop n bs, bs) \<in> measure length" using l by (simp add: header_size_14)
qed simp

declare frames.simps [simp del]

text \<open>The bytes that arrive before the first error.\<close>

fun arrived :: "net_event list \<Rightarrow> u8 list" where
  "arrived [] = []"
| "arrived (Chunk bs # es) = bs @ arrived es"
| "arrived (Read_error # es) = []"

abbreviation header_of :: "u8 list \<Rightarrow> message_header" where
  "header_of bs \<equiv> header_of_bytes (take header_size bs)"

lemma frames_short: "length bs < header_size \<Longrightarrow> frames bs = ([], bs, True)"
  by (simp add: frames.simps [of bs])

lemma frames_invalid: "header_size \<le> length bs \<Longrightarrow> \<not> header_valid (header_of bs) \<Longrightarrow> frames bs = ([], bs, False)"
  by (simp add: frames.simps [of bs])

lemma frames_partial:
  "header_size \<le> length bs \<Longrightarrow> header_valid (header_of bs) \<Longrightarrow> length bs < unat (msg_size (header_of bs)) \<Longrightarrow>
    frames bs = ([], bs, True)"
  by (simp add: frames.simps [of bs])

lemma frames_message:
  assumes "header_valid (header_of m)" "length m = unat (msg_size (header_of m))"
  shows "frames (m @ bs) = (let (ms, rest, ok) = frames bs in (m # ms, rest, ok))"
proof -
  have l: "header_size \<le> length m" using header_valid_size [OF assms(1)] assms(2) by simp
  then have h: "take header_size (m @ bs) = take header_size m" by simp
  show ?thesis using l assms(1) assms(2) [symmetric] by (subst frames.simps) (simp add: h Let_def)
qed

lemma frames_append:
  "frames (xs @ ys) = (let (ms, rest, ok) = frames xs
     in if ok then let (ms', rest', ok') = frames (rest @ ys) in (ms @ ms', rest', ok') else (ms, rest @ ys, False))"
proof (induction xs rule: frames.induct)
  case (1 bs)
  let ?n = "unat (msg_size (header_of bs))"
  consider "length bs < header_size" | "header_size \<le> length bs" "\<not> header_valid (header_of bs)"
    | "header_size \<le> length bs" "header_valid (header_of bs)" "length bs < ?n"
    | "header_size \<le> length bs" "header_valid (header_of bs)" "?n \<le> length bs" by linarith
  then show ?case
  proof cases
    case 4
    have n: "header_size \<le> ?n" using header_valid_size [OF 4(2)] by simp
    let ?m = "take ?n bs"
    have m: "header_of ?m = header_of bs" "length ?m = ?n"
      using n 4(3) by (simp_all only: take_take length_take min.absorb1 min.absorb2)
    have f: "frames (?m @ zs) = (let (ms, rest, ok) = frames zs in (?m # ms, rest, ok))" for zs
      using frames_message [of ?m] unfolding m using 4(2) by blast
    obtain ms rest ok where d: "frames (drop ?n bs) = (ms, rest, ok)" by (cases "frames (drop ?n bs)")
    obtain ms' rest' ok' where e: "frames (rest @ ys) = (ms', rest', ok')" by (cases "frames (rest @ ys)")
    have "frames bs = (?m # ms, rest, ok)"
      using f [of "drop ?n bs"] unfolding append_take_drop_id d by simp
    moreover have "frames (drop ?n bs @ ys) = (if ok then (ms @ ms', rest', ok') else (ms, rest @ ys, False))"
      using 1 [OF _ refl refl] 4 d e by simp
    then have "frames (bs @ ys) = (if ok then (?m # ms @ ms', rest', ok') else (?m # ms, rest @ ys, False))"
      using f [of "drop ?n bs @ ys"] unfolding append_assoc [symmetric] append_take_drop_id by simp
    ultimately show ?thesis using e by simp
  qed (simp_all add: frames_short frames_invalid frames_partial split: prod.split)
qed

subsection \<open>Simulation\<close>

text \<open>\<open>p\<close> are the bytes of the message that is being read.\<close>

definition reading :: "endpoint \<Rightarrow> reader \<Rightarrow> u8 list \<Rightarrow> bool" where
  "reading e s p \<longleftrightarrow>
     rd_active s \<and> length (sb_data (rd_buffer s)) = read_count e + 1 \<and>
     (\<forall>r \<in> set (sb_data (rd_buffer s)). length r = max_message_length + 1) \<and>
     sb_pos (rd_buffer s) < read_count e \<and> rd_row s = sb_pos (rd_buffer s) \<and>
     rd_at s = length p \<and> take (length p) (row_of s) = p \<and>
     (if rd_body s
      then header_size \<le> length p \<and> header_valid (header_of p) \<and> rd_need s + length p = unat (msg_size (header_of p))
      else rd_need s + length p = header_size)"

lemma reading_start:
  assumes "rd_active s" "length (sb_data (rd_buffer s)) = read_count e + 1"
    "\<forall>r \<in> set (sb_data (rd_buffer s)). length r = max_message_length + 1"
  shows "reading e (read_header e s) []"
proof -
  let ?pos = "(sb_pos (rd_buffer s) + 1) mod 2 ^ 64 mod read_count e"
  have "?pos < read_count e" by (cases e) simp_all
  then have "sb_next (read_count e) (rd_buffer s) = ((rd_buffer s)\<lparr>sb_pos := ?pos\<rparr>, ?pos, Some ?pos)"
    by (simp add: sb_next_def sb_get_def Let_def)
  then show ?thesis
    using assms header_size_max \<open>?pos < read_count e\<close>
    by (simp add: read_header_def reading_def sb_length_def)
qed

lemma reading_init: "reading e (reader_start e) []"
  by (cases e)
    (simp_all add: reader_start_def session_start_def session_read_header_def handle_connect_def do_read_def
      reader_init_def, (rule reading_start, simp_all add: sb_init_def)+)

lemma header_append: "header_size \<le> length p \<Longrightarrow> header_of (p @ bs) = header_of p"
  by simp

lemma reading_bound: "reading e s p \<Longrightarrow> rd_need s + length p \<le> max_message_length"
  using header_size_max header_valid_size [of "header_of p"] by (auto simp: reading_def split: if_splits)

lemma reading_store:
  assumes r: "reading e s p" and n: "length bs \<le> rd_need s"
  shows "reading e (rd_store s bs) (p @ bs)"
proof -
  let ?row = "row_of s" and ?D = "sb_data (rd_buffer s)"
  let ?new = "take (length p) ?row @ bs @ drop (length p + length bs) ?row"
  note b = reading_bound [OF r]
  have d: "rd_row s < length ?D" "\<forall>r \<in> set ?D. length r = max_message_length + 1" "rd_at s = length p"
      "take (length p) ?row = p"
    using r by (simp_all add: reading_def)
  then have len: "length ?row = max_message_length + 1" by (simp add: row_of_def)
  then have new: "length ?new = max_message_length + 1" using b n by simp
  have st: "rd_store s bs = s\<lparr>rd_buffer := (rd_buffer s)\<lparr>sb_data := ?D[rd_row s := ?new]\<rparr>,
      rd_at := length p + length bs, rd_need := rd_need s - length bs\<rparr>"
    by (simp add: rd_store_def d(3) Let_def)
  have row: "row_of (rd_store s bs) = p @ bs @ drop (length p + length bs) ?row"
    unfolding st row_of_def using d(1,4) by (simp add: row_of_def)
  have rows: "\<forall>r \<in> set (?D[rd_row s := ?new]). length r = max_message_length + 1"
    using d(2) new by (auto dest!: subsetD [OF set_update_subset_insert])
  have at: "take (length (p @ bs)) (row_of (rd_store s bs)) = p @ bs" unfolding row by simp
  have phase: "if rd_body s then header_size \<le> length (p @ bs) \<and> header_valid (header_of (p @ bs)) \<and>
        rd_need s - length bs + length (p @ bs) = unat (msg_size (header_of (p @ bs)))
      else rd_need s - length bs + length (p @ bs) = header_size"
  proof (cases "rd_body s")
    case True
    then have h: "header_of (p @ bs) = header_of p" using r by (intro header_append) (simp add: reading_def)
    show ?thesis using True r n unfolding h by (simp add: reading_def)
  next
    case False
    then show ?thesis using r n by (simp add: reading_def)
  qed
  have f: "rd_body (rd_store s bs) = rd_body s" "rd_need (rd_store s bs) = rd_need s - length bs"
      "rd_at (rd_store s bs) = length (p @ bs)" "rd_row (rd_store s bs) = rd_row s"
      "rd_active (rd_store s bs) = rd_active s" "sb_pos (rd_buffer (rd_store s bs)) = sb_pos (rd_buffer s)"
      "sb_data (rd_buffer (rd_store s bs)) = ?D[rd_row s := ?new]"
    unfolding st by simp_all
  have g: "rd_active s" "length ?D = read_count e + 1" "sb_pos (rd_buffer s) < read_count e"
      "rd_row s = sb_pos (rd_buffer s)"
    using r by (simp_all add: reading_def)
  show ?thesis
    unfolding reading_def f length_list_update
    by (intro conjI) (rule g rows at phase refl)+
qed

lemma reading_header_complete:
  assumes r: "reading e s p" and c: "\<not> rd_body s" "rd_need s = 0"
  shows "length p = header_size" (is ?l)
    and "\<not> header_valid (header_of p) \<Longrightarrow> rd_complete e False s = close_session s" (is "?i \<Longrightarrow> _")
    and "header_valid (header_of p) \<Longrightarrow> reading e (rd_complete e False s) p" (is "?v \<Longrightarrow> _")
proof -
  show l: ?l using r c by (simp add: reading_def)
  then have row: "take header_size (row_of s) = p" using r by (simp add: reading_def)
  have p: "take header_size p = p" using l by simp
  have at: "rd_at s = header_size" using r l by (simp add: reading_def)
  have active: "rd_active s" using r by (simp add: reading_def)
  show "?i \<Longrightarrow> rd_complete e False s = close_session s"
    by (cases e) (simp_all add: c handler_defs row p at active)
  assume v: ?v
  have s: "rd_complete e False s = session_read_body s (header_of p)"
    using v by (cases e) (simp_all add: c handler_defs row p at)
  let ?h = "header_of p"
  have "unat (payload_size ?h) = unat (msg_size ?h) - header_size"
    using v by (auto simp: payload_size_def header_valid_def header_size_14 word_less_nat_alt word_le_nat_alt unat_sub)
  then have "min (unat (payload_size ?h)) (sb_length max_message_length - header_size) + header_size = unat (msg_size ?h)"
    using header_valid_size [OF v] by (simp add: sb_length_def min.absorb1 diff_le_mono)
  then show "reading e (rd_complete e False s) p"
    using r l v unfolding s reading_def by (auto simp: session_read_body_def row_of_def)
qed

lemma reading_body_complete:
  assumes r: "reading e s p" and c: "rd_body s" "rd_need s = 0"
  shows "header_valid (header_of p)" "length p = unat (msg_size (header_of p))"
    and "reading e (rd_complete e False s) []" "rd_messages (rd_complete e False s) = rd_messages s @ [p]"
proof -
  show v: "header_valid (header_of p)" and l: "length p = unat (msg_size (header_of p))"
    using r c by (simp_all add: reading_def)
  have b: "header_size \<le> length p" using r c by (simp add: reading_def)
  have row: "take (length p) (row_of s) = p" using r by (simp add: reading_def)
  have "take header_size (row_of s) = take header_size (take (length p) (row_of s))"
    using b by (simp only: take_take min.absorb1)
  then have h: "header_of (row_of s) = header_of p" unfolding row by simp
  have at: "rd_at s = length p" using r by (simp add: reading_def)
  have s: "rd_complete e False s = read_header e (s\<lparr>rd_messages := rd_messages s @ [p]\<rparr>)"
    using b v r by (cases e) (simp_all add: c handler_defs h at l [symmetric] row Let_def reading_def)
  show "reading e (rd_complete e False s) []"
    unfolding s using r by (intro reading_start) (simp_all add: reading_def)
  show "rd_messages (rd_complete e False s) = rd_messages s @ [p]"
    unfolding s by (simp add: read_header_def split: prod.split)
qed

lemma receive_inactive: "\<not> rd_active s \<Longrightarrow> receive e bs s = s"
  by (simp add: receive.simps)

text \<open>The reader computes the reference, and what is left of the stream is the current message.\<close>

definition reads_as :: "endpoint \<Rightarrow> reader \<Rightarrow> u8 list list \<Rightarrow> u8 list list \<times> u8 list \<times> bool \<Rightarrow> bool" where
  "reads_as e s ms F \<longleftrightarrow>
     rd_messages s = ms @ fst F \<and> (if snd (snd F) then reading e s (fst (snd F)) \<and> rd_need s > 0 else \<not> rd_active s)"

lemma receive_frames: "reading e s p \<Longrightarrow> reads_as e (receive e bs s) (rd_messages s) (frames (p @ bs))"
proof (induction e bs s arbitrary: p rule: receive.induct)
  case (1 e bs s)
  have a: "rd_active s" using 1(3) by (simp add: reading_def)
  consider (header) "rd_need s = 0" "\<not> rd_body s" | (body) "rd_need s = 0" "rd_body s"
    | (wait) "rd_need s > 0" "bs = []" | (store) "rd_need s > 0" "bs \<noteq> []" by auto
  then show ?case
  proof cases
    case header
    note c = reading_header_complete [OF 1(3) header(2,1)]
    have s: "receive e bs s = receive e bs (rd_complete e False s)" using header(1) a by (simp add: receive.simps [of _ _ s])
    show ?thesis
    proof (cases "header_valid (header_of p)")
      case True
      have "rd_messages (rd_complete e False s) = rd_messages s"
        by (cases e) (simp_all add: header handler_defs Let_def)
      then show ?thesis using 1(1) [OF _ header(1) c(3) [OF True]] a s by simp
    next
      case False
      then have "frames (p @ bs) = ([], p @ bs, False)" using c(1) by (intro frames_invalid) simp_all
      then show ?thesis unfolding s c(2) [OF False] by (simp add: receive_inactive close_session_def reads_as_def)
    qed
  next
    case body
    note c = reading_body_complete [OF 1(3) body(2,1)]
    have "receive e bs s = receive e bs (rd_complete e False s)" using body(1) a by (simp add: receive.simps [of _ _ s])
    then show ?thesis
      using 1(1) [OF _ body(1) c(3)] a frames_message [OF c(1,2)] c(4) by (auto simp: reads_as_def split: prod.splits)
  next
    case wait
    have "frames p = ([], p, True)"
      using 1(3) wait(1) by (cases "rd_body s") (simp_all add: reading_def frames_short frames_partial)
    then show ?thesis using wait 1(3) a by (simp add: receive.simps [of _ _ s] reads_as_def)
  next
    case store
    let ?n = "min (rd_need s) (length bs)"
    have "receive e bs s = receive e (drop ?n bs) (rd_store s (take ?n bs))"
      using store a by (simp add: receive.simps [of _ _ s] Let_def)
    moreover have "reading e (rd_store s (take ?n bs)) (p @ take ?n bs)" by (rule reading_store [OF 1(3)]) simp
    moreover have "rd_messages (rd_store s (take ?n bs)) = rd_messages s" by (simp add: rd_store_def Let_def)
    moreover have "frames ((p @ take ?n bs) @ drop ?n bs) = frames (p @ bs)" by simp
    ultimately show ?thesis using 1(2) [OF _ _ store(2) refl, of "p @ take ?n bs"] store(1) a
      by (simp del: append_assoc)
  qed
qed

lemma session_events_inactive: "\<not> rd_active s \<Longrightarrow> foldl (reader_event e) s es = s"
proof (induction es)
  case (Cons ev es)
  then show ?case by (cases ev) (simp_all add: receive_inactive)
qed simp

lemma session_events_frames:
  "reading e s p \<Longrightarrow> rd_need s > 0 \<Longrightarrow>
    rd_messages (foldl (reader_event e) s es) = rd_messages s @ fst (frames (p @ arrived es)) \<and>
    (rd_active (foldl (reader_event e) s es) \<longleftrightarrow> Read_error \<notin> set es \<and> snd (snd (frames (p @ arrived es))))"
proof (induction es arbitrary: s p)
  case Nil
  then have "receive e [] s = s" by (simp add: receive.simps [of _ _ s])
  then show ?case using receive_frames [OF Nil(1), of "[]"] Nil
    by (cases "frames p") (auto simp: reads_as_def reading_def split: if_splits)
next
  case (Cons ev es)
  show ?case
  proof (cases ev)
    case (Chunk bs)
    obtain ms rest ok where f: "frames (p @ bs) = (ms, rest, ok)" by (cases "frames (p @ bs)")
    have r: "reads_as e (receive e bs s) (rd_messages s) (ms, rest, ok)" using receive_frames [OF Cons.prems(1)] f by metis
    have a: "frames (p @ bs @ arrived es) = (if ok then let (ms', rest', ok') = frames (rest @ arrived es) in (ms @ ms', rest', ok')
        else (ms, rest @ arrived es, False))"
      using frames_append [of "p @ bs" "arrived es"] f by simp
    show ?thesis
    proof (cases ok)
      case True
      then have "reading e (receive e bs s) rest" "rd_need (receive e bs s) > 0" "rd_messages (receive e bs s) = rd_messages s @ ms"
        using r by (simp_all add: reads_as_def)
      then show ?thesis using Cons.IH Chunk a True by (simp split: prod.split)
    next
      case False
      then show ?thesis using r Chunk a by (simp add: reads_as_def session_events_inactive)
    qed
  next
    case Read_error
    have w: "receive e [] s = s" using Cons.prems by (simp add: receive.simps [of _ _ s])
    have m: "fst (frames p) = []"
      using receive_frames [OF Cons.prems(1), of "[]"] w by (simp add: reads_as_def)
    have c: "reader_event e s Read_error = close_session s"
      using Cons.prems by (cases e) (simp_all add: reading_def handler_defs)
    show ?thesis unfolding Read_error foldl_Cons c using m
      by (simp add: session_events_inactive close_session_def)
  qed
qed

lemma reader_start_messages: "rd_messages (reader_start e) = []" "0 < rd_need (reader_start e)"
  by (cases e; simp add: reader_start_def session_start_def session_read_header_def handle_connect_def do_read_def
      reader_init_def read_header_def sb_length_def header_size_14 max_message_length_def split: prod.split)+

text \<open>
  C20. Server and client read the stream, not the chunks. Whatever pieces the network delivers and
  wherever an error cuts the connection, the messages handed to \<open>onMessage\<close>
  or \<open>onReceived\<close> are the ones
  that the bytes before the error contain, read at once; and the connection stays open exactly
  when there was no error and no invalid header.
\<close>

theorem reader_reads_frames:
  "rd_messages (foldl (reader_event e) (reader_start e) es) = fst (frames (arrived es)) \<and>
   (rd_active (foldl (reader_event e) (reader_start e) es) \<longleftrightarrow>
      Read_error \<notin> set es \<and> snd (snd (frames (arrived es))))"
proof -
  have "rd_need (reader_start e) > 0" "rd_messages (reader_start e) = []"
    by (simp_all add: reader_start_messages)
  then show ?thesis using session_events_frames [OF reading_init] by simp
qed

subsection \<open>From one session to the other\<close>

definition well_framed :: "u8 list \<Rightarrow> bool" where
  "well_framed m \<longleftrightarrow> header_valid (header_of_bytes (take header_size m)) \<and>
     length m = unat (msg_size (header_of_bytes (take header_size m)))"

text \<open>
  The client writes through its own ring, and only messages with a valid header; it moves
  to the next row before it copies, not after.
\<close>

fun write_count :: "endpoint \<Rightarrow> nat" where
  "write_count Session = 16"
| "write_count Client = 8"

definition client_write_data :: "bool \<Rightarrow> session \<Rightarrow> u8 list option \<Rightarrow> session \<times> bool" where
  "client_write_data connected s msg =
     (case msg of
        None \<Rightarrow> (s, False)
      | Some data \<Rightarrow>
          if length data > max_message_length then (s, False)
          else if \<not> connected then (s, False)
          else (case sb_next (write_count Client) (write_buffer s) of
                  (sb, pos, None) \<Rightarrow> (s, False)
                | (sb, pos, Some buffer) \<Rightarrow>
                    (s\<lparr>write_buffer := sb_store sb buffer data, pending := pending s @ [(buffer, length data)]\<rparr>, True)))"

definition client_write :: "bool \<Rightarrow> session \<Rightarrow> u8 list option \<Rightarrow> session \<times> bool" where
  "client_write connected s msg =
     (case msg of
        None \<Rightarrow> (s, False)
      | Some m \<Rightarrow>
          let header = header_of_bytes (take header_size m)
          in if \<not> header_valid header then (s, False)
             else client_write_data connected s (Some (take (unat (msg_size header)) m)))"

fun client_run :: "session \<Rightarrow> event list \<Rightarrow> u8 list list" where
  "client_run s [] = []"
| "client_run s (Write msg # es) = client_run (fst (client_write True s msg)) es"
| "client_run s (Complete # es) =
     (case session_complete s of
        (s, None) \<Rightarrow> client_run s es
      | (s, Some bytes) \<Rightarrow> bytes # client_run s es)"

definition sent_by :: "endpoint \<Rightarrow> event list \<Rightarrow> u8 list list" where
  "sent_by e es =
     (case e of
        Session \<Rightarrow> session_run (write_count e) max_message_length (session_init (write_count e) max_message_length) es
      | Client \<Rightarrow> client_run (session_init (write_count e) max_message_length) es)"

fun other :: "endpoint \<Rightarrow> endpoint" where
  "other Session = Client"
| "other Client = Session"

text \<open>One step ahead the client is a session.\<close>

definition ahead :: "session \<Rightarrow> session" where
  "ahead s = s\<lparr>write_buffer := fst (sb_next (write_count Client) (write_buffer s))\<rparr>"

lemma client_write_ahead:
  assumes "\<And>m. msg = Some m \<Longrightarrow> well_framed m"
  shows "ahead (fst (client_write True s msg)) = fst (session_write (write_count Client) max_message_length (ahead s) msg)"
proof (cases msg)
  case None
  then show ?thesis by (simp add: client_write_def session_write_def)
next
  case (Some m)
  then have w: "header_valid (header_of m)" "take (unat (msg_size (header_of m))) m = m" "length m \<le> max_message_length"
    using assms [of m] header_valid_size [of "header_of m"] by (simp_all add: well_framed_def)
  show ?thesis
    using w(3) by (simp add: Some client_write_def w(1,2) client_write_data_def session_write_def sb_length_def ahead_def
        sb_next_def sb_get_def sb_store_def Let_def)
qed

lemma complete_ahead: "session_complete (ahead s) = apfst ahead (session_complete s)"
  by (simp add: session_complete_def ahead_def sb_next_def Let_def split: list.split prod.split)

lemma client_run_ahead:
  "(\<And>m. Write (Some m) \<in> set es \<Longrightarrow> well_framed m) \<Longrightarrow>
    client_run s es = session_run (write_count Client) max_message_length (ahead s) es"
proof (induction s es rule: client_run.induct)
  case (2 s msg es)
  then show ?case using client_write_ahead [of msg s] by simp
next
  case (3 s es)
  then show ?case by (auto simp: complete_ahead split: prod.split option.split)
qed simp

lemma ring_inv_ahead: "ring_inv (write_count Client) LEN (ahead (session_init (write_count Client) LEN)) []"
  by (auto simp: ring_inv_def ahead_def session_init_def sb_init_def sb_next_def Let_def intro: exI [of _ 1])

lemma sent_by_fifo:
  assumes "within (write_count e) max_message_length [] es" "\<And>m. Write (Some m) \<in> set es \<Longrightarrow> well_framed m"
  shows "sent_by e es = fifo_run max_message_length [] es"
proof (cases e)
  case Session
  show ?thesis
    unfolding sent_by_def Session endpoint.case
    by (rule session_run_fifo [OF _ _ ring_inv_init assms(1) [unfolded Session]]) simp_all
next
  case Client
  have "sent_by e es = session_run (write_count Client) max_message_length
      (ahead (session_init (write_count Client) max_message_length)) es"
    unfolding sent_by_def Client endpoint.case by (rule client_run_ahead) (fact assms(2))
  also have "\<dots> = fifo_run max_message_length [] es"
    by (rule session_run_fifo [OF _ _ ring_inv_ahead assms(1) [unfolded Client]]) simp_all
  finally show ?thesis .
qed

lemma frames_concat: "(\<And>m. m \<in> set ms \<Longrightarrow> well_framed m) \<Longrightarrow> frames (concat ms) = (ms, [], True)"
proof (induction ms)
  case Nil
  then show ?case by (simp add: frames_short header_size_14)
next
  case (Cons m ms)
  then show ?case using frames_message [of m "concat ms"] by (simp add: well_framed_def)
qed

lemma header_of_wire:
  assumes "length (msg_signature h) = 4"
  shows "header_of (header_bytes h @ payload) = h"
proof -
  have "length (header_bytes h) = header_size"
    using assms by (simp add: header_bytes_def length_le_split header_size_14)
  then show ?thesis by (simp add: header_of_bytes_bytes assms)
qed

text \<open>What a message of the library looks like on the wire is well framed.\<close>

lemma typed_well_framed:
  assumes "typed S m" "length (msg_signature (fst m)) = 4" "length payload + header_size = body_sizeof S (snd m)"
  shows "well_framed (header_bytes (fst m) @ payload)"
proof -
  have "length (header_bytes (fst m)) = header_size"
    using assms by (simp add: header_bytes_def length_le_split header_size_14)
  then show ?thesis
    unfolding well_framed_def header_of_wire [OF assms(2)] using assms(1,3) by (simp add: typed_def)
qed

lemma set_fifo_run: "set (fifo_run LEN q es) \<subseteq> set q \<union> {m. Write (Some m) \<in> set es}"
proof (induction LEN q es rule: fifo_run.induct)
  case (2 LEN q msg es)
  then show ?case by (cases msg) (auto split: if_splits)
qed auto



end
