(* ===== verification/Std_Map.thy ===== *)
theory Std_Map
  imports Main
begin

text \<open>
  \<open>std::map\<close> as the programs use it: an association list kept in the order of the keys,
  which is the order in which a range loop visits it. \<open>insert\<close> keeps an existing value,
  assignment through \<open>operator[]\<close> replaces it.
\<close>

type_synonym ('k, 'v) std_map = "('k \<times> 'v) list"

definition sm_find :: "('k, 'v) std_map \<Rightarrow> 'k \<Rightarrow> 'v option" where
  "sm_find m k = map_of m k"

definition sm_count :: "('k, 'v) std_map \<Rightarrow> 'k \<Rightarrow> nat" where
  "sm_count m k = (case sm_find m k of None \<Rightarrow> 0 | Some _ \<Rightarrow> 1)"

definition sm_size :: "('k, 'v) std_map \<Rightarrow> nat" where
  "sm_size m = length m"

fun sm_set :: "('k::linorder, 'v) std_map \<Rightarrow> 'k \<Rightarrow> 'v \<Rightarrow> ('k, 'v) std_map" where
  "sm_set [] k v = [(k, v)]"
| "sm_set ((k', v') # m) k v =
     (if k < k' then (k, v) # (k', v') # m else if k = k' then (k, v) # m else (k', v') # sm_set m k v)"

definition sm_insert :: "('k::linorder, 'v) std_map \<Rightarrow> 'k \<Rightarrow> 'v \<Rightarrow> ('k, 'v) std_map" where
  "sm_insert m k v = (if sm_count m k > 0 then m else sm_set m k v)"

definition sm_ok :: "('k::linorder, 'v) std_map \<Rightarrow> bool" where
  "sm_ok m \<longleftrightarrow> sorted_wrt (<) (map fst m)"

lemma sm_find_Nil [simp]: "sm_find [] k = None"
  by (simp add: sm_find_def)

lemma sm_ok_Nil [simp]: "sm_ok []"
  by (simp add: sm_ok_def)

lemma sm_find_set [simp]: "sm_ok m \<Longrightarrow> sm_find (sm_set m k v) k' = (if k' = k then Some v else sm_find m k')"
proof (induction m)
  case (Cons p m)
  have "sm_find m k = None" if "\<forall>x \<in> set m. k < fst x" using that by (force simp: sm_find_def map_of_eq_None_iff)
  then show ?case using Cons by (cases p) (force simp: sm_find_def sm_ok_def)
qed (simp add: sm_find_def)

lemma set_sm_set: "fst ` set (sm_set m k v) = insert k (fst ` set m)"
  by (induction m k v rule: sm_set.induct) (simp_all add: insert_commute)

lemma sm_ok_set [simp]: "sm_ok m \<Longrightarrow> sm_ok (sm_set m k v)"
proof (induction m)
  case (Cons p m)
  then show ?case using set_sm_set [of m k v] by (cases p) (auto simp: sm_ok_def image_iff)
qed (simp add: sm_ok_def)

lemma sm_ok_insert [simp]: "sm_ok m \<Longrightarrow> sm_ok (sm_insert m k v)"
  by (simp add: sm_insert_def)

lemma sm_count_0: "sm_count m k = 0 \<longleftrightarrow> sm_find m k = None"
  by (simp add: sm_count_def split: option.splits)

lemma sm_count_pos: "sm_count m k > 0 \<longleftrightarrow> sm_find m k \<noteq> None"
  by (simp add: sm_count_def split: option.splits)

lemma sm_find_insert [simp]:
  "sm_ok m \<Longrightarrow> sm_find (sm_insert m k v) k' = (if k' = k \<and> sm_find m k = None then Some v else sm_find m k')"
  by (auto simp: sm_insert_def sm_count_pos)

lemma sm_distinct: "sm_ok m \<Longrightarrow> distinct (map fst m)"
  by (simp add: sm_ok_def strict_sorted_iff)

lemma sm_find_iff: "sm_ok m \<Longrightarrow> sm_find m k = Some v \<longleftrightarrow> (k, v) \<in> set m"
  using map_of_eq_Some_iff [OF sm_distinct, of m k v] by (simp add: sm_find_def)

lemma sm_size_card: "sm_ok m \<Longrightarrow> sm_size m = card {k. sm_find m k \<noteq> None}"
proof -
  assume "sm_ok m"
  have "{k. sm_find m k \<noteq> None} = set (map fst m)" by (auto simp: sm_find_def map_of_eq_None_iff image_iff)
  then show ?thesis using distinct_card [OF sm_distinct [OF \<open>sm_ok m\<close>]] by (simp add: sm_size_def)
qed

lemma sm_size_set: "sm_find m k = None \<Longrightarrow> sm_size (sm_set m k v) = sm_size m + 1"
  by (induction m k v rule: sm_set.induct) (auto simp: sm_find_def sm_size_def split: if_splits)

text \<open>A search loop over a map finds the first entry that satisfies its test.\<close>

lemma sm_search: "List.find P m = None \<longleftrightarrow> (\<forall>p \<in> set m. \<not> P p)"
  by (auto simp: find_None_iff)

lemma sm_search_Some: "List.find P m = Some p \<Longrightarrow> p \<in> set m \<and> P p"
  by (auto simp: find_Some_iff)

text \<open>A key above all others is inserted at the end.\<close>

lemma sm_insert_snoc: "\<forall>x \<in> set m. fst x < k \<Longrightarrow> sm_insert m k v = m @ [(k, v)]"
proof -
  assume a: "\<forall>x \<in> set m. fst x < k"
  then have "sm_set m k v = m @ [(k, v)]" by (induction m) auto
  moreover have "sm_find m k = None" using a by (force simp: sm_find_def map_of_eq_None_iff)
  ultimately show ?thesis by (simp add: sm_insert_def sm_count_pos)
qed

end
