(* ===== verification/P2p_Server.thy ===== *)
theory P2p_Server
  imports Framing Std_Map "HOL-Library.List_Lexorder" "HOL-Library.Char_ord" "HOL-Library.Sublist"
begin

text \<open>
  The server of the p2p prototype with its sessions and peers (tests/dev/p2p_server:
  p2p_server.cpp, p2p_session.cpp, peer.hpp, peer.cpp, peer_message.inl, node_server.cpp).
  What its callers, the network and the clock do are events: starting, appending peers,
  accepting a connection, bytes that arrive or a read that fails, a write that completes, the
  result of a connect or the loss of a peer, a turn of the main loop. Sessions read as in
  \<open>Framing\<close> and write through the ring of \<open>Socket_Buffer\<close>. The lemmas show that every
  session reads exactly its own bytes whatever happens to the others, what the handlers make
  of a ping and of the notification of a peer. One handler runs at a time, as with the one io
  thread that the program starts; locks and log messages are left out, and so are what a peer
  object receives, which it only logs, and the exception of a connect to a host that is no address.
\<close>

subsection \<open>Peers and sessions\<close>

record peer_info =
  info_id :: string
  info_host :: string
  info_port :: u16

definition info_eq :: "peer_info \<Rightarrow> peer_info \<Rightarrow> bool" where
  "info_eq a b \<longleftrightarrow>
     (if info_id a \<noteq> info_id b then False
      else if info_host a \<noteq> info_host b then False
      else if info_port a \<noteq> info_port b then False else True)"

text \<open>What the default constructor makes, if the memory of the port was zero.\<close>

definition nobody :: peer_info where
  "nobody = \<lparr>info_id = [], info_host = [], info_port = 0\<rparr>"

text \<open>
  A peer is a client; \<open>peer_connecting\<close> counts the connects that have not been answered. A
  session is known by the number in which it was accepted; \<open>ss_reading\<close> tells whether a
  read is outstanding.
\<close>

record cpeer =
  peer_of :: peer_info
  peer_session :: "nat option"
  peer_connected :: bool
  peer_connecting :: nat
  peer_writer :: session

record server_session =
  ss_reader :: reader
  ss_reading :: bool
  ss_writer :: session
  ss_closed :: nat

record p2p_server =
  sv_running :: bool
  sv_me :: peer_info
  sv_peers :: "(string, cpeer) std_map"
  sv_sessions :: "(nat \<times> server_session) list"
  sv_next :: nat
  sv_disconnected :: "nat list"
  sv_last_sec :: nat
  sv_ping_id :: u64

definition p2p_server_new :: "peer_info \<Rightarrow> p2p_server" where
  "p2p_server_new none = \<lparr>sv_running = False, sv_me = none, sv_peers = [], sv_sessions = [], sv_next = 0,
     sv_disconnected = [], sv_last_sec = 0, sv_ping_id = 0\<rparr>"

definition session_at :: "p2p_server \<Rightarrow> nat \<Rightarrow> server_session option" where
  "session_at sv k = map_of (sv_sessions sv) k"

definition put_session :: "p2p_server \<Rightarrow> nat \<Rightarrow> server_session \<Rightarrow> p2p_server" where
  "put_session sv k s = sv\<lparr>sv_sessions := map (\<lambda>(i, x). if i = k then (i, s) else (i, x)) (sv_sessions sv)\<rparr>"

definition session_active :: "server_session \<Rightarrow> bool" where
  "session_active s = rd_active (ss_reader s)"

definition session_close :: "nat \<Rightarrow> server_session \<Rightarrow> server_session" where
  "session_close now s = s\<lparr>ss_closed := now, ss_reader := (ss_reader s)\<lparr>rd_active := False\<rparr>\<rparr>"

definition session_expired :: "nat \<Rightarrow> int \<Rightarrow> server_session \<Rightarrow> bool" where
  "session_expired now timeout s \<longleftrightarrow>
     \<not> session_active s \<and> ss_closed s \<noteq> 0 \<and> int now - int (ss_closed s) > timeout"

text \<open>Starting may meet an error of the acceptor, or an exception of one of the calls before the io threads run.\<close>

definition p2p_start_server :: "bool \<Rightarrow> bool \<Rightarrow> bool \<Rightarrow> peer_info \<Rightarrow> p2p_server \<Rightarrow> p2p_server \<times> bool" where
  "p2p_start_server open_error bind_error throws info sv =
     (let sv = sv\<lparr>sv_me := info\<rparr>
      in if open_error then (sv, False)
         else if bind_error then (sv, False)
         else if throws then (sv, False)
         else (sv\<lparr>sv_running := True\<rparr>, True))"

definition p2p_stop_server :: "p2p_server \<Rightarrow> p2p_server \<times> bool" where
  "p2p_stop_server sv = (sv\<lparr>sv_running := False\<rparr>, True)"

definition server_close_session :: "nat \<Rightarrow> p2p_server \<Rightarrow> nat \<Rightarrow> p2p_server" where
  "server_close_session now sv k =
     (let sv = sv\<lparr>sv_disconnected := sv_disconnected sv @ [k]\<rparr>
      in case session_at sv k of None \<Rightarrow> sv | Some s \<Rightarrow> put_session sv k (session_close now s))"

definition remove_session_if :: "nat \<Rightarrow> p2p_server \<Rightarrow> int \<Rightarrow> p2p_server" where
  "remove_session_if now sv timeout =
     sv\<lparr>sv_sessions := filter (\<lambda>(k, s). \<not> session_expired now timeout s) (sv_sessions sv)\<rparr>"

definition new_session :: server_session where
  "new_session = \<lparr>ss_reader = (reader_init Session)\<lparr>rd_active := False\<rparr>, ss_reading = False,
     ss_writer = session_init (write_count Session) max_message_length, ss_closed = 0\<rparr>"

definition handle_accept :: "nat \<Rightarrow> bool \<Rightarrow> p2p_server \<Rightarrow> p2p_server" where
  "handle_accept now error sv =
     (let k = sv_next sv;
          sv = sv\<lparr>sv_next := k + 1\<rparr>
      in if \<not> error
         then let s = new_session\<lparr>ss_reader := (ss_reader new_session)\<lparr>rd_active := True\<rparr>\<rparr>;
                  s = s\<lparr>ss_reader := session_read_header (ss_reader s), ss_reading := True\<rparr>
              in sv\<lparr>sv_sessions := sv_sessions sv @ [(k, s)]\<rparr>
         else server_close_session now sv k)"

definition find_peer :: "p2p_server \<Rightarrow> string \<Rightarrow> cpeer option" where
  "find_peer sv name = map_option snd (List.find (\<lambda>(i, p). name = i) (sv_peers sv))"

definition put_peer :: "p2p_server \<Rightarrow> string \<Rightarrow> cpeer \<Rightarrow> p2p_server" where
  "put_peer sv i p = sv\<lparr>sv_peers := map (\<lambda>(j, q). if j = i then (j, p) else (j, q)) (sv_peers sv)\<rparr>"

definition append_peer :: "p2p_server \<Rightarrow> peer_info \<Rightarrow> p2p_server \<times> bool" where
  "append_peer sv info =
     (if find_peer sv (info_id info) \<noteq> None then (sv, False)
      else (sv\<lparr>sv_peers := sm_insert (sv_peers sv) (info_id info)
              \<lparr>peer_of = info, peer_session = None, peer_connected = False, peer_connecting = 0,
               peer_writer = session_init (write_count Client) max_message_length\<rparr>\<rparr>, True))"

text \<open>\<open>connect_peer\<close> looks at the connection, not at a connect that is still under way.\<close>

definition connect_peer :: "cpeer \<Rightarrow> cpeer" where
  "connect_peer p = (if peer_connected p then p else p\<lparr>peer_connecting := peer_connecting p + 1\<rparr>)"

definition connect_to_peer :: "cpeer \<Rightarrow> cpeer \<times> bool" where
  "connect_to_peer p = (if peer_connected p then (p, False) else (connect_peer p, True))"

definition connect_to_peers :: "p2p_server \<Rightarrow> p2p_server" where
  "connect_to_peers sv = sv\<lparr>sv_peers := map (\<lambda>(i, p). (i, fst (connect_to_peer p))) (sv_peers sv)\<rparr>"

subsection \<open>Messages\<close>

text \<open>
  The objects on the wire. Two bytes of padding before the 64-bit member of \<open>message_ping\<close>
  and \<open>message_pong\<close> are whatever the stack held; \<open>node_message_peer_notify\<close> has none.
\<close>

definition node_message_peer_notify_id :: u16 where
  "node_message_peer_notify_id = id_of ''node_message_start'' + 1"

definition id_object :: "u8 \<times> u8 \<Rightarrow> body \<Rightarrow> u64 \<Rightarrow> u8 list" where
  "id_object pad b i = header_bytes (fst (message_make 0 b)) @ [fst pad, snd pad] @ le_split 8 i"

definition ping_object :: "u8 \<times> u8 \<Rightarrow> u64 \<Rightarrow> u8 list" where
  "ping_object pad i = id_object pad (message_ping i) i"

definition pong_object :: "u8 \<times> u8 \<Rightarrow> u64 \<Rightarrow> u8 list" where
  "pong_object pad i = id_object pad (message_pong i) i"

definition peer_notify_size :: nat where
  "peer_notify_size = fst (class_type header_size [bytes_type 32, bytes_type 16, (2, 2)])"

definition peer_notify_object :: "peer_info \<Rightarrow> u8 list" where
  "peer_notify_object me =
     header_bytes (message_header_make node_message_peer_notify_id (of_nat peer_notify_size)) @
     copy_string 32 (map of_char (info_id me)) @ copy_string 16 (map of_char (info_host me)) @
     le_split 2 (info_port me)"

text \<open>
  A handler reads the members from the row of the ring; a character array up to the first
  zero, wherever that is. \<open>None\<close>, where the code would read past the row, cannot occur: the last byte of
  a row is never written.
\<close>

definition object_id :: "u8 list \<Rightarrow> u64" where
  "object_id row = le_join (take 8 (drop 16 row))"

definition notify_info :: "u8 list \<Rightarrow> peer_info option" where
  "notify_info row =
     (case (string_at (drop 14 row), string_at (drop 46 row)) of
        (Some i, Some h) \<Rightarrow> Some \<lparr>info_id = i, info_host = h, info_port = le_join (take 2 (drop 62 row))\<rparr>
      | _ \<Rightarrow> None)"

subsection \<open>Handlers\<close>

definition sendto :: "p2p_server \<Rightarrow> nat \<Rightarrow> u8 list \<Rightarrow> p2p_server" where
  "sendto sv k data =
     (case session_at sv k of
        None \<Rightarrow> sv
      | Some s \<Rightarrow> put_session sv k
          (s\<lparr>ss_writer := fst (session_write (write_count Session) max_message_length (ss_writer s) (Some data))\<rparr>))"

definition server_sendall :: "p2p_server \<Rightarrow> u8 list \<Rightarrow> p2p_server" where
  "server_sendall sv data =
     foldl (\<lambda>sv (k, s). if session_active s then sendto sv k data else sv) sv (sv_sessions sv)"

definition on_ping :: "u8 \<times> u8 \<Rightarrow> nat \<Rightarrow> u8 list \<Rightarrow> p2p_server \<Rightarrow> p2p_server" where
  "on_ping pad k row sv = sendto sv k (pong_object pad (object_id row))"

definition on_peer_notify :: "nat \<Rightarrow> nat \<Rightarrow> u8 list \<Rightarrow> p2p_server \<Rightarrow> p2p_server" where
  "on_peer_notify now k row sv =
     (case notify_info row of
        None \<Rightarrow> sv
      | Some info \<Rightarrow>
          (case find_peer sv (info_id info) of
             None \<Rightarrow> server_close_session now sv k
           | Some peer \<Rightarrow>
               if \<not> info_eq (peer_of peer) info then server_close_session now sv k
               else put_peer sv (info_id info) (connect_peer (peer\<lparr>peer_session := Some k\<rparr>))))"

definition on_message :: "u8 \<times> u8 \<Rightarrow> nat \<Rightarrow> nat \<Rightarrow> u8 list \<Rightarrow> p2p_server \<Rightarrow> p2p_server" where
  "on_message pad now k row sv =
     (let i = msgid (header_of_bytes (take header_size row))
      in if i = id_of ''message_ping_id'' then on_ping pad k row sv
         else if i = id_of ''message_pong_id'' then sv
         else if i = node_message_peer_notify_id then on_peer_notify now k row sv
         else sv)"

text \<open>
  The handlers of \<open>Framing\<close> in their server: a handler that ends the session closes it; a
  complete message is handed over with its row, and the next read is posted, also for a
  session that the message has closed.
\<close>

definition read_done :: "u8 \<times> u8 \<Rightarrow> nat \<Rightarrow> bool \<Rightarrow> nat \<Rightarrow> p2p_server \<Rightarrow> p2p_server" where
  "read_done pad now error k sv =
     (case session_at sv k of
        None \<Rightarrow> sv
      | Some s \<Rightarrow>
          let r = rd_complete Session error (ss_reader s)
          in if \<not> rd_active r
             then server_close_session now (put_session sv k (s\<lparr>ss_reading := False\<rparr>)) k
             else let sv = put_session sv k (s\<lparr>ss_reader := r\<rparr>)
                  in if rd_body (ss_reader s) then on_message pad now k (row_of (ss_reader s)) sv else sv)"

definition read_rank :: "p2p_server \<Rightarrow> nat \<Rightarrow> nat" where
  "read_rank sv k = (case session_at sv k of None \<Rightarrow> 0 | Some s \<Rightarrow> if ss_reading s then rd_rank (ss_reader s) else 0)"

lemma session_at_put [simp]:
  "session_at (put_session sv k s) j = (if j = k \<and> session_at sv k \<noteq> None then Some s else session_at sv j)"
proof -
  have "map_of (map (\<lambda>(i, x). if i = k then (i, s) else (i, x)) xs) j =
      (if j = k \<and> map_of xs k \<noteq> None then Some s else map_of xs j)" for xs
    by (induction xs) auto
  then show ?thesis by (simp add: session_at_def put_session_def)
qed

lemma session_at_close [simp]:
  "session_at (server_close_session now sv k) j =
     (if j = k then map_option (session_close now) (session_at sv k) else session_at sv j)"
  by (auto simp: server_close_session_def Let_def session_at_def [of "sv\<lparr>sv_disconnected := _\<rparr>"] session_at_def [of sv]
      split: option.split)

lemma session_at_peer [simp]: "session_at (put_peer sv i p) j = session_at sv j"
  by (simp add: session_at_def put_peer_def)

lemma session_at_sendto [simp]:
  "session_at (sendto sv k data) j =
     (if j = k then map_option (\<lambda>s. s\<lparr>ss_writer := fst (session_write (write_count Session) max_message_length (ss_writer s) (Some data))\<rparr>)
        (session_at sv k) else session_at sv j)"
  by (simp add: sendto_def split: option.split)

text \<open>A message touches its own session only, and of that the ring of writes, or it closes it.\<close>

definition closed_or_written :: "server_session \<Rightarrow> server_session \<Rightarrow> bool" where
  "closed_or_written s s' \<longleftrightarrow> ss_reading s' = ss_reading s \<and>
     (ss_reader s' = ss_reader s \<or> ss_reader s' = (ss_reader s)\<lparr>rd_active := False\<rparr>)"

lemma on_message_session:
  "session_at sv k = Some s \<Longrightarrow>
     (\<exists>s'. session_at (on_message pad now k row sv) k = Some s' \<and> closed_or_written s s') \<and>
     (j \<noteq> k \<longrightarrow> session_at (on_message pad now k row sv) j = session_at sv j)"
  by (auto simp: on_message_def on_ping_def on_peer_notify_def Let_def closed_or_written_def session_close_def
      split: option.split)

lemma read_done_rank:
  assumes "session_at sv k = Some s" "ss_reading s" "rd_active (ss_reader s)" "rd_need (ss_reader s) = 0"
  shows "read_rank (read_done pad now error k sv) k < read_rank sv k"
proof -
  let ?r = "rd_complete Session error (ss_reader s)"
  note r = rd_complete_rank [OF assms(3,4), of Session error]
  show ?thesis
  proof (cases "rd_active ?r \<and> rd_body (ss_reader s)")
    case True
    let ?s = "s\<lparr>ss_reader := ?r\<rparr>"
    have a: "session_at (put_session sv k ?s) k = Some ?s" using assms(1) by simp
    obtain s' where "session_at (on_message pad now k (row_of (ss_reader s)) (put_session sv k ?s)) k = Some s'"
        "closed_or_written ?s s'"
      using on_message_session [OF a, of pad now "row_of (ss_reader s)" k] by blast
    then show ?thesis
      using True assms r by (auto simp: read_done_def read_rank_def closed_or_written_def Let_def simp del: rd_complete.simps)
  next
    case False
    then show ?thesis using assms r by (auto simp: read_done_def read_rank_def Let_def session_close_def simp del: rd_complete.simps)
  qed
qed

subsection \<open>Events\<close>

function server_receive :: "u8 \<times> u8 \<Rightarrow> nat \<Rightarrow> nat \<Rightarrow> u8 list \<Rightarrow> p2p_server \<Rightarrow> p2p_server" where
  "server_receive pad now k bs sv =
     (case session_at sv k of
        None \<Rightarrow> sv
      | Some s \<Rightarrow>
          if \<not> (ss_reading s \<and> rd_active (ss_reader s)) then sv
          else if rd_need (ss_reader s) = 0 then server_receive pad now k bs (read_done pad now False k sv)
          else if bs = [] then sv
          else let n = min (rd_need (ss_reader s)) (length bs)
               in server_receive pad now k (drop n bs)
                    (put_session sv k (s\<lparr>ss_reader := rd_store (ss_reader s) (take n bs)\<rparr>)))"
  by pat_completeness auto
termination
  by (relation "inv_image (less_than <*lex*> less_than) (\<lambda>(pad, now, k, bs, sv). (length bs, read_rank sv k))")
    (auto simp: read_done_rank)

declare server_receive.simps [simp del]

text \<open>
  The answer to a connect: on success the client tells the other end who it is. A second
  connect on a socket that is connected fails, and then the peer counts as not connected.
\<close>

definition on_connected :: "peer_info \<Rightarrow> cpeer \<Rightarrow> cpeer" where
  "on_connected me p = p\<lparr>peer_writer := fst (client_write (peer_connected p) (peer_writer p) (Some (peer_notify_object me)))\<rparr>"

definition peer_connect_done :: "bool \<Rightarrow> peer_info \<Rightarrow> cpeer \<Rightarrow> cpeer" where
  "peer_connect_done error me p =
     on_connected me (p\<lparr>peer_connecting := peer_connecting p - 1, peer_connected := \<not> error\<rparr>)"

text \<open>A turn of \<open>node_server::main\<close>: one ping to all in every new second.\<close>

definition server_main :: "u8 \<times> u8 \<Rightarrow> nat \<Rightarrow> p2p_server \<Rightarrow> p2p_server" where
  "server_main pad sec sv =
     (if sec \<noteq> sv_last_sec sv
      then let sv = sv\<lparr>sv_last_sec := sec\<rparr>;
               ping = ping_object pad (sv_ping_id sv);
               sv = sv\<lparr>sv_ping_id := sv_ping_id sv + 1\<rparr>
           in server_sendall sv ping
      else sv)"

datatype server_event =
    Start bool bool bool peer_info | Stop | Append peer_info | Connect_peers
  | Accepted bool | Arrived nat "u8 list" | Read_failed nat | Written nat
  | Connected string bool | Lost string | Main nat | Remove_expired int

definition server_written :: "nat \<Rightarrow> p2p_server \<Rightarrow> p2p_server" where
  "server_written k sv =
     (case session_at sv k of
        None \<Rightarrow> sv
      | Some s \<Rightarrow> put_session sv k (s\<lparr>ss_writer := fst (session_complete (ss_writer s))\<rparr>))"

definition server_read_failed :: "u8 \<times> u8 \<Rightarrow> nat \<Rightarrow> nat \<Rightarrow> p2p_server \<Rightarrow> p2p_server" where
  "server_read_failed pad now k sv =
     (case session_at sv k of
        None \<Rightarrow> sv
      | Some s \<Rightarrow> if ss_reading s then read_done pad now True k sv else sv)"

definition peer_close :: "cpeer \<Rightarrow> cpeer" where
  "peer_close p = p\<lparr>peer_connected := False\<rparr>"

definition update_peer :: "p2p_server \<Rightarrow> string \<Rightarrow> (cpeer \<Rightarrow> cpeer) \<Rightarrow> p2p_server" where
  "update_peer sv i f = (case find_peer sv i of None \<Rightarrow> sv | Some p \<Rightarrow> put_peer sv i (f p))"

text \<open>An event comes with the padding and the clock at that time.\<close>

fun server_step :: "p2p_server \<Rightarrow> (u8 \<times> u8) \<times> nat \<times> server_event \<Rightarrow> p2p_server" where
  "server_step sv (pad, now, Start open_error bind_error throws info) = fst (p2p_start_server open_error bind_error throws info sv)"
| "server_step sv (pad, now, Stop) = fst (p2p_stop_server sv)"
| "server_step sv (pad, now, Append info) = fst (append_peer sv info)"
| "server_step sv (pad, now, Connect_peers) = connect_to_peers sv"
| "server_step sv (pad, now, Accepted error) = handle_accept now error sv"
| "server_step sv (pad, now, Arrived k bs) = server_receive pad now k bs sv"
| "server_step sv (pad, now, Read_failed k) = server_read_failed pad now k sv"
| "server_step sv (pad, now, Written k) = server_written k sv"
| "server_step sv (pad, now, Connected i error) = update_peer sv i (peer_connect_done error (sv_me sv))"
| "server_step sv (pad, now, Lost i) = update_peer sv i peer_close"
| "server_step sv (pad, now, Main sec) = server_main pad sec sv"
| "server_step sv (pad, now, Remove_expired timeout) = remove_session_if now sv timeout"

subsection \<open>Sessions do not interfere\<close>

definition peer_notify :: "u8 list \<Rightarrow> bool" where
  "peer_notify m \<longleftrightarrow> msgid (header_of_bytes (take header_size m)) = node_message_peer_notify_id"

lemma on_message_reader:
  "session_at sv k = Some s \<Longrightarrow> \<not> peer_notify row \<Longrightarrow>
     \<exists>s'. session_at (on_message pad now k row sv) k = Some s' \<and> ss_reader s' = ss_reader s \<and> ss_reading s' = ss_reading s"
  by (simp add: on_message_def on_ping_def peer_notify_def Let_def)

text \<open>What a session has done after its bytes: all of the messages, or those up to a notification that closed it.\<close>

definition read_until :: "server_session \<Rightarrow> u8 list list \<Rightarrow> u8 list list \<times> u8 list \<times> bool \<Rightarrow> bool" where
  "read_until s ms F \<longleftrightarrow>
     reads_as Session (ss_reader s) ms F \<and> (snd (snd F) \<longrightarrow> ss_reading s) \<or>
     (\<exists>n < length (fst F). rd_messages (ss_reader s) = ms @ take (Suc n) (fst F) \<and> \<not> session_active s \<and>
        peer_notify (fst F ! n))"

lemma server_receive_closed: "session_at sv k = Some s \<Longrightarrow> \<not> session_active s \<Longrightarrow> server_receive pad now k bs sv = sv"
  by (simp add: server_receive.simps session_active_def)

lemma reading_frames: "reading e s p \<Longrightarrow> rd_need s > 0 \<Longrightarrow> frames p = ([], p, True)"
  by (cases "rd_body s") (simp_all add: reading_def frames_short frames_partial)

lemma read_until_Cons:
  assumes "read_until s (ms @ [p]) F"
  shows "read_until s ms (p # fst F, snd F)"
  using assms unfolding read_until_def
proof (elim disjE exE conjE)
  fix n assume "n < length (fst F)" "rd_messages (ss_reader s) = (ms @ [p]) @ take (Suc n) (fst F)"
    "\<not> session_active s" "peer_notify (fst F ! n)"
  then show "reads_as Session (ss_reader s) ms (p # fst F, snd F) \<and> (snd (snd (p # fst F, snd F)) \<longrightarrow> ss_reading s) \<or>
      (\<exists>n < length (fst (p # fst F, snd F)). rd_messages (ss_reader s) = ms @ take (Suc n) (fst (p # fst F, snd F)) \<and>
        \<not> session_active s \<and> peer_notify (fst (p # fst F, snd F) ! n))"
    by (intro disjI2 exI [of _ "Suc n"]) simp
qed (simp add: reads_as_def)

lemma put_put [simp]: "put_session (put_session sv k s) k s' = put_session sv k s'"
proof -
  have "map (\<lambda>(i, x). if i = k then (i, s') else (i, x)) (map (\<lambda>(i, x). if i = k then (i, s) else (i, x)) xs) =
      map (\<lambda>(i, x). if i = k then (i, s') else (i, x)) xs" for xs
    by (induction xs) auto
  then show ?thesis by (simp add: put_session_def)
qed

text \<open>What arrives either completes no message, or the first message reaches its handler.\<close>

definition no_message :: "p2p_server \<Rightarrow> nat \<Rightarrow> server_session \<Rightarrow> u8 list \<Rightarrow> bool" where
  "no_message sv k s xs \<longleftrightarrow> fst (frames xs) = [] \<and>
     (\<exists>s'. session_at sv k = Some s' \<and> ss_writer s' = ss_writer s \<and>
        reads_as Session (ss_reader s') (rd_messages (ss_reader s)) (frames xs) \<and> (snd (snd (frames xs)) \<longrightarrow> ss_reading s'))"

lemma receive_message:
  "session_at sv k = Some s \<Longrightarrow> reading Session (ss_reader s) p \<Longrightarrow> ss_reading s \<Longrightarrow>
    no_message (server_receive pad now k bs sv) k s (p @ bs) \<or>
    (\<exists>m bs' r row. p @ bs = m @ bs' \<and> well_framed m \<and> take (length m) row = m \<and> reading Session r [] \<and>
       rd_messages r = rd_messages (ss_reader s) @ [m] \<and>
       server_receive pad now k bs sv =
         server_receive pad now k bs' (on_message pad now k row (put_session sv k (s\<lparr>ss_reader := r\<rparr>))))"
proof (induction pad now k bs sv arbitrary: s p rule: server_receive.induct)
  case (1 pad now k bs sv)
  let ?s = "ss_reader s"
  note at = 1(3) and r = 1(4) and w = 1(5)
  have a: "rd_active ?s" using r by (simp add: reading_def)
  then have g: "\<not> \<not> (ss_reading s \<and> rd_active ?s)" using w by simp
  have unroll: "server_receive pad now k bs sv = server_receive pad now k bs (read_done pad now False k sv)" if "rd_need ?s = 0"
    using that at a w by (simp add: server_receive.simps [of _ _ _ _ sv])
  consider (header) "rd_need ?s = 0" "\<not> rd_body ?s" | (body) "rd_need ?s = 0" "rd_body ?s"
    | (wait) "rd_need ?s > 0" "bs = []" | (store) "rd_need ?s > 0" "bs \<noteq> []" by auto
  then show ?case
  proof cases
    case header
    note c = reading_header_complete [OF r header(2,1)]
    show ?thesis
    proof (cases "header_valid (header_of p)")
      case True
      let ?t = "s\<lparr>ss_reader := rd_complete Session False ?s\<rparr>"
      have c3: "reading Session (ss_reader ?t) p" using c(3) [OF True] by simp
      then have d: "read_done pad now False k sv = put_session sv k ?t"
        using at header by (simp add: read_done_def reading_def Let_def del: rd_complete.simps)
      have m: "rd_messages (rd_complete Session False ?s) = rd_messages ?s" by (simp add: header handler_defs Let_def)
      show ?thesis
        using 1(1) [OF at g header(1), of ?t p] c3 w at
        unfolding unroll [OF header(1)] d by (simp add: m no_message_def del: rd_complete.simps)
    next
      case False
      then have f: "frames (p @ bs) = ([], p @ bs, False)" using c(1) by (intro frames_invalid) simp_all
      let ?t = "session_close now (s\<lparr>ss_reading := False\<rparr>)"
      have d: "session_at (read_done pad now False k sv) k = Some ?t"
        using at c(2) [OF False] by (simp add: read_done_def close_session_def del: rd_complete.simps)
      have "server_receive pad now k bs (read_done pad now False k sv) = read_done pad now False k sv"
        by (rule server_receive_closed [OF d]) (simp add: session_close_def session_active_def)
      then show ?thesis unfolding unroll [OF header(1)] no_message_def f
        using d by (simp add: reads_as_def session_close_def)
    qed
  next
    case body
    note c = reading_body_complete [OF r body(2,1)]
    let ?r = "rd_complete Session False ?s"
    have "rd_active ?r" using c(3) by (simp add: reading_def)
    then have "read_done pad now False k sv = on_message pad now k (row_of ?s) (put_session sv k (s\<lparr>ss_reader := ?r\<rparr>))"
      using at body by (simp add: read_done_def Let_def del: rd_complete.simps)
    moreover have "take (length p) (row_of ?s) = p" using r by (simp add: reading_def)
    moreover have "well_framed p" using c(1,2) by (simp add: well_framed_def)
    ultimately show ?thesis
      using c(3,4) unroll [OF body(1)] by (intro disjI2 exI [of _ p] exI [of _ bs] exI [of _ ?r] exI [of _ "row_of ?s"]) simp
  next
    case wait
    then show ?thesis using r a w at reading_frames [OF r wait(1)]
      by (simp add: server_receive.simps [of _ _ _ _ sv] no_message_def reads_as_def)
  next
    case store
    let ?n = "min (rd_need ?s) (length bs)"
    let ?t = "s\<lparr>ss_reader := rd_store ?s (take ?n bs)\<rparr>"
    have u: "server_receive pad now k bs sv = server_receive pad now k (drop ?n bs) (put_session sv k ?t)"
      using store a w at by (simp add: server_receive.simps [of _ _ _ _ sv] Let_def)
    have "reading Session (ss_reader ?t) (p @ take ?n bs)" using reading_store [OF r, of "take ?n bs"] by simp
    moreover have "rd_messages (rd_store ?s (take ?n bs)) = rd_messages ?s" by (simp add: rd_store_def Let_def)
    moreover have "(p @ take ?n bs) @ drop ?n bs = p @ bs" by simp
    ultimately show ?thesis
      using 1(2) [OF at g _ store(2) refl, of ?t "p @ take ?n bs"] store(1) at w unfolding u no_message_def
      by (simp del: append_assoc)
  qed
qed

lemma well_framed_header: "well_framed m \<Longrightarrow> take (length m) row = m \<Longrightarrow> header_of row = header_of m"
proof -
  assume w: "well_framed m" and r: "take (length m) row = m"
  have "header_size \<le> length m" using w header_valid_size [of "header_of m"] by (simp add: well_framed_def)
  then have "take header_size row = take header_size (take (length m) row)" by (simp only: take_take min.absorb1)
  then show ?thesis unfolding r by simp
qed

lemma frames_first: "well_framed m \<Longrightarrow> frames (m @ bs) = (m # fst (frames bs), snd (frames bs))"
  using frames_message [of m bs] by (simp add: well_framed_def split: prod.split)

lemma server_receive_frames:
  "session_at sv k = Some s \<Longrightarrow> reading Session (ss_reader s) p \<Longrightarrow> ss_reading s \<Longrightarrow>
    \<exists>s'. session_at (server_receive pad now k bs sv) k = Some s' \<and>
      read_until s' (rd_messages (ss_reader s)) (frames (p @ bs))"
proof (induction "length (p @ bs)" arbitrary: sv s p bs rule: less_induct)
  case less
  consider "no_message (server_receive pad now k bs sv) k s (p @ bs)"
    | (message) m bs' r row where "p @ bs = m @ bs'" "well_framed m" "take (length m) row = m" "reading Session r []"
      "rd_messages r = rd_messages (ss_reader s) @ [m]"
      "server_receive pad now k bs sv =
         server_receive pad now k bs' (on_message pad now k row (put_session sv k (s\<lparr>ss_reader := r\<rparr>)))"
    using receive_message [OF less(2-4), of pad now bs] by blast
  then show ?case
  proof cases
    case 1
    then show ?thesis by (auto simp: no_message_def read_until_def)
  next
    case message
    let ?sv = "put_session sv k (s\<lparr>ss_reader := r\<rparr>)"
    have at: "session_at ?sv k = Some (s\<lparr>ss_reader := r\<rparr>)" using less(2) by simp
    obtain s' where s': "session_at (on_message pad now k row ?sv) k = Some s'" "closed_or_written (s\<lparr>ss_reader := r\<rparr>) s'"
      using on_message_session [OF at, of pad now row k] by blast
    have f: "frames (p @ bs) = (m # fst (frames bs'), snd (frames bs'))"
      unfolding message(1) by (rule frames_first [OF message(2)])
    have h: "peer_notify row = peer_notify m"
      unfolding peer_notify_def using well_framed_header [OF message(2,3)] by simp
    have l: "length ([] @ bs') < length (p @ bs)"
      using header_valid_size [of "header_of m"] message(1,2) by (simp add: well_framed_def header_size_14)
    show ?thesis
    proof (cases "session_active s'")
      case True
      have "rd_active r" using message(4) by (simp add: reading_def)
      then have "ss_reader s' = r" "ss_reading s'"
        using True s'(2) less(4) by (auto simp: closed_or_written_def session_active_def)
      then show ?thesis
        using less(1) [OF l s'(1)] message(4,5) read_until_Cons unfolding message(6) f by (metis append_Nil)
    next
      case False
      have n: "peer_notify m"
        using on_message_reader [OF at, of row pad now] False s'(1) h message(4)
        by (auto simp: session_active_def reading_def)
      have "rd_messages (ss_reader s') = rd_messages (ss_reader s) @ [m]"
        using s'(2) message(5) by (auto simp: closed_or_written_def)
      then have "read_until s' (rd_messages (ss_reader s)) (m # fst (frames bs'), snd (frames bs'))"
        using False n unfolding read_until_def by (intro disjI2 exI [of _ 0]) simp
      then show ?thesis
        using s'(1) server_receive_closed [OF s'(1) False] unfolding message(6) f by simp
    qed
  qed
qed

text \<open>An event concerns one session at most, and a session that is gone does not come back.\<close>

definition session_keys :: "p2p_server \<Rightarrow> nat list \<times> nat" where
  "session_keys sv = (map fst (sv_sessions sv), sv_next sv)"

definition sessions_wf :: "p2p_server \<Rightarrow> bool" where
  "sessions_wf sv \<longleftrightarrow> distinct (map fst (sv_sessions sv)) \<and> (\<forall>i \<in> set (map fst (sv_sessions sv)). i < sv_next sv)"

lemma sessions_wf_keys: "session_keys sv' = session_keys sv \<Longrightarrow> sessions_wf sv' = sessions_wf sv"
  unfolding session_keys_def sessions_wf_def by simp

lemma keys_put [simp]: "session_keys (put_session sv k s) = session_keys sv"
  by (auto simp: session_keys_def put_session_def)

lemma keys_close [simp]: "session_keys (server_close_session now sv k) = session_keys sv"
  by (simp add: server_close_session_def Let_def split: option.split) (simp add: session_keys_def)

lemma keys_peer [simp]: "session_keys (put_peer sv i p) = session_keys sv"
  by (simp add: session_keys_def put_peer_def)

lemma keys_sendto [simp]: "session_keys (sendto sv k data) = session_keys sv"
  by (simp add: sendto_def split: option.split)

lemma keys_message [simp]: "session_keys (on_message pad now k row sv) = session_keys sv"
  by (simp add: on_message_def on_ping_def on_peer_notify_def Let_def split: option.split)

lemma keys_read_done [simp]: "session_keys (read_done pad now error k sv) = session_keys sv"
  by (simp add: read_done_def Let_def split: option.split)

lemma keys_receive [simp]: "session_keys (server_receive pad now k bs sv) = session_keys sv"
proof (induction pad now k bs sv rule: server_receive.induct)
  case (1 pad now k bs sv)
  then show ?case by (simp add: server_receive.simps [of _ _ _ _ sv] Let_def split: option.split)
qed

lemma keys_update [simp]: "session_keys (update_peer sv i f) = session_keys sv"
  by (simp add: update_peer_def split: option.split)

lemma keys_manage [simp]:
  "session_keys (fst (p2p_start_server a b c info sv)) = session_keys sv"
  "session_keys (fst (p2p_stop_server sv)) = session_keys sv"
  "session_keys (fst (append_peer sv info)) = session_keys sv"
  "session_keys (connect_to_peers sv) = session_keys sv"
  by (simp_all add: session_keys_def p2p_start_server_def p2p_stop_server_def append_peer_def connect_to_peers_def Let_def)

lemma session_at_manage [simp]:
  "session_at (fst (p2p_start_server a b c info sv)) k = session_at sv k"
  "session_at (fst (p2p_stop_server sv)) k = session_at sv k"
  "session_at (fst (append_peer sv info)) k = session_at sv k"
  "session_at (connect_to_peers sv) k = session_at sv k"
  by (simp_all add: session_at_def p2p_start_server_def p2p_stop_server_def append_peer_def connect_to_peers_def Let_def)

fun session_events :: "nat \<Rightarrow> ((u8 \<times> u8) \<times> nat \<times> server_event) list \<Rightarrow> net_event list" where
  "session_events k [] = []"
| "session_events k ((pad, now, e) # es) =
     (case e of
        Arrived j bs \<Rightarrow> (if j = k then [Chunk bs] else [])
      | Read_failed j \<Rightarrow> (if j = k then [Read_error] else [])
      | _ \<Rightarrow> []) @ session_events k es"

text \<open>What concerns reading: the reader and whether a read is outstanding.\<close>

definition reader_at :: "p2p_server \<Rightarrow> nat \<Rightarrow> (reader \<times> bool) option" where
  "reader_at sv k = map_option (\<lambda>s. (ss_reader s, ss_reading s)) (session_at sv k)"

lemma reader_at_sendto [simp]: "reader_at (sendto sv k data) j = reader_at sv j"
  by (simp add: reader_at_def option.map_comp comp_def)

lemma sendall_same:
  "reader_at (server_sendall sv data) j = reader_at sv j \<and> session_keys (server_sendall sv data) = session_keys sv"
proof -
  have "reader_at (foldl (\<lambda>sv (k, s). if session_active s then sendto sv k data else sv) sv xs) j = reader_at sv j \<and>
      session_keys (foldl (\<lambda>sv (k, s). if session_active s then sendto sv k data else sv) sv xs) = session_keys sv" for xs
    by (induction xs arbitrary: sv) (auto simp: case_prod_beta)
  then show ?thesis by (simp add: server_sendall_def)
qed

lemma main_same:
  "reader_at (server_main pad sec sv) j = reader_at sv j \<and> session_keys (server_main pad sec sv) = session_keys sv"
  using sendall_same [of "sv\<lparr>sv_last_sec := sec, sv_ping_id := sv_ping_id sv + 1\<rparr>"]
  by (simp add: server_main_def Let_def) (simp add: reader_at_def session_at_def session_keys_def)

lemma read_done_other: "j \<noteq> k \<Longrightarrow> session_at (read_done pad now error k sv) j = session_at sv j"
  using on_message_session [of "put_session sv k _" k _ pad now _ j]
  by (simp add: read_done_def Let_def split: option.split)

lemma receive_other: "j \<noteq> k \<Longrightarrow> session_at (server_receive pad now k bs sv) j = session_at sv j"
proof (induction pad now k bs sv rule: server_receive.induct)
  case (1 pad now k bs sv)
  then show ?case by (simp add: read_done_other server_receive.simps [of _ _ _ _ sv] Let_def split: option.split)
qed

lemma session_at_next [simp]: "session_at (sv\<lparr>sv_next := n\<rparr>) j = session_at sv j"
  by (simp add: session_at_def)

lemma accept_session:
  "handle_accept now False sv =
     sv\<lparr>sv_next := sv_next sv + 1, sv_sessions := sv_sessions sv @ [(sv_next sv, new_session\<lparr>ss_reader := session_start, ss_reading := True\<rparr>)]\<rparr>"
  by (simp add: handle_accept_def Let_def session_start_def new_session_def reader_init_def)

lemma accept_new:
  assumes "sessions_wf sv"
  shows "sessions_wf (handle_accept now error sv)" "sv_next (handle_accept now error sv) = sv_next sv + 1"
    and "j < sv_next sv \<Longrightarrow> reader_at (handle_accept now error sv) j = reader_at sv j"
proof -
  have k: "session_keys (handle_accept now True sv) = (map fst (sv_sessions sv), sv_next sv + 1)"
    by (simp add: handle_accept_def Let_def) (simp add: session_keys_def)
  then show "sessions_wf (handle_accept now error sv)"
    using assms by (cases error) (auto simp: accept_session sessions_wf_def session_keys_def)
  show "sv_next (handle_accept now error sv) = sv_next sv + 1"
    using k by (cases error) (auto simp: accept_session session_keys_def)
  show "reader_at (handle_accept now error sv) j = reader_at sv j" if "j < sv_next sv"
    using that by (cases error) (auto simp: accept_session reader_at_def session_at_def [of "sv\<lparr>sv_next := _, sv_sessions := _\<rparr>"]
        session_at_def [of sv] map_add_def handle_accept_def Let_def split: option.split)
qed

lemma expired_removed:
  assumes "sessions_wf sv"
  shows "sessions_wf (remove_session_if now sv timeout)" "sv_next (remove_session_if now sv timeout) = sv_next sv"
    and "session_at (remove_session_if now sv timeout) j =
      (case session_at sv j of None \<Rightarrow> None | Some s \<Rightarrow> if session_expired now timeout s then None else Some s)"
proof -
  show "sessions_wf (remove_session_if now sv timeout)" "sv_next (remove_session_if now sv timeout) = sv_next sv"
    using assms by (auto simp: sessions_wf_def remove_session_if_def distinct_map_filter)
  have "map_of (filter (\<lambda>(k, s). \<not> session_expired now timeout s) xs) j =
      (case map_of xs j of None \<Rightarrow> None | Some s \<Rightarrow> if session_expired now timeout s then None else Some s)"
    if "distinct (map fst xs)" for xs
    using that by (induction xs) (auto simp: map_of_eq_None_iff image_iff split: option.split)
  then show "session_at (remove_session_if now sv timeout) j =
      (case session_at sv j of None \<Rightarrow> None | Some s \<Rightarrow> if session_expired now timeout s then None else Some s)"
    using assms by (simp add: session_at_def remove_session_if_def sessions_wf_def)
qed

lemma step_wf:
  "sessions_wf sv \<Longrightarrow> sessions_wf (server_step sv e) \<and> sv_next sv \<le> sv_next (server_step sv e)"
proof -
  assume w: "sessions_wf sv"
  have same: "session_keys sv' = session_keys sv \<Longrightarrow> sessions_wf sv' \<and> sv_next sv \<le> sv_next sv'" for sv'
    using w sessions_wf_keys [of sv' sv] by (simp add: session_keys_def)
  show ?thesis
  proof (cases "(sv, e)" rule: server_step.cases)
    case (5 sv' pad now error)
    then show ?thesis using accept_new(1,2) [OF w] by simp
  next
    case (11 sv' pad now sec)
    then show ?thesis using same main_same by simp
  next
    case (12 sv' pad now timeout)
    then show ?thesis using expired_removed(1,2) [OF w] by simp
  qed (use w in \<open>auto intro!: same simp: server_read_failed_def server_written_def split: option.split\<close>)
qed

lemma step_other:
  assumes "sessions_wf sv" "k < sv_next sv" "session_events k [e] = []"
  shows "reader_at (server_step sv e) k = reader_at sv k \<or>
    reader_at (server_step sv e) k = None \<and> (\<forall>s. session_at sv k = Some s \<longrightarrow> \<not> session_active s)"
proof (cases "(sv, e)" rule: server_step.cases)
  case (5 sv' pad now error)
  then show ?thesis using accept_new(3) [OF assms(1,2)] by simp
next
  case (6 sv' pad now j bs)
  then show ?thesis using receive_other [of k j] assms(3) by (simp add: reader_at_def split: if_splits)
next
  case (7 sv' pad now j)
  then show ?thesis
    using assms(3) by (simp add: reader_at_def server_read_failed_def read_done_other split: option.split if_splits)
next
  case (11 sv' pad now sec)
  then show ?thesis using main_same by simp
next
  case (12 sv' pad now timeout)
  then show ?thesis
    using expired_removed(3) [OF assms(1), of now timeout k]
    by (auto simp: reader_at_def session_expired_def split: option.splits if_splits)
qed (auto simp: reader_at_def server_written_def update_peer_def split: option.split)

lemma gone_stays: "sessions_wf sv \<Longrightarrow> k < sv_next sv \<Longrightarrow> session_at sv k = None \<Longrightarrow> session_at (foldl server_step sv es) k = None"
proof (induction es arbitrary: sv)
  case (Cons e es)
  have "session_at (server_step sv e) k = None"
  proof (cases "session_events k [e] = []")
    case True
    then show ?thesis using step_other [OF Cons.prems(1,2) True] Cons.prems(3) by (auto simp: reader_at_def)
  next
    case False
    then show ?thesis using Cons.prems(3)
      by (cases "(sv, e)" rule: server_step.cases)
        (auto simp: server_read_failed_def server_receive.simps split: if_splits)
  qed
  then show ?case using Cons.IH [of "server_step sv e"] Cons.prems step_wf [OF Cons.prems(1), of e] by simp
qed simp

text \<open>A closed session hands over nothing any more.\<close>

lemma closed_stays:
  "sessions_wf sv \<Longrightarrow> k < sv_next sv \<Longrightarrow> session_at sv k = Some s \<Longrightarrow> \<not> session_active s \<Longrightarrow>
    session_at (foldl server_step sv es) k = Some s' \<Longrightarrow>
    \<not> session_active s' \<and> rd_messages (ss_reader s') = rd_messages (ss_reader s)"
proof (induction es arbitrary: sv s)
  case (Cons e es)
  note w = step_wf [OF Cons.prems(1), of e]
  show ?case
  proof (cases "session_at (server_step sv e) k")
    case None
    then show ?thesis using gone_stays [of "server_step sv e" k es] w Cons.prems(2,5) by simp
  next
    case (Some t)
    have "\<not> session_active t \<and> rd_messages (ss_reader t) = rd_messages (ss_reader s)"
    proof (cases "session_events k [e] = []")
      case True
      then show ?thesis
        using step_other [OF Cons.prems(1,2) True] Some Cons.prems(3,4) by (auto simp: reader_at_def session_active_def)
    next
      case False
      then show ?thesis using Some Cons.prems(3,4) server_receive_closed [OF Cons.prems(3,4)]
        by (cases "(sv, e)" rule: server_step.cases)
          (auto simp: server_read_failed_def read_done_def session_close_def session_active_def handler_defs split: if_splits)
    qed
    then show ?thesis using Cons.IH [OF _ _ Some] w Cons.prems(2,5) by simp
  qed
qed simp

definition heard :: "server_session \<Rightarrow> u8 list list \<Rightarrow> u8 list list \<times> u8 list \<times> bool \<Rightarrow> bool \<Rightarrow> bool" where
  "heard s ms F failed \<longleftrightarrow>
     rd_messages (ss_reader s) = ms @ fst F \<and> (session_active s \<longleftrightarrow> \<not> failed \<and> snd (snd F)) \<or>
     (\<exists>n < length (fst F). rd_messages (ss_reader s) = ms @ take (Suc n) (fst F) \<and> \<not> session_active s \<and>
        peer_notify (fst F ! n))"

lemma heard_more: "heard s (ms @ ms') (ms'', rest, ok) failed \<Longrightarrow> heard s ms (ms' @ ms'', rest, ok) failed"
  unfolding heard_def
proof (elim disjE exE conjE)
  fix n assume "n < length (fst (ms'', rest, ok))" "rd_messages (ss_reader s) = (ms @ ms') @ take (Suc n) (fst (ms'', rest, ok))"
    "\<not> session_active s" "peer_notify (fst (ms'', rest, ok) ! n)"
  then show "rd_messages (ss_reader s) = ms @ fst (ms' @ ms'', rest, ok) \<and>
      (session_active s \<longleftrightarrow> \<not> failed \<and> snd (snd (ms' @ ms'', rest, ok))) \<or>
      (\<exists>n < length (fst (ms' @ ms'', rest, ok)). rd_messages (ss_reader s) = ms @ take (Suc n) (fst (ms' @ ms'', rest, ok)) \<and>
        \<not> session_active s \<and> peer_notify (fst (ms' @ ms'', rest, ok) ! n))"
    by (intro disjI2 exI [of _ "length ms' + n"]) (simp add: nth_append)
qed simp

lemma closed_heard:
  assumes "read_until t ms F" "\<not> session_active t" "\<not> session_active s" "rd_messages (ss_reader s) = rd_messages (ss_reader t)"
    "frames (xs @ ys) = (fst F @ ms', rest, ok)" "snd (snd F) \<or> ms' = [] \<and> \<not> ok"
  shows "heard s ms (frames (xs @ ys)) failed"
proof -
  from assms(1) show ?thesis
    unfolding read_until_def
  proof (elim disjE exE conjE)
    assume "reads_as Session (ss_reader t) ms F" "snd (snd F) \<longrightarrow> ss_reading t"
    then show ?thesis
      using assms(2-6) by (auto simp: heard_def reads_as_def reading_def session_active_def split: if_splits)
  next
    fix n assume n: "n < length (fst F)" "rd_messages (ss_reader t) = ms @ take (Suc n) (fst F)" "peer_notify (fst F ! n)"
    then show ?thesis
      unfolding heard_def using assms(3-5) by (intro disjI2 exI [of _ n]) (simp add: nth_append)
  qed
qed

lemma session_hears:
  "sessions_wf sv \<Longrightarrow> k < sv_next sv \<Longrightarrow> session_at sv k = Some s \<Longrightarrow> reading Session (ss_reader s) p \<Longrightarrow>
    rd_need (ss_reader s) > 0 \<Longrightarrow> ss_reading s \<Longrightarrow> session_at (foldl server_step sv es) k = Some s' \<Longrightarrow>
    heard s' (rd_messages (ss_reader s)) (frames (p @ arrived (session_events k es))) (Read_error \<in> set (session_events k es))"
proof (induction es arbitrary: sv s p)
  case Nil
  then show ?case using reading_frames [OF Nil(4,5)] by (simp add: heard_def session_active_def reading_def)
next
  case (Cons e es)
  note w = step_wf [OF Cons.prems(1), of e]
  have a: "session_active s" using Cons.prems(4) by (simp add: reading_def session_active_def)
  have split: "session_events k (e # es) = session_events k [e] @ session_events k es" by (cases e) auto
  consider (other) "session_events k [e] = []" | (bytes) pad now bs where "e = (pad, now, Arrived k bs)"
    | (error) pad now where "e = (pad, now, Read_failed k)"
    by (cases "(sv, e)" rule: server_step.cases; force)
  then show ?case
  proof cases
    case other
    then have "reader_at (server_step sv e) k = reader_at sv k"
      using step_other [OF Cons.prems(1,2) other] a Cons.prems(3) by auto
    then obtain t where "session_at (server_step sv e) k = Some t" "ss_reader t = ss_reader s" "ss_reading t = ss_reading s"
      using Cons.prems(3) by (auto simp: reader_at_def)
    then show ?thesis using Cons.IH [of "server_step sv e" t p] Cons.prems w split other by simp
  next
    case bytes
    then have e: "session_events k (e # es) = Chunk bs # session_events k es" by simp
    obtain t where t: "session_at (server_step sv e) k = Some t" "read_until t (rd_messages (ss_reader s)) (frames (p @ bs))"
      using server_receive_frames [OF Cons.prems(3,4,6), of pad now bs] bytes by auto
    obtain ms rest ok where F: "frames (p @ bs) = (ms, rest, ok)" by (cases "frames (p @ bs)")
    obtain ms' rest' ok' where F': "frames (rest @ arrived (session_events k es)) = (ms', rest', ok')"
      by (cases "frames (rest @ arrived (session_events k es))")
    have G: "frames ((p @ bs) @ arrived (session_events k es)) = (if ok then (ms @ ms', rest', ok') else
        (ms, rest @ arrived (session_events k es), False))"
      unfolding frames_append [of "p @ bs"] F by (simp add: F')
    have fin: "session_at (foldl server_step (server_step sv e) es) k = Some s'" using Cons.prems(7) by simp
    have k: "k < sv_next (server_step sv e)" using w Cons.prems(2) by simp
    show ?thesis
    proof (cases "session_active t")
      case True
      then have "reading Session (ss_reader t) rest" "rd_need (ss_reader t) > 0" "ss_reading t" ok
          "rd_messages (ss_reader t) = rd_messages (ss_reader s) @ ms"
        using t(2) unfolding F by (auto simp: read_until_def reads_as_def session_active_def split: if_splits)
      then show ?thesis
        using Cons.IH [OF conjunct1 [OF w] k t(1) _ _ _ fin, of rest] heard_more G unfolding e by (simp add: F')
    next
      case False
      have c: "\<not> session_active s' \<and> rd_messages (ss_reader s') = rd_messages (ss_reader t)"
        by (rule closed_stays [OF conjunct1 [OF w] k t(1) False fin])
      show ?thesis
        using closed_heard [OF t(2) False conjunct1 [OF c] conjunct2 [OF c], of "p @ bs" "arrived (session_events k es)"] G
        unfolding e F by (cases ok) simp_all
    qed
  next
    case error
    then have e: "session_events k (e # es) = Read_error # session_events k es" by simp
    let ?t = "session_close now (s\<lparr>ss_reading := False\<rparr>)"
    have t: "session_at (server_step sv e) k = Some ?t"
      using error Cons.prems(3,6) by (simp add: server_read_failed_def read_done_def handler_defs)
    have "\<not> session_active s' \<and> rd_messages (ss_reader s') = rd_messages (ss_reader ?t)"
      by (rule closed_stays [OF _ _ t]) (use w Cons.prems(2,7) in \<open>simp_all add: session_close_def session_active_def\<close>)
    then show ?thesis unfolding e using reading_frames [OF Cons.prems(4,5)] by (simp add: heard_def session_close_def)
  qed
qed

text \<open>Only \<open>remove_session_if\<close> takes a session out of the list.\<close>

lemma session_kept:
  "session_at sv k \<noteq> None \<Longrightarrow> \<forall>(pad, now, e) \<in> set es. \<forall>timeout. e \<noteq> Remove_expired timeout \<Longrightarrow>
    session_at (foldl server_step sv es) k \<noteq> None"
proof (induction es arbitrary: sv)
  case (Cons e es)
  have at: "session_at sv k \<noteq> None \<longleftrightarrow> k \<in> set (fst (session_keys sv))" for sv
    unfolding session_at_def session_keys_def by (simp add: map_of_eq_None_iff flip: not_None_eq)
  have same: "session_keys sv' = session_keys sv \<Longrightarrow> session_at sv' k \<noteq> None" for sv'
    using Cons.prems(1) unfolding at by simp
  have "session_at (server_step sv e) k \<noteq> None"
  proof (cases "(sv, e)" rule: server_step.cases)
    case (5 sv' pad now error)
    have "session_keys (handle_accept now True sv) = (map fst (sv_sessions sv), sv_next sv + 1)"
      by (simp add: handle_accept_def Let_def) (simp add: session_keys_def)
    then have "set (fst (session_keys sv)) \<subseteq> set (fst (session_keys (handle_accept now error sv)))"
      by (cases error) (auto simp: accept_session session_keys_def)
    then show ?thesis using 5 Cons.prems(1) unfolding at by auto
  next
    case (11 sv' pad now sec)
    then show ?thesis using same main_same by simp
  qed (use Cons.prems in \<open>auto intro!: same simp: server_read_failed_def server_written_def simp del: not_None_eq split: option.split\<close>)
  then show ?case using Cons.IH Cons.prems(2) by simp
qed simp

lemma reached_wf: "sessions_wf (foldl server_step (p2p_server_new none) es)"
proof -
  have "sessions_wf sv \<Longrightarrow> sessions_wf (foldl server_step sv es)" for sv
    by (induction es arbitrary: sv) (simp_all add: step_wf)
  then show ?thesis by (simp add: sessions_wf_def p2p_server_new_def)
qed

lemma accepted_at:
  assumes "sessions_wf sv"
  shows "session_at (handle_accept now False sv) (sv_next sv) = Some (new_session\<lparr>ss_reader := session_start, ss_reading := True\<rparr>)"
proof -
  have "map_of (sv_sessions sv) (sv_next sv) = None"
    using assms by (auto simp: sessions_wf_def map_of_eq_None_iff)
  then show ?thesis by (simp add: accept_session session_at_def map_add_def)
qed


subsection \<open>Pings and pongs\<close>

lemma length_header_bytes: "length (header_bytes (fst (message_make S b))) = header_size"
  by (simp add: header_bytes_def message_make_def message_header_make_def length_le_split header_size_14)

lemma header_of_made: "header_of (header_bytes (fst (message_make S b)) @ xs) = fst (message_make S b)"
  by (rule header_of_wire) (simp add: message_make_def message_header_make_def)

lemma ping_object_framed: "well_framed (ping_object q i)"
proof -
  have "well_framed (header_bytes (fst (message_make 0 (message_ping i))) @ [fst q, snd q] @ le_split 8 i)"
    by (rule typed_well_framed [OF message_make_typed])
      (simp_all add: message_make_def message_header_make_def body_sizeof_def layout_simps header_size_14 length_le_split)
  then show ?thesis by (simp add: ping_object_def id_object_def)
qed

lemma starts_with: "take (length m) row = m \<Longrightarrow> \<exists>zs. row = m @ zs"
  by (metis append_take_drop_id)

lemma ping_object_id: "take (length (ping_object q i)) row = ping_object q i \<Longrightarrow> object_id row = i"
proof -
  assume r: "take (length (ping_object q i)) row = ping_object q i"
  have p: "ping_object q i = header_bytes (fst (message_make 0 (message_ping i))) @ [fst q, snd q] @ le_split 8 i"
    by (simp add: ping_object_def id_object_def)
  have l: "length (header_bytes (fst (message_make 0 (message_ping i)))) = 14"
    using length_header_bytes [of 0 "message_ping i"] by (simp add: header_size_14)
  obtain zs where "row = ping_object q i @ zs" using starts_with [OF r] by blast
  then have z: "row = header_bytes (fst (message_make 0 (message_ping i))) @ fst q # snd q # le_split 8 i @ zs"
    unfolding p by simp
  show ?thesis unfolding object_id_def z by (simp add: l length_le_split le_join_split)
qed

lemma ping_handled:
  assumes "take (length (ping_object q i)) row = ping_object q i"
  shows "on_message pad now k row sv = sendto sv k (pong_object pad i)"
proof -
  have "header_of row = header_of (ping_object q i)"
    by (rule well_framed_header [OF ping_object_framed assms])
  also have "\<dots> = fst (message_make 0 (message_ping i))"
    unfolding ping_object_def id_object_def by (rule header_of_made)
  finally have "msgid (header_of row) = id_of ''message_ping_id''"
    by (simp add: message_make_def message_header_make_def body_id_def)
  then show ?thesis using ping_object_id [OF assms] by (simp add: on_message_def on_ping_def Let_def)
qed

text \<open>Each ping in turn is answered through the ring of writes.\<close>

definition answered :: "u8 \<times> u8 \<Rightarrow> session \<Rightarrow> u64 list \<Rightarrow> session" where
  "answered pad w ids = foldl (\<lambda>w i. fst (session_write (write_count Session) max_message_length w (Some (pong_object pad i)))) w ids"

abbreviation pings :: "((u8 \<times> u8) \<times> u64) list \<Rightarrow> u8 list list" where
  "pings qs \<equiv> map (\<lambda>(q, i). ping_object q i) qs"

lemma receive_pings:
  "session_at sv k = Some s \<Longrightarrow> reading Session (ss_reader s) p \<Longrightarrow> ss_reading s \<Longrightarrow> frames (p @ bs) = (pings qs, rest, True) \<Longrightarrow>
    \<exists>s'. session_at (server_receive pad now k bs sv) k = Some s' \<and> reading Session (ss_reader s') rest \<and>
      rd_need (ss_reader s') > 0 \<and> ss_reading s' \<and> ss_writer s' = answered pad (ss_writer s) (map snd qs)"
proof (induction qs arbitrary: sv s p bs)
  case Nil
  have "no_message (server_receive pad now k bs sv) k s (p @ bs)"
    using receive_message [OF Nil(1-3), of pad now bs] Nil(4) frames_first by fastforce
  then show ?case using Nil(4) by (auto simp: no_message_def reads_as_def answered_def)
next
  case (Cons qi qs)
  have "\<not> no_message (server_receive pad now k bs sv) k s (p @ bs)" using Cons(5) by (simp add: no_message_def)
  then obtain m bs' r row where m: "p @ bs = m @ bs'" "well_framed m" "take (length m) row = m" "reading Session r []"
      "server_receive pad now k bs sv =
         server_receive pad now k bs' (on_message pad now k row (put_session sv k (s\<lparr>ss_reader := r\<rparr>)))"
    using receive_message [OF Cons(2-4), of pad now bs] by blast
  obtain q i where qi: "qi = (q, i)" by (cases qi)
  have e: "(m # fst (frames bs'), snd (frames bs')) = (ping_object q i # pings qs, rest, True)"
    using Cons(5) unfolding m(1) frames_first [OF m(2)] qi by simp
  then have f: "frames ([] @ bs') = (pings qs, rest, True)" by (cases "frames bs'") simp
  have "m = ping_object q i" using e by simp
  then have h: "on_message pad now k row (put_session sv k (s\<lparr>ss_reader := r\<rparr>)) =
      sendto (put_session sv k (s\<lparr>ss_reader := r\<rparr>)) k (pong_object pad i)"
    using ping_handled m(3) by simp
  let ?t = "s\<lparr>ss_reader := r, ss_writer := fst (session_write (write_count Session) max_message_length (ss_writer s) (Some (pong_object pad i)))\<rparr>"
  have "session_at (sendto (put_session sv k (s\<lparr>ss_reader := r\<rparr>)) k (pong_object pad i)) k = Some ?t"
    using Cons(2) by simp
  then show ?case
    using Cons(1) [of "sendto (put_session sv k (s\<lparr>ss_reader := r\<rparr>)) k (pong_object pad i)" ?t "[]" bs'] m(4) Cons(4) f
    unfolding m(5) h by (simp add: answered_def qi)
qed

lemma frames_split:
  assumes "frames (xs @ ys) = (ms, rest, True)"
  obtains ms1 r ms2 where "frames xs = (ms1, r, True)" "frames (r @ ys) = (ms2, rest, True)" "ms = ms1 @ ms2"
proof -
  obtain ms1 r ok where x: "frames xs = (ms1, r, ok)" by (cases "frames xs")
  obtain ms2 r2 ok2 where y: "frames (r @ ys) = (ms2, r2, ok2)" by (cases "frames (r @ ys)")
  have "frames (xs @ ys) = (if ok then (ms1 @ ms2, r2, ok2) else (ms1, r @ ys, False))"
    using frames_append [of xs ys] by (simp add: x y)
  then show thesis using that [of ms1 r ms2] assms x y by (cases ok) simp_all
qed

lemma chunks_of_pings:
  "session_at sv k = Some s \<Longrightarrow> reading Session (ss_reader s) p \<Longrightarrow> rd_need (ss_reader s) > 0 \<Longrightarrow> ss_reading s \<Longrightarrow>
    frames (p @ concat (map snd cs)) = (pings qs, rest, True) \<Longrightarrow>
    \<exists>s'. session_at (foldl server_step sv (map (\<lambda>(now, bs). (pad, now, Arrived k bs)) cs)) k = Some s' \<and>
      session_active s' \<and> ss_writer s' = answered pad (ss_writer s) (map snd qs)"
proof (induction cs arbitrary: sv s p qs)
  case Nil
  then show ?case using reading_frames [OF Nil(2,3)] by (simp add: answered_def session_active_def reading_def)
next
  case (Cons c cs)
  obtain now bs where c: "c = (now, bs)" by (cases c)
  have "frames ((p @ bs) @ concat (map snd cs)) = (pings qs, rest, True)" using Cons(6) c by simp
  then obtain ms1 r ms2 where f: "frames (p @ bs) = (ms1, r, True)" "frames (r @ concat (map snd cs)) = (ms2, rest, True)"
      "pings qs = ms1 @ ms2"
    by (rule frames_split)
  obtain qs1 qs2 where q: "qs = qs1 @ qs2" "ms1 = pings qs1" "ms2 = pings qs2"
    using f(3) by (auto simp: map_eq_append_conv)
  obtain t where t: "session_at (server_receive pad now k bs sv) k = Some t" "reading Session (ss_reader t) r"
      "rd_need (ss_reader t) > 0" "ss_reading t" "ss_writer t = answered pad (ss_writer s) (map snd qs1)"
    using receive_pings [OF Cons(2,3,5) f(1) [unfolded q(2)], of pad now] by blast
  show ?case
    using Cons(1) [OF t(1-4) f(2) [unfolded q(3)]] unfolding t(5) by (simp add: c q(1) answered_def)
qed

lemma pongs_sent:
  assumes "length ids \<le> 16"
  shows "session_run (write_count Session) max_message_length
      (answered pad (session_init (write_count Session) max_message_length) ids) (replicate (length ids) Complete) =
    map (pong_object pad) ids"
proof -
  let ?C = "write_count Session" and ?L = max_message_length
  let ?es = "map (\<lambda>i. Write (Some (pong_object pad i))) ids @ replicate (length ids) Complete"
  have l: "length (pong_object pad i) \<le> ?L" for i
    using length_header_bytes [of 0 "message_pong i"]
    by (simp add: pong_object_def id_object_def length_le_split header_size_14 max_message_length_def)
  have run: "session_run ?C ?L (answered pad w ids) es = session_run ?C ?L w (map (\<lambda>i. Write (Some (pong_object pad i))) ids @ es)" for w es
    by (induction ids arbitrary: w) (simp_all add: answered_def)
  have fifo: "fifo_run ?L ms (map (\<lambda>i. Write (Some (pong_object pad i))) js @ es) = fifo_run ?L (ms @ map (pong_object pad) js) es" for ms js es
    using l by (induction js arbitrary: ms) (simp_all add: not_less [symmetric])
  have out: "fifo_run ?L ms (replicate (length ms) Complete) = ms" for ms by (induction ms) simp_all
  have tail: "within ?C ?L ms (replicate n Complete)" for ms n by (induction n arbitrary: ms) simp_all
  have "length ms + length js \<le> 16 \<Longrightarrow> within ?C ?L ms (map (\<lambda>i. Write (Some (pong_object pad i))) js @ replicate n Complete)" for ms js n
    using l tail by (induction js arbitrary: ms) (simp_all add: not_less [symmetric])
  then have "within ?C ?L [] ?es" using assms by simp
  then have "session_run ?C ?L (session_init ?C ?L) ?es = fifo_run ?L [] ?es"
    using session_run_fifo [OF _ _ ring_inv_init] by simp
  then show ?thesis unfolding run fifo using out [of "map (pong_object pad) ids"] by simp
qed

text \<open>
  C23. Pings are answered. If up to 16 pings reach a session that was just accepted, whatever their
  padding and however the network cuts them, the session stays open, and its outstanding
  writes send one pong for each of them, with the same identifiers in the same order. (A
  17th ping while none of the writes has completed overruns the ring.)
\<close>

theorem pings_are_answered:
  assumes "sv = foldl server_step (p2p_server_new none) before"
    and "concat (map snd cs) = concat (map (\<lambda>(q, i). ping_object q i) qs)" "length qs \<le> 16"
  shows "\<exists>s. session_at (foldl server_step sv ((pad, start, Accepted False) # map (\<lambda>(now, bs). (pad, now, Arrived (sv_next sv) bs)) cs))
      (sv_next sv) = Some s \<and> session_active s \<and>
    session_run (write_count Session) max_message_length (ss_writer s) (replicate (length qs) Complete) =
      map (\<lambda>(q, i). pong_object pad i) qs"
proof -
  let ?s = "new_session\<lparr>ss_reader := session_start, ss_reading := True\<rparr>"
  have w: "sessions_wf sv" unfolding assms(1) by (rule reached_wf)
  have r: "reading Session (ss_reader ?s) []" "rd_need (ss_reader ?s) > 0"
    using reading_init [of Session] reader_start_messages [of Session] by (simp_all add: reader_start_def)
  have "frames (concat (pings qs)) = (pings qs, [], True)"
    by (rule frames_concat) (auto simp: ping_object_framed)
  then obtain s' where s': "session_at (foldl server_step (handle_accept start False sv)
        (map (\<lambda>(now, bs). (pad, now, Arrived (sv_next sv) bs)) cs)) (sv_next sv) = Some s'"
      "session_active s'" "ss_writer s' = answered pad (ss_writer ?s) (map snd qs)"
    using chunks_of_pings [OF accepted_at [OF w, of start] r, of cs qs "[]" pad] assms(2) by auto
  have "session_run (write_count Session) max_message_length (ss_writer s') (replicate (length qs) Complete) =
      map (pong_object pad) (map snd qs)"
    using pongs_sent [of "map snd qs" pad] assms(3) unfolding s'(3) by (simp add: new_session_def)
  then show ?thesis using s'(1,2) by (simp add: case_prod_beta comp_def)
qed

theorem pings_are_answered_witness:
  "\<exists>s. session_at (foldl server_step (p2p_server_new nobody) (((0, 0), 0, Accepted False) #
      map (\<lambda>(now, bs). ((0, 0), now, Arrived 0 bs)) [(1, ping_object (0, 0) 7 @ take 3 (ping_object (5, 0) 8)), (2, drop 3 (ping_object (5, 0) 8))]))
      0 = Some s \<and> session_active s \<and>
    session_run (write_count Session) max_message_length (ss_writer s) [Complete, Complete] = [pong_object (0, 0) 7, pong_object (0, 0) 8]"
  using pings_are_answered [where sv = "p2p_server_new nobody" and none = nobody and before = "[]" and pad = "(0, 0)" and start = 0 and
      cs = "[(1, ping_object (0, 0) 7 @ take 3 (ping_object (5, 0) 8)), (2, drop 3 (ping_object (5, 0) 8))]" and
      qs = "[((0, 0), 7), ((5, 0), 8)]"]
  by (simp add: p2p_server_new_def numeral_2_eq_2)


subsection \<open>Peers\<close>

lemma peer_notify_size_64: "peer_notify_size = 64"
  by (simp add: peer_notify_size_def layout_simps header_size_14 flip: numeral_2_eq_2)

definition notify_header :: message_header where
  "notify_header = message_header_make node_message_peer_notify_id (of_nat peer_notify_size)"

lemma length_notify_header: "length (header_bytes notify_header) = 14"
  by (simp add: notify_header_def header_bytes_def message_header_make_def length_le_split)

lemma header_of_notify: "header_of (header_bytes notify_header @ xs) = notify_header"
  by (rule header_of_wire) (simp add: notify_header_def message_header_make_def)

lemma notify_object_split:
  "peer_notify_object me = header_bytes notify_header @ copy_string 32 (map of_char (info_id me)) @
     copy_string 16 (map of_char (info_host me)) @ le_split 2 (info_port me)"
  by (simp add: peer_notify_object_def notify_header_def)

lemma notify_framed: "well_framed (peer_notify_object me)"
proof -
  have "length (peer_notify_object me) = 64"
    by (simp add: notify_object_split length_notify_header length_copy_string length_le_split)
  moreover have "header_of (peer_notify_object me) = notify_header"
    unfolding notify_object_split by (rule header_of_notify)
  ultimately show ?thesis
    by (simp add: well_framed_def notify_header_def message_header_make_def
        peer_notify_size_64 header_valid_def header_size_14 max_message_length_def word_le_nat_alt)
qed

lemma string_copied:
  assumes "length cs < n" "NUL \<notin> set cs"
  shows "string_at (copy_string n (map of_char cs) @ zs) = Some cs"
proof -
  have "copy_string n (map of_char cs) @ zs = map of_char cs @ 0 # (replicate (n - length cs - 1) 0 @ zs)"
    using assms(1) by (cases "n - length cs") (simp_all add: copy_string_def)
  moreover have "c_str cs = cs" using assms(2) unfolding c_str_def by (induction cs) auto
  ultimately show ?thesis by (simp add: string_at_chars)
qed

lemma notify_read:
  assumes "take (length (peer_notify_object me)) row = peer_notify_object me"
    and "length (info_id me) < 32" "NUL \<notin> set (info_id me)" "length (info_host me) < 16" "NUL \<notin> set (info_host me)"
  shows "notify_info row = Some me"
proof -
  obtain zs where z: "row = peer_notify_object me @ zs" using starts_with [OF assms(1)] by blast
  have "drop 14 row = copy_string 32 (map of_char (info_id me)) @
      (copy_string 16 (map of_char (info_host me)) @ le_split 2 (info_port me) @ zs)"
    unfolding z notify_object_split by (simp add: length_notify_header)
  moreover have "drop 46 row = copy_string 16 (map of_char (info_host me)) @ (le_split 2 (info_port me) @ zs)"
    unfolding z notify_object_split by (simp add: length_notify_header length_copy_string)
  moreover have "take 2 (drop 62 row) = le_split 2 (info_port me)"
    unfolding z notify_object_split by (simp add: length_notify_header length_copy_string length_le_split)
  ultimately show ?thesis
    using assms(2-5) by (simp add: notify_info_def string_copied le_join_split)
qed

lemma notify_handled:
  assumes "take (length (peer_notify_object me)) row = peer_notify_object me"
  shows "on_message pad now k row sv = on_peer_notify now k row sv"
proof -
  have "header_of row = header_of (peer_notify_object me)"
    by (rule well_framed_header [OF notify_framed assms])
  then have h: "msgid (header_of row) = node_message_peer_notify_id"
    unfolding notify_object_split header_of_notify by (simp add: notify_header_def message_header_make_def)
  have n: "node_message_peer_notify_id = 1001"
    by (simp add: node_message_peer_notify_id_def id_of_def message_ids_value)
  show ?thesis unfolding on_message_def h unfolding n by (simp add: id_of_values)
qed

text \<open>What a client sends first on a connection is who it is.\<close>

lemma client_introduces:
  assumes "peer_writer p = session_init (write_count Client) max_message_length"
  shows "snd (session_complete (peer_writer (peer_connect_done False me p))) = Some (peer_notify_object me)"
proof -
  let ?m = "peer_notify_object me"
  have "within (write_count Client) max_message_length [] [Write (Some ?m), Complete]" by simp
  then have "sent_by Client [Write (Some ?m), Complete] = fifo_run max_message_length [] [Write (Some ?m), Complete]"
    by (rule sent_by_fifo) (use notify_framed in auto)
  moreover have "length ?m \<le> max_message_length"
    by (simp add: notify_object_split length_notify_header length_copy_string length_le_split max_message_length_def)
  ultimately have "client_run (peer_writer p) [Write (Some ?m), Complete] = [?m]"
    by (simp add: sent_by_def assms)
  then show ?thesis
    by (auto simp: peer_connect_done_def on_connected_def split: prod.splits option.splits)
qed

lemma find_peer_map: "find_peer sv i = map_of (sv_peers sv) i"
proof -
  have "map_option snd (List.find (\<lambda>(k, q). i = k) xs) = map_of xs i" for xs by (induction xs) auto
  then show ?thesis by (simp add: find_peer_def)
qed

lemma find_peer_put: "find_peer sv i = Some q \<Longrightarrow> find_peer (put_peer sv i p) = (find_peer sv)(i \<mapsto> p)"
proof -
  have "map_of (map (\<lambda>(k, q). if k = i then (k, p) else (k, q)) xs) j = (if j = i \<and> map_of xs i \<noteq> None then Some p else map_of xs j)" for xs j
    by (induction xs) auto
  then show "find_peer sv i = Some q \<Longrightarrow> ?thesis" by (simp add: find_peer_map put_peer_def fun_eq_iff)
qed

lemma info_eq_iff: "info_eq a b \<longleftrightarrow> a = b"
  by (auto simp: info_eq_def)

lemma receive_nothing:
  "session_at sv k = Some s \<Longrightarrow> \<not> session_active s \<or> rd_need (ss_reader s) > 0 \<Longrightarrow> server_receive pad now k [] sv = sv"
  by (auto simp: server_receive.simps session_active_def)

lemma find_peer_sessions [simp]:
  "find_peer (put_session sv k s) i = find_peer sv i"
  "find_peer (server_close_session now sv k) i = find_peer sv i"
  by (simp_all add: find_peer_def put_session_def server_close_session_def Let_def split: option.split)

text \<open>A notification that arrives on a new connection reaches its handler.\<close>

lemma notify_arrives:
  assumes "sessions_wf sv"
  obtains rd row where "take (length (peer_notify_object me)) row = peer_notify_object me" "rd_active rd" "rd_need rd > 0"
    "foldl server_step sv [(pad, start, Accepted False), (pad, now, Arrived (sv_next sv) (peer_notify_object me))] =
       server_receive pad now (sv_next sv) [] (on_peer_notify now (sv_next sv) row
         (put_session (handle_accept start False sv) (sv_next sv) (new_session\<lparr>ss_reading := True, ss_reader := rd\<rparr>)))"
proof -
  let ?s = "new_session\<lparr>ss_reader := session_start, ss_reading := True\<rparr>" and ?sv = "handle_accept start False sv"
  let ?k = "sv_next sv" and ?m = "peer_notify_object me"
  have at: "session_at ?sv ?k = Some ?s" by (rule accepted_at [OF assms])
  have r: "reading Session (ss_reader ?s) []" using reading_init [of Session] by (simp add: reader_start_def)
  have f: "fst (frames ?m) = [?m]" using frames_first [OF notify_framed, of me "[]"] by (simp add: frames_short header_size_14)
  then have "\<not> no_message (server_receive pad now ?k ?m ?sv) ?k ?s ([] @ ?m)" by (simp add: no_message_def)
  then obtain m bs rd row where m: "[] @ ?m = m @ bs" "well_framed m" "take (length m) row = m" "reading Session rd []"
      "server_receive pad now ?k ?m ?sv =
         server_receive pad now ?k bs (on_message pad now ?k row (put_session ?sv ?k (?s\<lparr>ss_reader := rd\<rparr>)))"
    using receive_message [OF at r, of pad now ?m] by fastforce
  have "m = ?m \<and> bs = []" using f frames_first [OF m(2), of bs] m(1) by simp
  moreover have "rd_active rd" "rd_need rd > 0" using m(4) by (auto simp: reading_def header_size_14 split: if_splits)
  ultimately show thesis using that [of row rd] m(3,5) by (simp add: notify_handled)
qed

lemma closed_now:
  assumes "session_at sv k = Some s"
  shows "\<exists>s'. session_at (server_receive pad now k [] (server_close_session now sv k)) k = Some s' \<and> \<not> session_active s'"
    and "find_peer (server_receive pad now k [] (server_close_session now sv k)) = find_peer sv"
proof -
  have at: "session_at (server_close_session now sv k) k = Some (session_close now s)" using assms by simp
  have c: "\<not> session_active (session_close now s)" by (simp add: session_close_def session_active_def)
  have e: "server_receive pad now k [] (server_close_session now sv k) = server_close_session now sv k"
    using receive_nothing [OF at] c by simp
  show "\<exists>s'. session_at (server_receive pad now k [] (server_close_session now sv k)) k = Some s' \<and> \<not> session_active s'"
    unfolding e using at c by blast
  show "find_peer (server_receive pad now k [] (server_close_session now sv k)) = find_peer sv"
    unfolding e by (simp add: fun_eq_iff)
qed



end
