(* ===== verification/Byte_Stream.thy ===== *)
theory Byte_Stream
  imports Bcp_Prelude
begin

text \<open>
  The growing byte buffer of the p2p prototype (tests/dev/p2p_server/byte_stream.cpp). The
  buffer is one byte longer than its size; what \<open>new\<close> leaves in it is a parameter. A copy
  outside the buffer is \<open>None\<close>. Positions are natural numbers: buffer and data lie in the
  same memory, so their sums fit \<open>size_t\<close>. Locks are left out.
\<close>

subsection \<open>The buffer\<close>

record byte_stream =
  stream_buffer :: "u8 list option"
  buffer_size :: nat
  read_at :: nat
  write_at :: nat

definition fresh :: "(nat \<Rightarrow> u8) \<Rightarrow> nat \<Rightarrow> u8 list" where
  "fresh garbage n = map garbage [0..<n]"

definition copy_to :: "u8 list option \<Rightarrow> nat \<Rightarrow> u8 list \<Rightarrow> u8 list option option" where
  "copy_to buf pos data =
     (if data = [] then Some buf
      else case buf of
             None \<Rightarrow> None
           | Some b \<Rightarrow> if pos + length data \<le> length b
                       then Some (Some (take pos b @ data @ drop (pos + length data) b)) else None)"

definition copy_from :: "u8 list option \<Rightarrow> nat \<Rightarrow> nat \<Rightarrow> u8 list option" where
  "copy_from buf pos n =
     (if n = 0 then Some []
      else case buf of
             None \<Rightarrow> None
           | Some b \<Rightarrow> if pos + n \<le> length b then Some (take n (drop pos b)) else None)"

definition stream_cleanup :: byte_stream where
  "stream_cleanup = \<lparr>stream_buffer = None, buffer_size = 0, read_at = 0, write_at = 0\<rparr>"

definition stream_allocated :: "byte_stream \<Rightarrow> bool" where
  "stream_allocated s \<longleftrightarrow> stream_buffer s \<noteq> None \<and> buffer_size s > 0"

definition stream_length :: "byte_stream \<Rightarrow> nat" where
  "stream_length s = (if write_at s > read_at s then write_at s - read_at s else 0)"

definition stream_prepare :: "(nat \<Rightarrow> u8) \<Rightarrow> nat \<Rightarrow> byte_stream" where
  "stream_prepare garbage n =
     (let s = stream_cleanup
      in if n > 0 then s\<lparr>stream_buffer := Some (fresh garbage (n + 1)), buffer_size := n\<rparr> else s)"

definition stream_resize :: "(nat \<Rightarrow> u8) \<Rightarrow> byte_stream \<Rightarrow> nat \<Rightarrow> byte_stream option" where
  "stream_resize garbage s n =
     (if n = 0 \<or> buffer_size s = n then Some s
      else if stream_allocated s then
        (let new_buffer = fresh garbage (n + 1);
             len = stream_length s;
             copy_len = (if len > 0 then min len n else 0)
         in case copy_from (stream_buffer s) (read_at s) copy_len of
              None \<Rightarrow> None
            | Some data \<Rightarrow>
                (case copy_to (Some new_buffer) 0 data of
                   None \<Rightarrow> None
                 | Some buf \<Rightarrow> Some \<lparr>stream_buffer = buf, buffer_size = n, read_at = 0, write_at = copy_len\<rparr>))
      else Some (stream_prepare garbage n))"

definition stream_clear :: "byte_stream \<Rightarrow> byte_stream" where
  "stream_clear s = s\<lparr>read_at := 0, write_at := 0\<rparr>"

definition free_space :: "byte_stream \<Rightarrow> nat" where
  "free_space s = buffer_size s - write_at s"

definition stream_peek :: "byte_stream \<Rightarrow> nat \<times> nat" where
  "stream_peek s = (read_at s, stream_length s)"

definition write_commit :: "byte_stream \<Rightarrow> nat \<Rightarrow> byte_stream" where
  "write_commit s n = s\<lparr>write_at := write_at s + n\<rparr>"

definition read_commit :: "byte_stream \<Rightarrow> nat \<Rightarrow> byte_stream" where
  "read_commit s n =
     (let s = s\<lparr>read_at := read_at s + n\<rparr>
      in if read_at s * 2 > buffer_size s \<and> stream_length s = 0 then stream_clear s else s)"

definition stream_write :: "(nat \<Rightarrow> u8) \<Rightarrow> byte_stream \<Rightarrow> u8 list \<Rightarrow> byte_stream option" where
  "stream_write garbage s data =
     (case (if write_at s + length data > buffer_size s
            then stream_resize garbage s (write_at s + length data + 1) else Some s) of
        None \<Rightarrow> None
      | Some s \<Rightarrow>
          (case copy_to (stream_buffer s) (write_at s) data of
             None \<Rightarrow> None
           | Some buf \<Rightarrow> Some (write_commit (s\<lparr>stream_buffer := buf\<rparr>) (length data))))"

text \<open>The bytes copied to the caller and the new stream.\<close>

definition stream_read :: "byte_stream \<Rightarrow> nat \<Rightarrow> (u8 list \<times> byte_stream) option" where
  "stream_read s n =
     (if stream_length s = 0 then Some ([], s)
      else let copy_len = min (stream_length s) n
           in case copy_from (stream_buffer s) (read_at s) copy_len of
                None \<Rightarrow> None
              | Some data \<Rightarrow> Some (data, read_commit s copy_len))"

text \<open>The operators: an \<open>int\<close> has four bytes; what a read does not fill keeps its old value.\<close>

definition put_int :: "(nat \<Rightarrow> u8) \<Rightarrow> byte_stream \<Rightarrow> u32 \<Rightarrow> byte_stream option" where
  "put_int garbage s value = stream_write garbage s (le_split 4 value)"

definition put_string :: "(nat \<Rightarrow> u8) \<Rightarrow> byte_stream \<Rightarrow> string \<Rightarrow> byte_stream option" where
  "put_string garbage s value = stream_write garbage s (map of_char value)"

definition get_int :: "byte_stream \<Rightarrow> u32 \<Rightarrow> (u32 \<times> byte_stream) option" where
  "get_int s value =
     (case stream_read s 4 of
        None \<Rightarrow> None
      | Some (data, s) \<Rightarrow> Some (le_join (data @ drop (length data) (le_split 4 value)), s))"

datatype stream_op = Put "u8 list" | Get nat | Skip nat | Resize nat | Clear | Prepare nat

fun stream_step :: "(nat \<Rightarrow> u8) \<Rightarrow> byte_stream \<Rightarrow> stream_op \<Rightarrow> (u8 list \<times> byte_stream) option" where
  "stream_step g s (Put data) = map_option (Pair []) (stream_write g s data)"
| "stream_step g s (Get n) = stream_read s n"
| "stream_step g s (Skip n) = Some ([], read_commit s n)"
| "stream_step g s (Resize n) = map_option (Pair []) (stream_resize g s n)"
| "stream_step g s Clear = Some ([], stream_clear s)"
| "stream_step g s (Prepare n) = Some ([], stream_prepare g n)"

fun stream_run :: "(nat \<Rightarrow> u8) \<Rightarrow> byte_stream \<Rightarrow> stream_op list \<Rightarrow> (u8 list list \<times> byte_stream) option" where
  "stream_run g s [] = Some ([], s)"
| "stream_run g s (p # ps) =
     (case stream_step g s p of
        None \<Rightarrow> None
      | Some (out, s) \<Rightarrow> map_option (apfst ((#) out)) (stream_run g s ps))"

subsection \<open>The queue it should be\<close>

fun queue_step :: "u8 list \<Rightarrow> stream_op \<Rightarrow> u8 list \<times> u8 list" where
  "queue_step q (Put data) = ([], q @ data)"
| "queue_step q (Get n) = (take n q, drop n q)"
| "queue_step q (Skip n) = ([], drop n q)"
| "queue_step q (Resize n) = ([], if n = 0 then q else take n q)"
| "queue_step q Clear = ([], [])"
| "queue_step q (Prepare n) = ([], [])"

fun queue_run :: "u8 list \<Rightarrow> stream_op list \<Rightarrow> u8 list list \<times> u8 list" where
  "queue_run q [] = ([], q)"
| "queue_run q (p # ps) = (let (out, q) = queue_step q p; (outs, q) = queue_run q ps in (out # outs, q))"

text \<open>The caller of \<open>read_commit\<close> must not skip more than there is.\<close>

fun skips_within :: "u8 list \<Rightarrow> stream_op list \<Rightarrow> bool" where
  "skips_within q [] \<longleftrightarrow> True"
| "skips_within q (p # ps) \<longleftrightarrow>
     (case p of Skip n \<Rightarrow> n \<le> length q | _ \<Rightarrow> True) \<and> skips_within (snd (queue_step q p)) ps"

subsection \<open>Simulation\<close>

definition holds_queue :: "byte_stream \<Rightarrow> u8 list \<Rightarrow> bool" where
  "holds_queue s q \<longleftrightarrow>
     read_at s \<le> write_at s \<and> write_at s \<le> buffer_size s \<and>
     (case stream_buffer s of
        None \<Rightarrow> buffer_size s = 0 \<and> q = []
      | Some b \<Rightarrow> buffer_size s > 0 \<and> length b = buffer_size s + 1 \<and>
                  q = take (write_at s - read_at s) (drop (read_at s) b))"

lemma holds_length: "holds_queue s q \<Longrightarrow> stream_length s = length q"
  by (auto simp: holds_queue_def stream_length_def split: option.splits)

lemma holds_clear: "holds_queue s q \<Longrightarrow> holds_queue (stream_clear s) []"
  by (auto simp: holds_queue_def stream_clear_def split: option.splits)

lemma holds_prepare: "holds_queue (stream_prepare g n) []"
  by (simp add: holds_queue_def stream_prepare_def stream_cleanup_def fresh_def Let_def)

lemma holds_commit:
  assumes h: "holds_queue s q" and n: "n \<le> length q"
  shows "holds_queue (read_commit s n) (drop n q)"
proof -
  let ?s = "s\<lparr>read_at := read_at s + n\<rparr>"
  have s: "holds_queue ?s (drop n q)"
    using h n by (auto simp: holds_queue_def drop_take add.commute split: option.splits)
  show ?thesis
  proof (cases "stream_length ?s = 0")
    case True
    then have "drop n q = []" using holds_length [OF s] by simp
    then show ?thesis using s holds_clear [OF s] by (simp add: read_commit_def Let_def)
  next
    case False
    then show ?thesis using s by (simp add: read_commit_def)
  qed
qed

lemma holds_copy:
  assumes "holds_queue s q" "n \<le> length q"
  shows "copy_from (stream_buffer s) (read_at s) n = Some (take n q)"
proof (cases "stream_buffer s")
  case None
  then show ?thesis using assms by (simp add: copy_from_def holds_queue_def)
next
  case (Some b)
  then have b: "length b = buffer_size s + 1" "q = take (write_at s - read_at s) (drop (read_at s) b)"
      "read_at s \<le> write_at s" "write_at s \<le> buffer_size s"
    using assms(1) by (simp_all add: holds_queue_def)
  then have "length q = write_at s - read_at s" by simp
  then show ?thesis using assms(2) b Some by (simp add: copy_from_def take_take min.absorb1)
qed

lemma holds_read:
  assumes "holds_queue s q"
  shows "\<exists>s'. stream_read s n = Some (take n q, s') \<and> holds_queue s' (drop n q)"
proof (cases "q = []")
  case True
  then show ?thesis using assms holds_length [OF assms] by (simp add: stream_read_def)
next
  case False
  let ?k = "min (length q) n"
  have "copy_from (stream_buffer s) (read_at s) ?k = Some (take n q)"
    using holds_copy [OF assms, of ?k] by (cases "length q \<le> n") simp_all
  moreover have "holds_queue (read_commit s ?k) (drop n q)"
    using holds_commit [OF assms, of ?k] by (cases "length q \<le> n") simp_all
  ultimately show ?thesis using False holds_length [OF assms] by (simp add: stream_read_def)
qed

lemma holds_resize:
  assumes h: "holds_queue s q"
  shows "\<exists>s'. stream_resize g s n = Some s' \<and> holds_queue s' (if n = 0 then q else take n q) \<and>
    (n > 0 \<longrightarrow> buffer_size s' = n \<and> (n \<noteq> buffer_size s \<longrightarrow> write_at s' = min (length q) n))"
proof -
  note l = holds_length [OF h]
  have q: "length q \<le> buffer_size s" using h l by (simp add: holds_queue_def stream_length_def split: if_splits)
  consider "n = 0 \<or> buffer_size s = n" | (new) "n \<noteq> 0" "buffer_size s \<noteq> n" "\<not> stream_allocated s"
    | (copy) "n \<noteq> 0" "buffer_size s \<noteq> n" "stream_allocated s" by blast
  then show ?thesis
  proof cases
    case 1
    then show ?thesis using h q by (auto simp: stream_resize_def)
  next
    case new
    then have "q = []" using h by (auto simp: holds_queue_def stream_allocated_def split: option.splits)
    then show ?thesis
      using new holds_prepare [of g n] by (simp add: stream_resize_def stream_prepare_def Let_def stream_cleanup_def)
  next
    case copy
    let ?k = "if length q > 0 then min (length q) n else 0"
    have k: "copy_from (stream_buffer s) (read_at s) ?k = Some (take n q)"
      using holds_copy [OF h, of ?k] by (simp add: min_def split: if_splits)
    let ?b = "take n q @ drop (length (take n q)) (fresh g (n + 1))"
    have mn: "min (length q) n \<le> Suc n" by linarith
    have tk: "take (min (length q) n) q = take n q" by (simp add: min_def)
    have "copy_to (Some (fresh g (n + 1))) 0 (take n q) = Some (Some ?b)"
      using mn by (simp add: copy_to_def fresh_def)
    then have "stream_resize g s n = Some \<lparr>stream_buffer = Some ?b, buffer_size = n, read_at = 0, write_at = ?k\<rparr>"
      using copy k by (simp add: stream_resize_def l Let_def)
    moreover have "?k = length (take n q)" by simp
    ultimately show ?thesis
      using copy tk by (simp add: holds_queue_def fresh_def)
  qed
qed

lemma holds_write:
  assumes h: "holds_queue s q"
  shows "\<exists>s'. stream_write g s data = Some s' \<and> holds_queue s' (q @ data)"
proof -
  let ?n = "write_at s + length data"
  obtain t where t: "(if ?n > buffer_size s then stream_resize g s (?n + 1) else Some s) = Some t"
    and ht: "holds_queue t q" and room: "write_at t + length data \<le> buffer_size t"
  proof (cases "?n > buffer_size s")
    case True
    then obtain t where t: "stream_resize g s (?n + 1) = Some t" "holds_queue t (take (?n + 1) q)"
        "buffer_size t = ?n + 1" "write_at t = min (length q) (?n + 1)"
      using holds_resize [OF h, of g "?n + 1"] by auto
    have "length q \<le> write_at s" using h holds_length [OF h] by (simp add: holds_queue_def stream_length_def split: if_splits)
    then show ?thesis using True t that by simp
  next
    case False
    then show ?thesis using h that by simp
  qed
  have w: "stream_write g s data = (case copy_to (stream_buffer t) (write_at t) data of
      None \<Rightarrow> None | Some buf \<Rightarrow> Some (write_commit (t\<lparr>stream_buffer := buf\<rparr>) (length data)))"
    unfolding stream_write_def t by simp
  show ?thesis
  proof (cases "stream_buffer t")
    case None
    then have "data = []" using ht room by (simp add: holds_queue_def)
    then show ?thesis using w ht None by (simp add: copy_to_def write_commit_def holds_queue_def)
  next
    case (Some b)
    let ?b = "take (write_at t) b @ data @ drop (write_at t + length data) b"
    have b: "length b = buffer_size t + 1" "q = take (write_at t - read_at t) (drop (read_at t) b)"
        "read_at t \<le> write_at t" "write_at t \<le> buffer_size t" "buffer_size t > 0"
      using ht Some by (simp_all add: holds_queue_def)
    have c: "copy_to (Some b) (write_at t) data = Some (Some ?b)"
      using room b(1) by (simp add: copy_to_def)
    have "take (write_at t + length data - read_at t) (drop (read_at t) ?b) = q @ data"
      using b room by (simp add: drop_take)
    then show ?thesis
      using w c Some room b by (simp add: write_commit_def holds_queue_def)
  qed
qed

lemma stream_step_queue:
  assumes h: "holds_queue s q" and n: "case p of Skip n \<Rightarrow> n \<le> length q | _ \<Rightarrow> True"
  shows "\<exists>s'. stream_step g s p = Some (fst (queue_step q p), s') \<and> holds_queue s' (snd (queue_step q p))"
proof (cases p)
  case (Put data)
  then show ?thesis using holds_write [OF h, of g data] by auto
next
  case (Get n)
  then show ?thesis using holds_read [OF h, of n] by simp
next
  case (Skip k)
  then show ?thesis using holds_commit [OF h, of k] n by simp
next
  case (Resize n)
  then show ?thesis using holds_resize [OF h, of g n] by auto
next
  case Clear
  then show ?thesis using holds_clear [OF h] by simp
next
  case (Prepare n)
  then show ?thesis using holds_prepare by simp
qed

lemma stream_run_queue:
  "holds_queue s q \<Longrightarrow> skips_within q ps \<Longrightarrow>
    \<exists>s'. stream_run g s ps = Some (fst (queue_run q ps), s') \<and> holds_queue s' (snd (queue_run q ps))"
proof (induction ps arbitrary: s q)
  case (Cons p ps)
  obtain t where t: "stream_step g s p = Some (fst (queue_step q p), t)" "holds_queue t (snd (queue_step q p))"
    using stream_step_queue [OF Cons.prems(1), of p g] Cons.prems(2) by auto
  then show ?case using Cons.IH [OF t(2)] Cons.prems(2) by (auto split: prod.splits)
qed simp



text \<open>An integer written to an empty stream is read back.\<close>

lemma int_stream:
  assumes "holds_queue s []"
  shows "\<exists>t t'. put_int g s v = Some t \<and> get_int t w = Some (v, t') \<and> holds_queue t' []"
proof -
  obtain t where t: "put_int g s v = Some t" "holds_queue t (le_split 4 v)"
    using holds_write [OF assms, of g "le_split 4 v"] unfolding put_int_def by auto
  obtain t' where "stream_read t 4 = Some (take 4 (le_split 4 v), t')" "holds_queue t' (drop 4 (le_split 4 v))"
    using holds_read [OF t(2)] by blast
  then show ?thesis using t(1) by (auto simp: get_int_def length_le_split le_join_split)
qed

text \<open>
  The bound on skips is needed: \<open>read_commit\<close> does not check it, and after a skip past the end
  the next bytes written are never read.
\<close>

lemma skip_past_end:
  "map_option fst (stream_run (\<lambda>_. 0) stream_cleanup [Prepare 20, Put [1], Skip 3, Put [2], Get 1])
     = Some [[], [], [], [], []]"
  by code_simp

end
