(* ===== verification/App.thy ===== *)
theory App
  imports Bcp_Prelude "HOL-Library.Monad_Syntax"
begin

text \<open>
  The four programs (apps/*/main.cpp): command line, main loop and signals. Parsing the
  command line (boost) and loading the configuration file (app_config.hpp, no source) are
  parameters that may throw. What a run does is the list of its actions; the environment
  is, for every check of \<open>keepGoing\<close>, the list of signals delivered before it.
\<close>

subsection \<open>Command line\<close>

datatype exn = Std_exception | Unknown_exception

text \<open>The members of \<open>app_config\<close> that the command line sets.\<close>

record app_config =
  node_id :: int
  max_node_limit :: nat
  config_file :: string
  client_cnt :: nat

definition max_node_count :: int where
  "max_node_count = 100"

text \<open>What \<open>store\<close> finds on the command line; an absent option is \<open>None\<close>.\<close>

record options =
  opt_node_id :: "int option"
  opt_node_limit :: "nat option"
  opt_config :: "string option"
  opt_client_count :: "nat option"
  opt_version :: bool
  opt_help :: bool

datatype program = Node_server | Bridge_server | Game_server | Game_client

text \<open>
  \<open>notify\<close> throws when the required \<open>node-id\<close> is missing and otherwise stores every value,
  given or default, where its option points. Only the client has \<open>client-count\<close>, only the
  node and the bridge server have \<open>node-limit\<close>.
\<close>

definition notify :: "program \<Rightarrow> options \<Rightarrow> app_config \<Rightarrow> exn + app_config" where
  "notify prog vm cfg =
     (case opt_node_id vm of
        None \<Rightarrow> Inl Std_exception
      | Some i \<Rightarrow>
          let cfg = cfg\<lparr>node_id := i\<rparr>;
              cfg = (case (prog, opt_node_limit vm) of
                       (Node_server, Some l) \<Rightarrow> cfg\<lparr>max_node_limit := l\<rparr>
                     | (Bridge_server, Some l) \<Rightarrow> cfg\<lparr>max_node_limit := l\<rparr>
                     | _ \<Rightarrow> cfg);
              cfg = cfg\<lparr>config_file :=
                      (case opt_config vm of Some f \<Rightarrow> f | None \<Rightarrow> ''bryllite.config.json'')\<rparr>;
              cfg = (case prog of
                       Game_client \<Rightarrow> cfg\<lparr>client_cnt := (case opt_client_count vm of Some n \<Rightarrow> n | None \<Rightarrow> 1)\<rparr>
                     | _ \<Rightarrow> cfg)
          in Inr cfg)"

definition caught :: "exn \<Rightarrow> int" where
  "caught e = (case e of Std_exception \<Rightarrow> - 100 | Unknown_exception \<Rightarrow> - 101)"

text \<open>The four \<open>process_options\<close>: the result and the configuration.\<close>

definition node_process_options ::
  "('a \<Rightarrow> exn + options) \<Rightarrow> (app_config \<Rightarrow> exn + bool \<times> app_config) \<Rightarrow> 'a \<Rightarrow> app_config \<Rightarrow> int \<times> app_config" where
  "node_process_options parse loadConfig argv cfg =
     (case parse argv of
        Inl e \<Rightarrow> (caught e, cfg)
      | Inr vm \<Rightarrow>
          (case notify Node_server vm cfg of
             Inl e \<Rightarrow> (caught e, cfg)
           | Inr cfg \<Rightarrow>
               if opt_help vm then (- 1, cfg)
               else if opt_version vm then (- 1, cfg)
               else if node_id cfg < 0 \<or> node_id cfg \<ge> max_node_count then (- 2, cfg)
               else (case loadConfig cfg of
                       Inl e \<Rightarrow> (caught e, cfg)
                     | Inr (ok, cfg) \<Rightarrow> if \<not> ok then (- 3, cfg) else (0, cfg))))"

definition bridge_process_options ::
  "('a \<Rightarrow> exn + options) \<Rightarrow> (app_config \<Rightarrow> exn + bool \<times> app_config) \<Rightarrow> 'a \<Rightarrow> app_config \<Rightarrow> int \<times> app_config" where
  "bridge_process_options parse loadConfig argv cfg =
     (case parse argv of
        Inl e \<Rightarrow> (caught e, cfg)
      | Inr vm \<Rightarrow>
          (case notify Bridge_server vm cfg of
             Inl e \<Rightarrow> (caught e, cfg)
           | Inr cfg \<Rightarrow>
               if opt_help vm then (- 1, cfg)
               else if opt_version vm then (- 1, cfg)
               else (case loadConfig cfg of
                       Inl e \<Rightarrow> (caught e, cfg)
                     | Inr (ok, cfg) \<Rightarrow> if \<not> ok then (- 2, cfg) else (0, cfg))))"

definition game_server_process_options ::
  "('a \<Rightarrow> exn + options) \<Rightarrow> (app_config \<Rightarrow> exn + bool \<times> app_config) \<Rightarrow> 'a \<Rightarrow> app_config \<Rightarrow> int \<times> app_config" where
  "game_server_process_options parse loadConfig argv cfg =
     (case parse argv of
        Inl e \<Rightarrow> (caught e, cfg)
      | Inr vm \<Rightarrow>
          (case notify Game_server vm cfg of
             Inl e \<Rightarrow> (caught e, cfg)
           | Inr cfg \<Rightarrow>
               if opt_help vm then (- 1, cfg)
               else if opt_version vm then (- 1, cfg)
               else (case loadConfig cfg of
                       Inl e \<Rightarrow> (caught e, cfg)
                     | Inr (ok, cfg) \<Rightarrow> if \<not> ok then (- 2, cfg) else (0, cfg))))"

definition game_client_process_options ::
  "('a \<Rightarrow> exn + options) \<Rightarrow> (app_config \<Rightarrow> exn + bool \<times> app_config) \<Rightarrow> 'a \<Rightarrow> app_config \<Rightarrow> int \<times> app_config" where
  "game_client_process_options parse loadConfig argv cfg =
     (case parse argv of
        Inl e \<Rightarrow> (caught e, cfg)
      | Inr vm \<Rightarrow>
          (case notify Game_client vm cfg of
             Inl e \<Rightarrow> (caught e, cfg)
           | Inr cfg \<Rightarrow>
               if opt_help vm then (- 1, cfg)
               else if opt_version vm then (- 1, cfg)
               else (case loadConfig cfg of
                       Inl e \<Rightarrow> (caught e, cfg)
                     | Inr (ok, cfg) \<Rightarrow> if \<not> ok then (- 2, cfg) else (0, cfg))))"

subsection \<open>Signals and the main loop\<close>

datatype action = Create_directories | Open_log | New_server | Start_server | Update | Stop_server | Delete_server
  | New_client nat | Start_client nat | Client_failed nat | Run_io | Client_main nat | Stop_io | Stop_client nat | Join_io

definition SIGINT :: int where
  "SIGINT = 2"

definition SIGKILL :: int where
  "SIGKILL = 9"

text \<open>The handler, with the flag it stores to.\<close>

definition on_signal :: "int \<Rightarrow> bool \<Rightarrow> bool" where
  "on_signal sig keepGoing = False"

definition sig_handler :: "int \<Rightarrow> bool \<Rightarrow> bool" where
  "sig_handler sig keepGoing = (if sig = SIGKILL \<or> sig = SIGINT then on_signal sig keepGoing else keepGoing)"

text \<open>
  \<open>while (keepGoing())\<close> with the given actions of one turn; \<open>None\<close> is a loop that runs for
  ever.
\<close>

partial_function (option) main_loop ::
  "(nat \<Rightarrow> int list) \<Rightarrow> action list \<Rightarrow> nat \<Rightarrow> bool \<Rightarrow> action list option" where
  "main_loop signals turn n keepGoing =
     (let keepGoing = fold sig_handler (signals n) keepGoing
      in if keepGoing
         then do { rest \<leftarrow> main_loop signals turn (n + 1) keepGoing; Some (turn @ rest) }
         else Some [])"

declare main_loop.simps [simp del]

definition node_main :: "(nat \<Rightarrow> int list) \<Rightarrow> action list option" where
  "node_main signals =
     do { loop \<leftarrow> main_loop signals [Update] 0 True;
          Some ([Create_directories, Open_log, Start_server] @ loop @ [Stop_server]) }"

definition bridge_main :: "(nat \<Rightarrow> int list) \<Rightarrow> action list option" where
  "bridge_main signals =
     do { loop \<leftarrow> main_loop signals [Update] 0 True;
          Some ([Create_directories, Open_log, New_server, Start_server] @ loop @ [Stop_server, Delete_server]) }"

definition game_server_main :: "(nat \<Rightarrow> int list) \<Rightarrow> action list option" where
  "game_server_main signals =
     do { loop \<leftarrow> main_loop signals [Update] 0 True;
          Some ([Create_directories, Open_log, New_server, Start_server] @ loop @ [Stop_server, Delete_server]) }"

text \<open>The client program: clients whose construction or start throws are logged and left out.\<close>

fun create_clients :: "(nat \<Rightarrow> bool) \<Rightarrow> nat list \<Rightarrow> action list \<times> nat list" where
  "create_clients fails [] = ([], [])"
| "create_clients fails (i # is) =
     (let (acts, clients) = create_clients fails is
      in if fails i then (Client_failed i # acts, clients)
         else (New_client i # Start_client i # acts, i # clients))"

definition game_client_loop :: "(nat \<Rightarrow> int list) \<Rightarrow> nat list \<Rightarrow> action list option" where
  "game_client_loop signals clients =
     do { loop \<leftarrow> main_loop signals (map Client_main clients) 0 True;
          Some (loop @ [Stop_io] @ map Stop_client clients @ [Join_io]) }"

definition game_client_main :: "(nat \<Rightarrow> int list) \<Rightarrow> (nat \<Rightarrow> bool) \<Rightarrow> nat \<Rightarrow> action list option" where
  "game_client_main signals fails client_count =
     (let (acts, clients) = create_clients fails [0..<client_count]
      in do { loop \<leftarrow> game_client_loop signals clients;
              Some ([Create_directories, Open_log] @ acts @ [Run_io] @ loop) })"

text \<open>
  The constructors and \<open>main\<close>: the actions of the run and the value \<open>main\<close> returns, which is
  not the exit code. The game server starts only on the result 0.
\<close>

definition node_ctor ::
  "('a \<Rightarrow> exn + options) \<Rightarrow> (app_config \<Rightarrow> exn + bool \<times> app_config) \<Rightarrow> 'a \<Rightarrow> app_config \<Rightarrow> (nat \<Rightarrow> int list) \<Rightarrow> action list option" where
  "node_ctor parse loadConfig argv cfg signals =
     (if fst (node_process_options parse loadConfig argv cfg) \<ge> 0 then node_main signals else Some [])"

definition node_app ::
  "('a \<Rightarrow> exn + options) \<Rightarrow> (app_config \<Rightarrow> exn + bool \<times> app_config) \<Rightarrow> 'a \<Rightarrow> app_config \<Rightarrow> (nat \<Rightarrow> int list) \<Rightarrow>
    (action list \<times> int) option" where
  "node_app parse loadConfig argv cfg signals =
     do { run \<leftarrow> node_ctor parse loadConfig argv cfg signals; Some (run, 0) }"

definition bridge_ctor ::
  "('a \<Rightarrow> exn + options) \<Rightarrow> (app_config \<Rightarrow> exn + bool \<times> app_config) \<Rightarrow> 'a \<Rightarrow> app_config \<Rightarrow> (nat \<Rightarrow> int list) \<Rightarrow> action list option" where
  "bridge_ctor parse loadConfig argv cfg signals =
     (if fst (bridge_process_options parse loadConfig argv cfg) \<ge> 0 then bridge_main signals else Some [])"

definition bridge_app ::
  "('a \<Rightarrow> exn + options) \<Rightarrow> (app_config \<Rightarrow> exn + bool \<times> app_config) \<Rightarrow> 'a \<Rightarrow> app_config \<Rightarrow> (nat \<Rightarrow> int list) \<Rightarrow>
    (action list \<times> int) option" where
  "bridge_app parse loadConfig argv cfg signals =
     do { run \<leftarrow> bridge_ctor parse loadConfig argv cfg signals; Some (run, 0) }"

definition game_server_ctor ::
  "('a \<Rightarrow> exn + options) \<Rightarrow> (app_config \<Rightarrow> exn + bool \<times> app_config) \<Rightarrow> 'a \<Rightarrow> app_config \<Rightarrow> (nat \<Rightarrow> int list) \<Rightarrow> action list option" where
  "game_server_ctor parse loadConfig argv cfg signals =
     (if 0 = fst (game_server_process_options parse loadConfig argv cfg) then game_server_main signals else Some [])"

definition game_server_app ::
  "('a \<Rightarrow> exn + options) \<Rightarrow> (app_config \<Rightarrow> exn + bool \<times> app_config) \<Rightarrow> 'a \<Rightarrow> app_config \<Rightarrow> (nat \<Rightarrow> int list) \<Rightarrow>
    (action list \<times> int) option" where
  "game_server_app parse loadConfig argv cfg signals =
     do { run \<leftarrow> game_server_ctor parse loadConfig argv cfg signals; Some (run, 0) }"

definition game_client_ctor ::
  "('a \<Rightarrow> exn + options) \<Rightarrow> (app_config \<Rightarrow> exn + bool \<times> app_config) \<Rightarrow> (nat \<Rightarrow> bool) \<Rightarrow> 'a \<Rightarrow> app_config \<Rightarrow> (nat \<Rightarrow> int list) \<Rightarrow> action list option" where
  "game_client_ctor parse loadConfig fails argv cfg signals =
     (case game_client_process_options parse loadConfig argv cfg of
        (r, cfg) \<Rightarrow> if r \<ge> 0 then game_client_main signals fails (client_cnt cfg) else Some [])"

definition game_client_app ::
  "('a \<Rightarrow> exn + options) \<Rightarrow> (app_config \<Rightarrow> exn + bool \<times> app_config) \<Rightarrow> (nat \<Rightarrow> bool) \<Rightarrow> 'a \<Rightarrow> app_config \<Rightarrow> (nat \<Rightarrow> int list) \<Rightarrow>
    (action list \<times> int) option" where
  "game_client_app parse loadConfig fails argv cfg signals =
     do { run \<leftarrow> game_client_ctor parse loadConfig fails argv cfg signals; Some (run, 0) }"

subsection \<open>When the loop ends\<close>

definition stops :: "int list \<Rightarrow> bool" where
  "stops sigs \<longleftrightarrow> SIGINT \<in> set sigs \<or> SIGKILL \<in> set sigs"

lemma fold_handler: "fold sig_handler sigs keepGoing \<longleftrightarrow> keepGoing \<and> \<not> stops sigs"
  by (induction sigs arbitrary: keepGoing) (auto simp: stops_def sig_handler_def on_signal_def)

lemma main_loop_stop: "stops (signals n) \<Longrightarrow> main_loop signals turn n True = Some []"
  by (simp add: main_loop.simps fold_handler)

lemma main_loop_turn:
  "\<not> stops (signals n) \<Longrightarrow> main_loop signals turn n True = map_option ((@) turn) (main_loop signals turn (Suc n) True)"
  by (simp add: main_loop.simps [of signals turn n] fold_handler map_option_case split: option.splits)

lemma main_loop_ends:
  "stops (signals (n + k)) \<Longrightarrow> \<forall>j < k. \<not> stops (signals (n + j)) \<Longrightarrow>
     main_loop signals turn n True = Some (concat (replicate k turn))"
proof (induction k arbitrary: n)
  case (Suc k)
  have "\<not> stops (signals n)" using Suc.prems(2) by force
  moreover have "main_loop signals turn (Suc n) True = Some (concat (replicate k turn))"
    using Suc.prems by (intro Suc.IH) (auto simp flip: add_Suc_right)
  ultimately show ?case by (simp add: main_loop_turn)
qed (simp add: main_loop_stop)

lemma main_loop_Some:
  assumes "main_loop signals turn n keepGoing = Some acts" keepGoing
  shows "\<exists>m \<ge> n. stops (signals m)"
proof -
  have "keepGoing \<longrightarrow> (\<exists>m \<ge> n. stops (signals m))"
  proof (rule main_loop.raw_induct [where P = "\<lambda>signals turn n keepGoing acts. keepGoing \<longrightarrow> (\<exists>m \<ge> n. stops (signals m))",
        OF _ assms(1)])
    fix loop :: "(nat \<Rightarrow> int list) \<Rightarrow> action list \<Rightarrow> nat \<Rightarrow> bool \<Rightarrow> action list option"
    fix signals turn n keepGoing acts
    assume ih: "\<And>signals turn n keepGoing acts. loop signals turn n keepGoing = Some acts \<Longrightarrow>
        keepGoing \<longrightarrow> (\<exists>m \<ge> n. stops (signals m))"
      and r: "(let keepGoing = fold sig_handler (signals n) keepGoing
        in if keepGoing then loop signals turn (n + 1) keepGoing \<bind> (\<lambda>rest. Some (turn @ rest)) else Some []) = Some acts"
    show "keepGoing \<longrightarrow> (\<exists>m \<ge> n. stops (signals m))"
    proof (cases "keepGoing \<and> \<not> stops (signals n)")
      case True
      then obtain rest where "loop signals turn (n + 1) True = Some rest"
        using r by (auto simp: fold_handler bind_eq_Some_conv)
      then obtain m where "m \<ge> n + 1" "stops (signals m)" using ih by blast
      then show ?thesis by (meson add_leD1)
    qed blast
  qed
  then show ?thesis using assms(2) by blast
qed

lemma main_loop_iff:
  "main_loop signals turn 0 True = Some acts \<longleftrightarrow>
     (\<exists>k. stops (signals k) \<and> (\<forall>j < k. \<not> stops (signals j)) \<and> acts = concat (replicate k turn))"
proof
  assume "main_loop signals turn 0 True = Some acts"
  then obtain m where "stops (signals m)" using main_loop_Some by blast
  then obtain k where k: "stops (signals k)" "\<forall>j < k. \<not> stops (signals j)"
    using exists_least_iff [of "\<lambda>k. stops (signals k)"] by blast
  then have "main_loop signals turn 0 True = Some (concat (replicate k turn))"
    using main_loop_ends [of signals 0 k turn] by simp
  then show "\<exists>k. stops (signals k) \<and> (\<forall>j < k. \<not> stops (signals j)) \<and> acts = concat (replicate k turn)"
    using k \<open>main_loop signals turn 0 True = Some acts\<close> by auto
next
  assume "\<exists>k. stops (signals k) \<and> (\<forall>j < k. \<not> stops (signals j)) \<and> acts = concat (replicate k turn)"
  then obtain k where "stops (signals k)" "\<forall>j < k. \<not> stops (signals j)" "acts = concat (replicate k turn)" by blast
  then show "main_loop signals turn 0 True = Some acts" using main_loop_ends [of signals 0 k turn] by simp
qed


lemmas process_options_defs = node_process_options_def bridge_process_options_def
  game_server_process_options_def game_client_process_options_def notify_def caught_def

lemma main_loop_update:
  "main_loop signals [Update] 0 True = Some acts \<longleftrightarrow>
     (\<exists>k. stops (signals k) \<and> (\<forall>j < k. \<not> stops (signals j)) \<and> acts = replicate k Update)"
proof -
  have "concat (replicate k [Update]) = replicate k Update" for k by (induction k) simp_all
  then show ?thesis by (simp add: main_loop_iff)
qed

lemma create_clients_started: "snd (create_clients fails is) = filter (\<lambda>i. \<not> fails i) is"
  by (induction "is") (auto simp: case_prod_beta)





end
