(* ===== verification/Chain.thy ===== *)
theory Chain
  imports Blob Std_Map "HOL-Library.List_Lexorder" "HOL-Library.Char_ord"
begin

text \<open>
  The block chain of the prototype node (tests/dev/node-server-mono/block_chain.cpp): blocks
  by index and balances by account. Of a block the chain reads its index, its transactions
  and its header hash, and of a transaction its value, its parties, whether it is a coinbase
  and whether its signature is valid; these are the fields of the records here. Balances are
  unsigned 64-bit words and wrap around.
\<close>

subsection \<open>The state\<close>

record transaction =
  tx_value :: u64
  tx_from :: string
  tx_to :: string
  tx_coinbase :: bool
  tx_valid :: bool

record block =
  block_index :: nat
  block_transactions :: "transaction list"
  block_header_hash :: base_blob

record block_chain =
  mapBlocks :: "(nat, block) std_map"
  accountBalances :: "(string, u64) std_map"

definition empty_chain :: block_chain where
  "empty_chain = \<lparr>mapBlocks = [], accountBalances = []\<rparr>"

definition height :: "block_chain \<Rightarrow> nat" where
  "height c = sm_size (mapBlocks c)"

definition balanceOf :: "block_chain \<Rightarrow> string \<Rightarrow> u64" where
  "balanceOf c account =
     (if sm_count (accountBalances c) account > 0 then the (sm_find (accountBalances c) account) else 0)"

fun verify_transactions :: "transaction list \<Rightarrow> bool" where
  "verify_transactions [] = True"
| "verify_transactions (tx # txs) =
     (if \<not> tx_valid tx then False else if tx_value tx \<le> 0 then False else verify_transactions txs)"

definition verify_block :: "block \<Rightarrow> bool" where
  "verify_block b = verify_transactions (block_transactions b)"

text \<open>
  A debit of an account without a balance sets it to zero; a credit of one without a balance
  sets it to the value.
\<close>

definition debit :: "(string, u64) std_map \<Rightarrow> string \<Rightarrow> u64 \<Rightarrow> (string, u64) std_map" where
  "debit m from value =
     (if sm_count m from > 0 then sm_set m from (the (sm_find m from) - value) else sm_set m from 0)"

definition credit :: "(string, u64) std_map \<Rightarrow> string \<Rightarrow> u64 \<Rightarrow> (string, u64) std_map" where
  "credit m to value =
     (if sm_count m to > 0 then sm_set m to (the (sm_find m to) + value) else sm_set m to value)"

fun update_balances :: "(string, u64) std_map \<Rightarrow> transaction list \<Rightarrow> (string, u64) std_map" where
  "update_balances m [] = m"
| "update_balances m (tx # txs) =
     (let m = (if \<not> tx_coinbase tx then debit m (tx_from tx) (tx_value tx) else m)
      in update_balances (credit m (tx_to tx) (tx_value tx)) txs)"

definition update_balance :: "block_chain \<Rightarrow> block \<Rightarrow> block_chain \<times> bool" where
  "update_balance c b = (c\<lparr>accountBalances := update_balances (accountBalances c) (block_transactions b)\<rparr>, True)"

definition block_exists :: "block_chain \<Rightarrow> nat \<Rightarrow> bool" where
  "block_exists c i = (sm_count (mapBlocks c) i > 0)"

definition append_block :: "block_chain \<Rightarrow> block \<Rightarrow> block_chain \<times> bool" where
  "append_block c b =
     (let i = block_index b
      in if block_exists c i then (c, False)
         else if \<not> verify_block b then (c, False)
         else update_balance (c\<lparr>mapBlocks := sm_insert (mapBlocks c) i b\<rparr>) b)"

text \<open>Both overloads of \<open>get_block\<close> search the map in order.\<close>

definition get_block :: "block_chain \<Rightarrow> nat \<Rightarrow> block option" where
  "get_block c i = map_option snd (List.find (\<lambda>(idx, b). idx = i) (mapBlocks c))"

definition get_block_hash :: "block_chain \<Rightarrow> nat \<Rightarrow> base_blob" where
  "get_block_hash c i = (case get_block c i of Some b \<Rightarrow> block_header_hash b | None \<Rightarrow> blob_null 256)"

subsection \<open>Blocks\<close>

definition chain_ok :: "block_chain \<Rightarrow> bool" where
  "chain_ok c \<longleftrightarrow> sm_ok (mapBlocks c) \<and> sm_ok (accountBalances c) \<and>
     (\<forall>(i, b) \<in> set (mapBlocks c). block_index b = i \<and> verify_block b)"

lemma sm_ok_debit [simp]: "sm_ok m \<Longrightarrow> sm_ok (debit m a v)"
  by (simp add: debit_def)

lemma sm_ok_credit [simp]: "sm_ok m \<Longrightarrow> sm_ok (credit m a v)"
  by (simp add: credit_def)

lemma sm_ok_update_balances [simp]: "sm_ok m \<Longrightarrow> sm_ok (update_balances m txs)"
  by (induction m txs rule: update_balances.induct) (simp_all add: Let_def)

lemma find_key: "map_option snd (List.find (\<lambda>(k', v). k' = k) m) = sm_find m k"
  by (induction m) (auto simp: sm_find_def)

lemma get_block_find: "get_block c i = sm_find (mapBlocks c) i"
  by (simp add: get_block_def find_key)

lemma append_block_accepts:
  "snd (append_block c b) \<longleftrightarrow> sm_find (mapBlocks c) (block_index b) = None \<and> verify_block b"
  by (simp add: append_block_def Let_def block_exists_def sm_count_pos update_balance_def)

lemma append_block_fields:
  "append_block c b =
     (if snd (append_block c b)
      then (\<lparr>mapBlocks = sm_insert (mapBlocks c) (block_index b) b,
             accountBalances = update_balances (accountBalances c) (block_transactions b)\<rparr>, True)
      else (c, False))"
  by (simp add: append_block_def Let_def update_balance_def)

lemma chain_ok_append: "chain_ok c \<Longrightarrow> chain_ok (fst (append_block c b))"
proof (subst append_block_fields, cases "snd (append_block c b)")
  assume ok: "chain_ok c" and a: "snd (append_block c b)"
  have o: "sm_ok (mapBlocks c)" using ok by (simp add: chain_ok_def)
  have "block_index b' = i \<and> verify_block b'"
    if "(i, b') \<in> set (sm_insert (mapBlocks c) (block_index b) b)" for i b'
  proof -
    have "sm_find (sm_insert (mapBlocks c) (block_index b) b) i = Some b'"
      using that sm_find_iff [OF sm_ok_insert [OF o]] by blast
    then show ?thesis
      using ok o a append_block_accepts sm_find_iff [OF o] by (auto simp: chain_ok_def split: if_splits)
  qed
  then show "chain_ok (fst (if snd (append_block c b)
      then (\<lparr>mapBlocks = sm_insert (mapBlocks c) (block_index b) b,
             accountBalances = update_balances (accountBalances c) (block_transactions b)\<rparr>, True)
      else (c, False)))"
    using ok a by (auto simp: chain_ok_def)
qed simp

subsection \<open>Balances\<close>

text \<open>The specification: balances as a total function to natural numbers, and a transfer that the
  sender can pay and that does not overflow.\<close>

definition funds :: "(string, u64) std_map \<Rightarrow> string \<Rightarrow> nat" where
  "funds m a = (case sm_find m a of Some v \<Rightarrow> unat v | None \<Rightarrow> 0)"

definition transfer :: "transaction \<Rightarrow> (string \<Rightarrow> nat) \<Rightarrow> string \<Rightarrow> nat" where
  "transfer tx f =
     (let v = unat (tx_value tx);
          f = (if tx_coinbase tx then f else f(tx_from tx := f (tx_from tx) - v))
      in f(tx_to tx := f (tx_to tx) + v))"

fun payable :: "(string \<Rightarrow> nat) \<Rightarrow> transaction list \<Rightarrow> bool" where
  "payable f [] \<longleftrightarrow> True"
| "payable f (tx # txs) \<longleftrightarrow>
     (\<not> tx_coinbase tx \<longrightarrow> unat (tx_value tx) \<le> f (tx_from tx)) \<and>
     transfer tx f (tx_to tx) < 2 ^ 64 \<and> payable (transfer tx f) txs"

definition known :: "(string, u64) std_map \<Rightarrow> string \<Rightarrow> bool" where
  "known m a \<longleftrightarrow> sm_find m a \<noteq> None"

lemma funds_debit:
  "sm_ok m \<Longrightarrow> unat v \<le> funds m a \<Longrightarrow> funds (debit m a v) = (funds m)(a := funds m a - unat v)"
  by (auto simp: fun_eq_iff funds_def debit_def sm_count_pos unat_sub_if' split: option.splits)

lemma funds_credit:
  "sm_ok m \<Longrightarrow> funds m a + unat v < 2 ^ 64 \<Longrightarrow> funds (credit m a v) = (funds m)(a := funds m a + unat v)"
  by (auto simp: fun_eq_iff funds_def credit_def sm_count_pos unat_plus_if' split: option.splits)

lemma update_balances_transfer:
  "sm_ok m \<Longrightarrow> payable (funds m) txs \<Longrightarrow> funds (update_balances m txs) = fold transfer txs (funds m)"
proof (induction m txs rule: update_balances.induct)
  case (2 m tx txs)
  define m1 where "m1 = (if \<not> tx_coinbase tx then debit m (tx_from tx) (tx_value tx) else m)"
  have m1: "sm_ok m1" using 2(2) by (simp add: m1_def)
  have f1: "funds m1 = (if tx_coinbase tx then funds m else (funds m)(tx_from tx := funds m (tx_from tx) - unat (tx_value tx)))"
    using 2(2,3) funds_debit by (simp add: m1_def)
  then have t: "transfer tx (funds m) = (funds m1)(tx_to tx := funds m1 (tx_to tx) + unat (tx_value tx))"
    by (simp add: transfer_def Let_def)
  then have "funds (credit m1 (tx_to tx) (tx_value tx)) = transfer tx (funds m)"
    using funds_credit [OF m1] 2(3) by simp
  then show ?case using 2 m1 by (simp add: Let_def flip: m1_def)
qed simp

text \<open>The money in the accounts of a finite set that contains all that are named.\<close>

definition minted :: "transaction list \<Rightarrow> nat" where
  "minted txs = (\<Sum>tx \<leftarrow> txs. if tx_coinbase tx then unat (tx_value tx) else 0)"

lemma sum_update:
  "finite A \<Longrightarrow> a \<in> A \<Longrightarrow> sum (f(a := (x :: nat))) A + f a = sum f A + x"
  by (simp add: sum.remove [of A a] add.commute)

lemma transfer_total:
  assumes "finite A" "tx_to tx \<in> A"
    and "\<not> tx_coinbase tx \<longrightarrow> tx_from tx \<in> A \<and> unat (tx_value tx) \<le> f (tx_from tx)"
  shows "sum (transfer tx f) A = sum f A + (if tx_coinbase tx then unat (tx_value tx) else 0)"
proof -
  let ?v = "unat (tx_value tx)"
  let ?g = "if tx_coinbase tx then f else f(tx_from tx := f (tx_from tx) - ?v)"
  have g: "sum ?g A + (if tx_coinbase tx then 0 else ?v) = sum f A"
    using sum_update [OF assms(1), of "tx_from tx" f "f (tx_from tx) - ?v"] assms(3) by auto
  have "sum (transfer tx f) A = sum ?g A + ?v"
    using sum_update [OF assms(1,2), of ?g "?g (tx_to tx) + ?v"] by (simp add: transfer_def Let_def)
  then show ?thesis using g by (auto split: if_splits)
qed

lemma transfers_total:
  "finite A \<Longrightarrow> \<forall>tx \<in> set txs. (\<not> tx_coinbase tx \<longrightarrow> tx_from tx \<in> A) \<and> tx_to tx \<in> A \<Longrightarrow> payable f txs \<Longrightarrow>
     sum (fold transfer txs f) A = sum f A + minted txs"
  by (induction txs arbitrary: f) (simp_all add: transfer_total minted_def)

lemma balanceOf_funds: "unat (balanceOf c a) = funds (accountBalances c) a"
  by (simp add: balanceOf_def funds_def sm_count_pos split: option.splits)

text \<open>
  C14. Appending a block. The chain keeps its blocks under their own index and verified. A
  block is refused, without any change, exactly when its index is taken or one of its
  transactions has a bad signature or no value; otherwise it is found under its index, the
  other blocks stay, and, when every sender can pay and no balance overflows, the balances
  are those after the transfers in order and the money in the accounts grows by exactly the
  coinbase values.
\<close>

theorem append_block_effect:
  assumes "chain_ok c" "append_block c b = (c', accepted)"
  shows "chain_ok c' \<and>
    (accepted \<longleftrightarrow> \<not> block_exists c (block_index b) \<and> (\<forall>tx \<in> set (block_transactions b). tx_valid tx \<and> tx_value tx > 0)) \<and>
    (\<not> accepted \<longrightarrow> c' = c) \<and>
    (accepted \<longrightarrow> height c' = height c + 1 \<and>
       (\<forall>i. get_block c' i = (if i = block_index b then Some b else get_block c i)) \<and>
       (payable (\<lambda>a. unat (balanceOf c a)) (block_transactions b) \<longrightarrow>
          (\<lambda>a. unat (balanceOf c' a)) = fold transfer (block_transactions b) (\<lambda>a. unat (balanceOf c a)) \<and>
          (\<forall>A. finite A \<longrightarrow> (\<forall>tx \<in> set (block_transactions b). tx_from tx \<in> A \<and> tx_to tx \<in> A) \<longrightarrow>
             (\<Sum>a \<in> A. unat (balanceOf c' a)) = (\<Sum>a \<in> A. unat (balanceOf c a)) + minted (block_transactions b))))"
proof -
  have f: "c' = fst (append_block c b)" "accepted = snd (append_block c b)" using assms(2) by simp_all
  have v: "verify_transactions txs \<longleftrightarrow> (\<forall>tx \<in> set txs. tx_valid tx \<and> tx_value tx > 0)" for txs
    by (induction txs) (auto simp: word_neq_0_conv)
  have acc: "accepted \<longleftrightarrow> sm_find (mapBlocks c) (block_index b) = None \<and> verify_block b"
    unfolding f(2) by (rule append_block_accepts)
  have c': "accepted \<Longrightarrow> c' = \<lparr>mapBlocks = sm_insert (mapBlocks c) (block_index b) b,
      accountBalances = update_balances (accountBalances c) (block_transactions b)\<rparr>"
    and n: "\<not> accepted \<Longrightarrow> c' = c"
    using append_block_fields [of c b] unfolding f by (metis fst_conv)+
  have o: "sm_ok (mapBlocks c)" "sm_ok (accountBalances c)" using assms(1) by (simp_all add: chain_ok_def)
  have t: "funds (accountBalances c') = fold transfer (block_transactions b) (funds (accountBalances c))"
    if accepted "payable (funds (accountBalances c)) (block_transactions b)"
    using update_balances_transfer [OF o(2) that(2)] c' [OF that(1)] by simp
  have "accepted \<Longrightarrow> height c' = height c + 1"
    using c' acc by (simp add: height_def sm_insert_def sm_count_pos sm_size_set)
  moreover have "accepted \<Longrightarrow> get_block c' i = (if i = block_index b then Some b else get_block c i)" for i
    using c' acc o(1) by (simp add: get_block_find)
  moreover have "accepted \<longleftrightarrow> \<not> block_exists c (block_index b) \<and> (\<forall>tx \<in> set (block_transactions b). tx_valid tx \<and> tx_value tx > 0)"
    by (simp add: acc block_exists_def sm_count_pos verify_block_def v)
  ultimately show ?thesis
    using chain_ok_append [OF assms(1), of b] t transfers_total n f(1) by (simp add: balanceOf_funds)
qed

theorem append_block_effect_witness:
  "\<exists>c'. append_block \<lparr>mapBlocks = [], accountBalances = [(''a'', 5)]\<rparr>
      \<lparr>block_index = 1, block_transactions = [\<lparr>tx_value = 3, tx_from = ''a'', tx_to = ''b'', tx_coinbase = False, tx_valid = True\<rparr>],
        block_header_hash = blob_null 256\<rparr> = (c', True) \<and>
    unat (balanceOf c' ''a'') = 2 \<and> unat (balanceOf c' ''b'') = 3"
proof -
  let ?tx = "\<lparr>tx_value = 3, tx_from = ''a'', tx_to = ''b'', tx_coinbase = False, tx_valid = True\<rparr>"
  let ?b = "\<lparr>block_index = 1, block_transactions = [?tx], block_header_hash = blob_null 256\<rparr>"
  let ?c = "\<lparr>mapBlocks = [], accountBalances = [(''a'', 5)]\<rparr> :: block_chain"
  obtain c' acc where a: "append_block ?c ?b = (c', acc)" by fastforce
  have ok: "chain_ok ?c" by (simp add: chain_ok_def sm_ok_def)
  have acc: "acc" using append_block_effect [OF ok a] by (simp add: block_exists_def sm_count_def)
  have p: "payable (\<lambda>x. unat (balanceOf ?c x)) [?tx]"
    by (simp add: balanceOf_def sm_count_def sm_find_def transfer_def)
  have e: "(\<lambda>x. unat (balanceOf c' x)) = fold transfer [?tx] (\<lambda>x. unat (balanceOf ?c x))"
    using append_block_effect [OF ok a] acc p by simp
  have "unat (balanceOf c' ''a'') = 2 \<and> unat (balanceOf c' ''b'') = 3"
    using fun_cong [OF e, of "''a''"] fun_cong [OF e, of "''b''"]
    by (simp add: balanceOf_def sm_count_def sm_find_def transfer_def)
  then show ?thesis using a acc by (intro exI [of _ c']) simp
qed

text \<open>
  An accepted block can create money: the balance of the sender is not checked, and a sender
  without an account pays nothing while the receiver is credited.
\<close>

lemma unknown_sender_creates_money:
  assumes "v > 0" "from \<noteq> to"
  shows "\<exists>c'. append_block empty_chain
      \<lparr>block_index = i, block_transactions = [\<lparr>tx_value = v, tx_from = from, tx_to = to, tx_coinbase = False, tx_valid = True\<rparr>],
        block_header_hash = h\<rparr> = (c', True) \<and> balanceOf c' from = 0 \<and> balanceOf c' to = v"
  using assms
  by (simp add: append_block_def Let_def block_exists_def empty_chain_def sm_count_def verify_block_def update_balance_def
      debit_def credit_def balanceOf_def sm_find_def word_neq_0_conv)

end
