(* ===== verification/Bcp.thy ===== *)
theory Bcp
  imports Blob Std_Map "HOL-Library.List_Lexorder" "HOL-Library.Char_ord"
begin

text \<open>
  The consensus of the prototype node (tests/dev/node-server-mono/bcp_server.cpp and .hpp):
  the five steps of a round, the boxes of messages, and the rules that elect a header and
  commit a block. Headers and blocks are types of the caller; what the server uses of them is
  the record \<open>header_ops\<close> of parameters. The number of peers, which the server asks its
  callback for, and the time of the clock are arguments. \<open>_current_round\<close> is set and never
  read; it has no field here.
\<close>

subsection \<open>The state\<close>

datatype bcp_step = bcp_step_null | bcp_step_waiting | bcp_step_proof_of_participation
  | bcp_step_propose | bcp_step_vote | bcp_step_commit

definition bcp_timeout_proof_of_participation :: nat where
  "bcp_timeout_proof_of_participation = 5"

definition bcp_timeout_propose :: nat where
  "bcp_timeout_propose = 10"

definition bcp_timeout_vote :: nat where
  "bcp_timeout_vote = 15"

definition bcp_block_time :: nat where
  "bcp_block_time = 20"

record ('h, 'b) header_ops =
  header_hash :: "'h \<Rightarrow> base_blob"
  hash_string :: "'h \<Rightarrow> string"
  same_header :: "'h \<Rightarrow> 'h \<Rightarrow> bool"
  header_of :: "'b \<Rightarrow> 'h"
  with_header :: "'b \<Rightarrow> 'h \<Rightarrow> 'b"

record ('h, 'b) bcp_server =
  time_context :: nat
  current_step :: bcp_step
  new_round_messages :: "(int, nat) std_map"
  new_round_votes :: "(nat, nat) std_map"
  candidate_block :: 'b
  user_block_headers :: "(string, 'h) std_map"
  proposed_block_headers :: "(int, 'h) std_map"
  my_vote_header :: 'h
  vote_box :: "(int, 'h) std_map"
  vote_headers :: "(base_blob, 'h) std_map"
  vote_counts :: "(base_blob, nat) std_map"
  verified_blocks :: "(int, 'b) std_map"
  commit_block :: 'b

definition bcp_init :: "'h \<Rightarrow> 'b \<Rightarrow> ('h, 'b) bcp_server" where
  "bcp_init h b = \<lparr>time_context = 0, current_step = bcp_step_null, new_round_messages = [],
     new_round_votes = [], candidate_block = b, user_block_headers = [], proposed_block_headers = [],
     my_vote_header = h, vote_box = [], vote_headers = [], vote_counts = [], verified_blocks = [],
     commit_block = b\<rparr>"

definition clear_intermediate_data :: "('h, 'b) bcp_server \<Rightarrow> ('h, 'b) bcp_server" where
  "clear_intermediate_data s = s\<lparr>new_round_messages := [], new_round_votes := [], user_block_headers := [],
     proposed_block_headers := [], vote_box := [], vote_headers := [], vote_counts := [], verified_blocks := []\<rparr>"

text \<open>\<open>start\<close> needs the clock to have synchronized.\<close>

definition bcp_start :: "bool \<Rightarrow> ('h, 'b) bcp_server \<Rightarrow> ('h, 'b) bcp_server \<times> bool" where
  "bcp_start synced s = (if synced then (s\<lparr>current_step := bcp_step_waiting\<rparr>, True) else (s, False))"

definition timeline :: "nat \<Rightarrow> nat \<times> nat" where
  "timeline time_stamp = (time_stamp div bcp_block_time, time_stamp mod bcp_block_time)"

subsection \<open>New rounds\<close>

definition count_vote :: "('k::linorder, nat) std_map \<Rightarrow> 'k \<Rightarrow> ('k, nat) std_map" where
  "count_vote m k = (if sm_count m k = 0 then sm_set m k 1 else sm_set m k (the (sm_find m k) + 1))"

definition append_new_round_message_for ::
  "('h, 'b) bcp_server \<Rightarrow> int \<Rightarrow> nat \<Rightarrow> ('h, 'b) bcp_server \<times> bool" where
  "append_new_round_message_for s peer_id round_idx =
     (if sm_count (new_round_messages s) peer_id > 0 then (s, False)
      else (s\<lparr>new_round_messages := sm_insert (new_round_messages s) peer_id round_idx,
              new_round_votes := count_vote (new_round_votes s) round_idx\<rparr>, True))"

definition new_round_start_for :: "nat \<Rightarrow> nat \<Rightarrow> ('h, 'b) bcp_server \<Rightarrow> nat option" where
  "new_round_start_for all_peer_count invalid_block_index s =
     (let qualify_votes = all_peer_count
      in map_option fst (List.find (\<lambda>(block_round, votes). votes \<ge> qualify_votes \<and> block_round > invalid_block_index)
           (new_round_votes s)))"

subsection \<open>User and proposed headers\<close>

definition append_user_block_header_for ::
  "('h, 'b) bcp_server \<Rightarrow> string \<Rightarrow> 'h \<Rightarrow> ('h, 'b) bcp_server \<times> bool" where
  "append_user_block_header_for s address header =
     (if sm_count (user_block_headers s) address > 0 then (s, False)
      else (s\<lparr>user_block_headers := sm_insert (user_block_headers s) address header\<rparr>, True))"

text \<open>The loop that keeps the entry with the lowest hash text, the first of equal ones.\<close>

fun select_lowest :: "('h \<Rightarrow> string) \<Rightarrow> 'k \<times> 'h \<Rightarrow> ('k, 'h) std_map \<Rightarrow> 'k \<times> 'h" where
  "select_lowest text best [] = best"
| "select_lowest text best (p # ps) = select_lowest text (if text (snd p) < text (snd best) then p else best) ps"

definition select_user_block_header :: "('h, 'b) header_ops \<Rightarrow> ('h, 'b) bcp_server \<Rightarrow> (string \<times> 'h) option" where
  "select_user_block_header ops s =
     (case user_block_headers s of [] \<Rightarrow> None | p # ps \<Rightarrow> Some (select_lowest (hash_string ops) p ps))"

definition append_proposed_block_header_for ::
  "('h, 'b) bcp_server \<Rightarrow> int \<Rightarrow> 'h \<Rightarrow> ('h, 'b) bcp_server \<times> bool" where
  "append_proposed_block_header_for s peer_id header =
     (if sm_count (proposed_block_headers s) peer_id > 0 then (s, False)
      else (s\<lparr>proposed_block_headers := sm_insert (proposed_block_headers s) peer_id header\<rparr>, True))"

definition select_proposed_block_header :: "('h, 'b) header_ops \<Rightarrow> ('h, 'b) bcp_server \<Rightarrow> 'h option" where
  "select_proposed_block_header ops s =
     (case proposed_block_headers s of [] \<Rightarrow> None | p # ps \<Rightarrow> Some (snd (select_lowest (hash_string ops) p ps)))"

subsection \<open>Votes\<close>

definition vote_block_header_for ::
  "('h, 'b) header_ops \<Rightarrow> ('h, 'b) bcp_server \<Rightarrow> int \<Rightarrow> 'h \<Rightarrow> ('h, 'b) bcp_server \<times> bool" where
  "vote_block_header_for ops s peer_id vote_header =
     (if sm_count (vote_box s) peer_id > 0 then (s, False)
      else let hash = header_hash ops vote_header
           in (s\<lparr>vote_box := sm_insert (vote_box s) peer_id vote_header,
                 vote_headers := (if sm_count (vote_headers s) hash = 0 then sm_insert (vote_headers s) hash vote_header
                                  else vote_headers s),
                 vote_counts := count_vote (vote_counts s) hash\<rparr>, True))"

text \<open>\<open>operator[]\<close> would insert a default header for a hash without one; that is \<open>None\<close> here.\<close>

definition get_elected_block_header :: "nat \<Rightarrow> ('h, 'b) bcp_server \<Rightarrow> 'h option" where
  "get_elected_block_header all_peer_count s =
     (let qualify_votes = all_peer_count div 2 + 1
      in case List.find (\<lambda>(hash, votes). votes \<ge> qualify_votes) (vote_counts s) of
           Some (hash, votes) \<Rightarrow> sm_find (vote_headers s) hash
         | None \<Rightarrow> None)"

subsection \<open>Commits\<close>

definition add_verified_block ::
  "('h, 'b) header_ops \<Rightarrow> nat \<Rightarrow> ('h, 'b) bcp_server \<Rightarrow> int \<Rightarrow> 'b \<Rightarrow> ('h, 'b) bcp_server \<times> bool" where
  "add_verified_block ops all_peer_count s peer_id verified_block =
     (if sm_count (verified_blocks s) peer_id > 0 then (s, False)
      else case get_elected_block_header all_peer_count s of
             Some elected_header \<Rightarrow>
               if same_header ops (header_of ops verified_block) elected_header
               then (s\<lparr>verified_blocks := sm_insert (verified_blocks s) peer_id verified_block,
                       commit_block := verified_block\<rparr>, True)
               else (s, False)
           | None \<Rightarrow> (s, False))"

definition find_commit_block :: "nat \<Rightarrow> ('h, 'b) bcp_server \<Rightarrow> 'b option" where
  "find_commit_block all_peer_count s =
     (let qualify_votes = all_peer_count div 2 + 1
      in if sm_size (verified_blocks s) \<ge> qualify_votes then Some (commit_block s) else None)"

subsection \<open>A turn of the server\<close>

text \<open>
  \<open>process\<close> makes at most one callback and then moves to the next step: the new state before
  the callback, the callback, and the step set after it.
\<close>

datatype ('h, 'b) callback = new_round_ready | new_round_start nat | propose_start | vote_start
  | commit_start 'h bool | new_block_commit 'b | consensus_fail

definition bcp_process ::
  "('h, 'b) header_ops \<Rightarrow> nat \<Rightarrow> nat \<Rightarrow> nat \<Rightarrow> ('h, 'b) bcp_server \<Rightarrow>
    ('h, 'b) bcp_server \<times> ('h, 'b) callback option \<times> bcp_step" where
  "bcp_process ops all_peer_count invalid_block_index time_stamp s =
     (let (context, time_line) = timeline time_stamp;
          stay = (s, None, current_step s)
      in case current_step s of
           bcp_step_null \<Rightarrow> stay
         | bcp_step_waiting \<Rightarrow>
             if time_line < bcp_timeout_proof_of_participation
             then if context > time_context s
                  then (s\<lparr>time_context := context\<rparr>, Some new_round_ready, bcp_step_waiting)
                  else (case new_round_start_for all_peer_count invalid_block_index s of
                          Some new_round_idx \<Rightarrow> (s, Some (new_round_start new_round_idx), bcp_step_proof_of_participation)
                        | None \<Rightarrow> stay)
             else stay
         | bcp_step_proof_of_participation \<Rightarrow>
             if time_line > bcp_timeout_proof_of_participation
             then (s, Some propose_start, bcp_step_propose) else stay
         | bcp_step_propose \<Rightarrow>
             if time_line > bcp_timeout_propose then (s, Some vote_start, bcp_step_vote) else stay
         | bcp_step_vote \<Rightarrow>
             if time_line > bcp_timeout_vote then (s, Some consensus_fail, bcp_step_waiting)
             else (case get_elected_block_header all_peer_count s of
                     Some elected_header \<Rightarrow>
                       (s, Some (commit_start elected_header
                                   (same_header ops elected_header (header_of ops (candidate_block s)))), bcp_step_commit)
                   | None \<Rightarrow> stay)
         | bcp_step_commit \<Rightarrow>
             if time_line < bcp_timeout_proof_of_participation
             then (s, Some consensus_fail, bcp_step_waiting)
             else (case find_commit_block all_peer_count s of
                     Some b \<Rightarrow> (s, Some (new_block_commit b), bcp_step_waiting)
                   | None \<Rightarrow> stay))"

text \<open>
  What the callbacks of the node do to the server (node_server.cpp, \<open>on_bcp_*\<close>): a new round
  makes a candidate and enters its header for the own account, unless the block cannot be
  created; the proposal replaces the header of the candidate by the lowest one; the vote
  remembers the lowest proposal; a failure and a new block clear the boxes. What they
  broadcast arrives through the steps below.
\<close>

inductive after_callback ::
  "('h, 'b) header_ops \<Rightarrow> ('h, 'b) callback option \<Rightarrow> ('h, 'b) bcp_server \<Rightarrow> ('h, 'b) bcp_server \<Rightarrow> bool"
  for ops where
  "after_callback ops None s s"
| "after_callback ops (Some new_round_ready) s s"
| "after_callback ops (Some (new_round_start i)) s s"
| "after_callback ops (Some (new_round_start i)) s
     (fst (append_user_block_header_for (s\<lparr>candidate_block := b\<rparr>) address (header_of ops b)))"
| "select_user_block_header ops s = None \<Longrightarrow> after_callback ops (Some propose_start) s s"
| "select_user_block_header ops s = Some (address, h) \<Longrightarrow>
     after_callback ops (Some propose_start) s (s\<lparr>candidate_block := with_header ops (candidate_block s) h\<rparr>)"
| "select_proposed_block_header ops s = None \<Longrightarrow> after_callback ops (Some vote_start) s s"
| "select_proposed_block_header ops s = Some h \<Longrightarrow> after_callback ops (Some vote_start) s (s\<lparr>my_vote_header := h\<rparr>)"
| "after_callback ops (Some (commit_start h mine)) s s"
| "after_callback ops (Some (new_block_commit b)) s (clear_intermediate_data s)"
| "after_callback ops (Some consensus_fail) s (clear_intermediate_data s)"

text \<open>A step is a turn at some time or the arrival of a message from one of the peers.\<close>

inductive bcp_steps ::
  "('h, 'b) header_ops \<Rightarrow> int set \<Rightarrow> nat \<Rightarrow> ('h, 'b) bcp_server \<Rightarrow> ('h, 'b) callback option \<Rightarrow> ('h, 'b) bcp_server \<Rightarrow> bool"
  for ops peers invalid where
  turn: "bcp_process ops (card peers) invalid t s = (s1, cb, st) \<Longrightarrow> after_callback ops cb s1 s2 \<Longrightarrow>
     bcp_steps ops peers invalid s cb (s2\<lparr>current_step := st\<rparr>)"
| new_round: "p \<in> peers \<Longrightarrow> bcp_steps ops peers invalid s None (fst (append_new_round_message_for s p i))"
| user: "bcp_steps ops peers invalid s None (fst (append_user_block_header_for s address h))"
| propose: "p \<in> peers \<Longrightarrow> bcp_steps ops peers invalid s None (fst (append_proposed_block_header_for s p h))"
| vote: "p \<in> peers \<Longrightarrow> bcp_steps ops peers invalid s None (fst (vote_block_header_for ops s p h))"
| commit: "p \<in> peers \<Longrightarrow> bcp_steps ops peers invalid s None (fst (add_verified_block ops (card peers) s p b))"

inductive bcp_reachable :: "('h, 'b) header_ops \<Rightarrow> int set \<Rightarrow> nat \<Rightarrow> ('h, 'b) bcp_server \<Rightarrow> bool"
  for ops peers invalid where
  start: "bcp_reachable ops peers invalid (fst (bcp_start synced (bcp_init h b)))"
| step: "bcp_reachable ops peers invalid s \<Longrightarrow> bcp_steps ops peers invalid s cb s' \<Longrightarrow> bcp_reachable ops peers invalid s'"

subsection \<open>Ballots\<close>

text \<open>
  The contract that the new-round messages and the header votes share: a peer is heard once,
  and the counter of its choice goes up by one.
\<close>

locale ballot =
  fixes box :: "'s \<Rightarrow> 'p \<Rightarrow> 'v option" and counts :: "'s \<Rightarrow> 'k \<Rightarrow> nat"
    and vote :: "'s \<Rightarrow> 'p \<Rightarrow> 'v \<Rightarrow> 's \<times> bool" and key :: "'v \<Rightarrow> 'k" and ok :: "'s \<Rightarrow> bool"
  assumes once: "ok s \<Longrightarrow> box s p \<noteq> None \<Longrightarrow> vote s p v = (s, False)"
    and heard: "ok s \<Longrightarrow> box s p = None \<Longrightarrow> box (fst (vote s p v)) = (box s)(p := Some v)"
    and counted: "ok s \<Longrightarrow> box s p = None \<Longrightarrow>
      counts (fst (vote s p v)) = (counts s)(key v := counts s (key v) + 1)"
begin

lemma tally_step:
  assumes "ok s" "finite {q. box s q \<noteq> None}" "\<forall>k. counts s k = card {q. \<exists>v. box s q = Some v \<and> key v = k}"
  shows "counts (fst (vote s p v)) k = card {q. \<exists>w. box (fst (vote s p v)) q = Some w \<and> key w = k}"
proof (cases "box s p")
  case (Some w)
  then show ?thesis using once [OF assms(1), of p v] assms(3) by simp
next
  case None
  let ?V = "{q. \<exists>w. box s q = Some w \<and> key w = k}"
  have fin: "finite ?V" using assms(2) by (rule finite_subset [rotated]) auto
  have "{q. \<exists>w. box (fst (vote s p v)) q = Some w \<and> key w = k} = (if key v = k then insert p ?V else ?V)"
    using heard [OF assms(1) None] None by auto
  moreover have "p \<notin> ?V" using None by simp
  ultimately show ?thesis using counted [OF assms(1) None] assms(3) fin by auto
qed

text \<open>Two choices with a majority of the peers each share a peer, so they are the same choice.\<close>

lemma majorities_agree:
  assumes "finite P" "\<forall>q. box s q \<noteq> None \<longrightarrow> q \<in> P" "\<forall>q. box t q \<noteq> None \<longrightarrow> q \<in> P"
    and "\<forall>q v w. box s q = Some v \<longrightarrow> box t q = Some w \<longrightarrow> key v = key w"
    and "card P div 2 + 1 \<le> card {q. \<exists>v. box s q = Some v \<and> key v = k}"
    and "card P div 2 + 1 \<le> card {q. \<exists>v. box t q = Some v \<and> key v = k'}"
  shows "k = k'"
proof (rule ccontr)
  assume ne: "k \<noteq> k'"
  let ?A = "{q. \<exists>v. box s q = Some v \<and> key v = k}" and ?B = "{q. \<exists>v. box t q = Some v \<and> key v = k'}"
  have sub: "?A \<union> ?B \<subseteq> P" using assms(2,3) by auto
  have "?A \<inter> ?B = {}" using assms(4) ne by fastforce
  then have "card ?A + card ?B = card (?A \<union> ?B)"
    using sub assms(1) by (intro card_Un_disjoint [symmetric]) (auto intro: finite_subset)
  also have "\<dots> \<le> card P" using sub assms(1) by (rule card_mono [rotated])
  finally show False using assms(5,6) by linarith
qed

end

definition sm_total :: "('k, nat) std_map \<Rightarrow> 'k \<Rightarrow> nat" where
  "sm_total m k = (case sm_find m k of None \<Rightarrow> 0 | Some n \<Rightarrow> n)"

definition boxes_ok :: "('h, 'b) bcp_server \<Rightarrow> bool" where
  "boxes_ok s \<longleftrightarrow> sm_ok (new_round_messages s) \<and> sm_ok (new_round_votes s) \<and> sm_ok (vote_box s) \<and>
     sm_ok (vote_headers s) \<and> sm_ok (vote_counts s) \<and> sm_ok (verified_blocks s)"

lemma sm_total_count: "sm_ok m \<Longrightarrow> sm_total (count_vote m k) = (sm_total m)(k := sm_total m k + 1)"
  by (auto simp: fun_eq_iff sm_total_def count_vote_def sm_count_0 split: option.splits)

lemma sm_ok_count [simp]: "sm_ok m \<Longrightarrow> sm_ok (count_vote m k)"
  by (simp add: count_vote_def)

interpretation header_votes: ballot "\<lambda>s. sm_find (vote_box s)" "\<lambda>s. sm_total (vote_counts s)"
    "vote_block_header_for ops" "header_hash ops" boxes_ok for ops
  by unfold_locales
    (auto simp: vote_block_header_for_def sm_count_pos boxes_ok_def sm_total_count fun_eq_iff Let_def)

interpretation round_votes: ballot "\<lambda>s. sm_find (new_round_messages s)" "\<lambda>s. sm_total (new_round_votes s)"
    append_new_round_message_for "\<lambda>i. i" boxes_ok
  by unfold_locales
    (auto simp: append_new_round_message_for_def sm_count_pos boxes_ok_def sm_total_count fun_eq_iff)

subsection \<open>The invariant\<close>

definition voters :: "('h, 'b) header_ops \<Rightarrow> ('h, 'b) bcp_server \<Rightarrow> base_blob \<Rightarrow> int set" where
  "voters ops s k = {p. \<exists>h. sm_find (vote_box s) p = Some h \<and> header_hash ops h = k}"

definition round_voters :: "('h, 'b) bcp_server \<Rightarrow> nat \<Rightarrow> int set" where
  "round_voters s i = {p. \<exists>j. sm_find (new_round_messages s) p = Some j \<and> j = i}"

definition ballots_ok :: "('h, 'b) header_ops \<Rightarrow> int set \<Rightarrow> ('h, 'b) bcp_server \<Rightarrow> bool" where
  "ballots_ok ops peers s \<longleftrightarrow> boxes_ok s \<and>
     (\<forall>p. sm_find (vote_box s) p \<noteq> None \<longrightarrow> p \<in> peers) \<and>
     (\<forall>p. sm_find (new_round_messages s) p \<noteq> None \<longrightarrow> p \<in> peers) \<and>
     (\<forall>p. sm_find (verified_blocks s) p \<noteq> None \<longrightarrow> p \<in> peers) \<and>
     (\<forall>k. sm_total (vote_counts s) k = card (voters ops s k)) \<and>
     (\<forall>i. sm_total (new_round_votes s) i = card (round_voters s i)) \<and>
     (\<forall>k. sm_find (vote_counts s) k \<noteq> None \<longrightarrow> sm_find (vote_headers s) k \<noteq> None) \<and>
     (\<forall>k h. sm_find (vote_headers s) k = Some h \<longrightarrow> header_hash ops h = k)"

definition commits_ok :: "('h, 'b) header_ops \<Rightarrow> nat \<Rightarrow> ('h, 'b) bcp_server \<Rightarrow> bool" where
  "commits_ok ops n s \<longleftrightarrow> (verified_blocks s \<noteq> [] \<longrightarrow>
     (\<exists>e. get_elected_block_header n s = Some e \<and> same_header ops (header_of ops (commit_block s)) e))"

lemmas bcp_simps = ballots_ok_def commits_ok_def voters_def round_voters_def boxes_ok_def get_elected_block_header_def

text \<open>What the invariant reads.\<close>

definition ballot_view :: "('h, 'b) bcp_server \<Rightarrow> _" where
  "ballot_view s = (new_round_messages s, new_round_votes s, vote_box s, vote_headers s, vote_counts s,
     verified_blocks s, commit_block s)"

lemma ballot_view_cong:
  assumes "ballot_view s = ballot_view s'"
  shows "ballots_ok ops P s = ballots_ok ops P s'" "commits_ok ops n s = commits_ok ops n s'"
    "get_elected_block_header n s = get_elected_block_header n s'"
  using assms by (simp_all add: ballot_view_def bcp_simps cong del: option.case_cong_weak)

lemma elected_iff:
  assumes "ballots_ok ops P s" "finite P"
  shows "get_elected_block_header (card P) s = Some e \<longleftrightarrow>
    (\<exists>k. card P div 2 + 1 \<le> card (voters ops s k) \<and> sm_find (vote_headers s) k = Some e)"
proof -
  have o: "sm_ok (vote_counts s)" using assms(1) by (simp add: ballots_ok_def boxes_ok_def)
  let ?q = "\<lambda>(hash, votes). card P div 2 + 1 \<le> votes"
  have entry: "card P div 2 + 1 \<le> card (voters ops s k)" if "(k, n) \<in> set (vote_counts s)" "?q (k, n)" for k n
  proof -
    have "sm_total (vote_counts s) k = n" using iffD2 [OF sm_find_iff [OF o] that(1)] by (simp add: sm_total_def)
    then show ?thesis using that(2) assms(1) by (auto simp: ballots_ok_def)
  qed
  have uniq: "k = k'" if "card P div 2 + 1 \<le> card (voters ops s k)" "card P div 2 + 1 \<le> card (voters ops s k')" for k k'
    using that assms unfolding voters_def ballots_ok_def
    by (intro header_votes.majorities_agree [of P s s ops k k']) auto
  show ?thesis
  proof (cases "List.find ?q (vote_counts s)")
    case None
    have "\<not> card P div 2 + 1 \<le> card (voters ops s k)" for k
    proof
      assume k: "card P div 2 + 1 \<le> card (voters ops s k)"
      then have t: "card P div 2 + 1 \<le> sm_total (vote_counts s) k" using assms(1) by (simp add: ballots_ok_def)
      then obtain n where "sm_find (vote_counts s) k = Some n" "card P div 2 + 1 \<le> n"
        by (cases "sm_find (vote_counts s) k") (simp_all add: sm_total_def)
      then show False using None sm_find_iff [OF o] by (fastforce simp: find_None_iff)
    qed
    then show ?thesis using None by (simp add: get_elected_block_header_def)
  next
    case (Some p)
    obtain k n where p: "p = (k, n)" by (cases p)
    then have k: "card P div 2 + 1 \<le> card (voters ops s k)" using sm_search_Some [OF Some] entry by blast
    have "get_elected_block_header (card P) s = sm_find (vote_headers s) k"
      using Some by (simp add: get_elected_block_header_def p)
    then show ?thesis using k uniq by metis
  qed
qed

lemma elected_hash:
  assumes "ballots_ok ops P s" "finite P" "get_elected_block_header (card P) s = Some e"
  shows "card P div 2 + 1 \<le> card (voters ops s (header_hash ops e))"
proof -
  obtain k where k: "card P div 2 + 1 \<le> card (voters ops s k)" "sm_find (vote_headers s) k = Some e"
    using elected_iff [OF assms(1,2)] assms(3) by blast
  then have "header_hash ops e = k" using assms(1) by (simp add: ballots_ok_def)
  then show ?thesis using k(1) by simp
qed

lemma finite_box: "\<forall>q. sm_find m q \<noteq> None \<longrightarrow> q \<in> P \<Longrightarrow> finite P \<Longrightarrow> finite {q. sm_find m q \<noteq> None}"
  by (rule finite_subset) auto

lemma voters_peers: "ballots_ok ops P s \<Longrightarrow> voters ops s k \<subseteq> P"
  unfolding voters_def ballots_ok_def by blast

lemma ballots_ok_vote:
  assumes "ballots_ok ops P s" "finite P" "p \<in> P"
  shows "ballots_ok ops P (fst (vote_block_header_for ops s p h))"
proof -
  let ?s = "fst (vote_block_header_for ops s p h)"
  have b: "boxes_ok s" using assms(1) by (simp add: ballots_ok_def)
  have fin: "finite {q. sm_find (vote_box s) q \<noteq> None}"
    using assms(1,2) by (intro finite_box) (simp_all add: ballots_ok_def)
  have "sm_total (vote_counts ?s) k = card (voters ops ?s k)" for k
    using header_votes.tally_step [OF b fin, of ops p h k] assms(1) by (simp add: ballots_ok_def voters_def)
  moreover have "boxes_ok ?s" using b by (simp add: boxes_ok_def vote_block_header_for_def Let_def)
  moreover have "sm_find (vote_headers ?s) k \<noteq> None" if "sm_find (vote_counts ?s) k \<noteq> None" for k
    using that b assms(1)
    by (auto simp: vote_block_header_for_def Let_def ballots_ok_def boxes_ok_def count_vote_def sm_count_0 sm_count_pos
        split: if_splits)
  moreover have "header_hash ops h' = k" if "sm_find (vote_headers ?s) k = Some h'" for k h'
    using that b assms(1)
    by (simp add: vote_block_header_for_def Let_def ballots_ok_def boxes_ok_def split: if_splits)
  moreover have "p' \<in> P" if "sm_find (vote_box ?s) p' \<noteq> None" for p'
    using that b assms(1,3)
    by (simp add: vote_block_header_for_def Let_def ballots_ok_def boxes_ok_def split: if_splits)
  moreover have "new_round_messages ?s = new_round_messages s" "new_round_votes ?s = new_round_votes s"
      "verified_blocks ?s = verified_blocks s"
    by (simp_all add: vote_block_header_for_def Let_def)
  ultimately show ?thesis
    using assms(1) by (simp add: ballots_ok_def round_voters_def)
qed

text \<open>An election is final: further votes do not change it.\<close>

lemma elected_stable:
  assumes "ballots_ok ops P s" "finite P" "p \<in> P" "get_elected_block_header (card P) s = Some e"
  shows "get_elected_block_header (card P) (fst (vote_block_header_for ops s p h)) = Some e"
proof -
  let ?s = "fst (vote_block_header_for ops s p h)"
  have b: "boxes_ok s" using assms(1) by (simp add: ballots_ok_def)
  obtain k where k: "card P div 2 + 1 \<le> card (voters ops s k)" "sm_find (vote_headers s) k = Some e"
    using elected_iff [OF assms(1,2)] assms(4) by blast
  have "voters ops s k \<subseteq> voters ops ?s k"
    using b by (auto simp: voters_def vote_block_header_for_def Let_def boxes_ok_def sm_count_pos)
  moreover have "finite (voters ops ?s k)"
    using voters_peers [OF ballots_ok_vote [OF assms(1-3)]] assms(2) by (rule finite_subset)
  ultimately have "card P div 2 + 1 \<le> card (voters ops ?s k)"
    using k(1) card_mono [of "voters ops ?s k" "voters ops s k"] by linarith
  moreover have "sm_find (vote_headers ?s) k = Some e"
    using k(2) b by (auto simp: vote_block_header_for_def Let_def boxes_ok_def sm_count_0)
  ultimately show ?thesis using elected_iff [OF ballots_ok_vote [OF assms(1-3)] assms(2)] by blast
qed

lemma commits_ok_vote:
  assumes "ballots_ok ops P s" "finite P" "p \<in> P" "commits_ok ops (card P) s"
  shows "commits_ok ops (card P) (fst (vote_block_header_for ops s p h))"
proof -
  have "verified_blocks (fst (vote_block_header_for ops s p h)) = verified_blocks s"
    "commit_block (fst (vote_block_header_for ops s p h)) = commit_block s"
    by (simp_all add: vote_block_header_for_def Let_def)
  then show ?thesis using assms(4) elected_stable [OF assms(1-3)] by (auto simp: commits_ok_def)
qed

lemma ballots_ok_new_round:
  assumes "ballots_ok ops P s" "finite P" "p \<in> P"
  shows "ballots_ok ops P (fst (append_new_round_message_for s p i))"
proof -
  let ?s = "fst (append_new_round_message_for s p i)"
  have b: "boxes_ok s" using assms(1) by (simp add: ballots_ok_def)
  have fin: "finite {q. sm_find (new_round_messages s) q \<noteq> None}"
    using assms(1,2) by (intro finite_box) (simp_all add: ballots_ok_def)
  have "sm_total (new_round_votes ?s) k = card (round_voters ?s k)" for k
    using round_votes.tally_step [OF b fin, of p i k] assms(1) by (simp add: ballots_ok_def round_voters_def)
  moreover have "boxes_ok ?s" using b by (simp add: boxes_ok_def append_new_round_message_for_def)
  moreover have "p' \<in> P" if "sm_find (new_round_messages ?s) p' \<noteq> None" for p'
    using that b assms(1,3)
    by (simp add: append_new_round_message_for_def ballots_ok_def boxes_ok_def split: if_splits)
  moreover have "vote_box ?s = vote_box s" "vote_headers ?s = vote_headers s" "vote_counts ?s = vote_counts s"
      "verified_blocks ?s = verified_blocks s"
    by (simp_all add: append_new_round_message_for_def)
  ultimately show ?thesis using assms(1) by (simp add: ballots_ok_def voters_def)
qed

lemma commits_ok_new_round:
  "commits_ok ops n s \<Longrightarrow> commits_ok ops n (fst (append_new_round_message_for s p i))"
proof -
  have "get_elected_block_header n (fst (append_new_round_message_for s p i)) = get_elected_block_header n s"
    by (simp add: get_elected_block_header_def append_new_round_message_for_def cong del: option.case_cong_weak)
  moreover have "verified_blocks (fst (append_new_round_message_for s p i)) = verified_blocks s"
      "commit_block (fst (append_new_round_message_for s p i)) = commit_block s"
    by (simp_all add: append_new_round_message_for_def)
  moreover assume "commits_ok ops n s"
  ultimately show ?thesis by (simp add: commits_ok_def)
qed

lemma ballots_ok_verified:
  assumes "ballots_ok ops P s" "p \<in> P"
  shows "ballots_ok ops P (fst (add_verified_block ops n s p b))"
proof -
  let ?s = "fst (add_verified_block ops n s p b)"
  have b: "boxes_ok s" using assms(1) by (simp add: ballots_ok_def)
  have "boxes_ok ?s" using b by (simp add: boxes_ok_def add_verified_block_def split: option.splits)
  moreover have "p' \<in> P" if "sm_find (verified_blocks ?s) p' \<noteq> None" for p'
    using that b assms
    by (simp add: add_verified_block_def ballots_ok_def boxes_ok_def split: if_splits option.splits)
  moreover have "vote_box ?s = vote_box s" "vote_headers ?s = vote_headers s" "vote_counts ?s = vote_counts s"
      "new_round_messages ?s = new_round_messages s" "new_round_votes ?s = new_round_votes s"
    by (simp_all add: add_verified_block_def split: option.splits)
  ultimately show ?thesis using assms(1) by (simp add: ballots_ok_def voters_def round_voters_def)
qed

lemma commits_ok_verified:
  assumes "commits_ok ops n s"
  shows "commits_ok ops n (fst (add_verified_block ops n s p b))"
proof -
  have "get_elected_block_header n (fst (add_verified_block ops n s p b)) = get_elected_block_header n s"
    by (simp add: get_elected_block_header_def add_verified_block_def split: option.splits)
  then show ?thesis using assms by (auto simp: commits_ok_def add_verified_block_def split: option.splits)
qed

lemma clear_ok: "ballots_ok ops P (clear_intermediate_data s)" "commits_ok ops n (clear_intermediate_data s)"
  by (simp_all add: clear_intermediate_data_def bcp_simps sm_total_def)

subsection \<open>Turns\<close>

inductive_cases after_callbackE:
  "after_callback ops None s s'"
  "after_callback ops (Some new_round_ready) s s'"
  "after_callback ops (Some (new_round_start i)) s s'"
  "after_callback ops (Some propose_start) s s'"
  "after_callback ops (Some vote_start) s s'"
  "after_callback ops (Some (commit_start h mine)) s s'"
  "after_callback ops (Some (new_block_commit b)) s s'"
  "after_callback ops (Some consensus_fail) s s'"

lemma process_view:
  assumes "bcp_process ops n invalid t s = (s1, cb, st)"
  shows "ballot_view s1 = ballot_view s"
  using assms by (auto simp: bcp_process_def timeline_def Let_def ballot_view_def split: bcp_step.splits if_splits option.splits)

lemma after_callback_view:
  assumes "after_callback ops cb s s'"
  shows "ballot_view s' = ballot_view s \<or> s' = clear_intermediate_data s"
  using assms by cases (simp_all add: ballot_view_def append_user_block_header_for_def)

lemma step_view: "ballot_view (s\<lparr>current_step := st\<rparr>) = ballot_view s"
  by (simp add: ballot_view_def)

lemma bcp_steps_ok:
  assumes "bcp_steps ops P invalid s cb s'" "finite P" "ballots_ok ops P s" "commits_ok ops (card P) s"
  shows "ballots_ok ops P s' \<and> commits_ok ops (card P) s'"
  using assms(1)
proof cases
  case (turn t s1 st s2)
  have "ballots_ok ops P s1 \<and> commits_ok ops (card P) s1"
    using process_view [OF turn(2)] assms(3,4) ballot_view_cong(1,2) by metis
  then have "ballots_ok ops P s2 \<and> commits_ok ops (card P) s2"
    using after_callback_view [OF turn(3)] clear_ok ballot_view_cong(1,2) by metis
  then show ?thesis using turn(1) step_view [of st s2] ballot_view_cong(1,2) by metis
next
  case (user address h)
  have "ballot_view s' = ballot_view s" by (simp add: user(2) ballot_view_def append_user_block_header_for_def)
  then show ?thesis using assms(3,4) ballot_view_cong(1,2) by metis
next
  case (propose p h)
  have "ballot_view s' = ballot_view s" by (simp add: propose(2) ballot_view_def append_proposed_block_header_for_def)
  then show ?thesis using assms(3,4) ballot_view_cong(1,2) by metis
next
  case (new_round p i)
  show ?thesis unfolding new_round(2)
    using ballots_ok_new_round [OF assms(3,2) new_round(3)] commits_ok_new_round [OF assms(4)] by blast
next
  case (vote p h)
  show ?thesis unfolding vote(2)
    using ballots_ok_vote [OF assms(3,2) vote(3)] commits_ok_vote [OF assms(3,2) vote(3) assms(4)] by blast
next
  case (commit p b)
  show ?thesis unfolding commit(2)
    using ballots_ok_verified [OF assms(3) commit(3)] commits_ok_verified [OF assms(4)] by blast
qed

lemma bcp_reachable_ok:
  assumes "bcp_reachable ops P invalid s" "finite P"
  shows "ballots_ok ops P s \<and> commits_ok ops (card P) s"
  using assms(1)
proof induction
  case (start synced h b)
  show ?case by (simp add: bcp_start_def bcp_init_def bcp_simps sm_total_def)
next
  case (step s cb s')
  then show ?case using bcp_steps_ok assms(2) by blast
qed

subsection \<open>What the consensus guarantees\<close>

definition committers :: "('h, 'b) bcp_server \<Rightarrow> int set" where
  "committers s = {p. sm_find (verified_blocks s) p \<noteq> None}"

lemma elected_majority:
  assumes "bcp_reachable ops P invalid s" "finite P" "get_elected_block_header (card P) s = Some e"
  shows "card P < 2 * card (voters ops s (header_hash ops e))"
  using elected_hash [OF _ assms(2,3)] bcp_reachable_ok [OF assms(1,2)] by fastforce

lemma committed_elected:
  assumes "bcp_reachable ops P invalid s" "finite P" "find_commit_block (card P) s = Some b"
  shows "\<exists>e. get_elected_block_header (card P) s = Some e \<and> same_header ops (header_of ops b) e \<and>
    committers s \<subseteq> P \<and> card P < 2 * card (committers s)"
proof -
  have ok: "ballots_ok ops P s" "commits_ok ops (card P) s" using bcp_reachable_ok [OF assms(1,2)] by blast+
  have o: "sm_ok (verified_blocks s)" using ok(1) by (simp add: ballots_ok_def boxes_ok_def)
  have b: "b = commit_block s" "card P div 2 + 1 \<le> sm_size (verified_blocks s)"
    using assms(3) by (auto simp: find_commit_block_def Let_def split: if_splits)
  then have "verified_blocks s \<noteq> []" by (auto simp: sm_size_def)
  moreover have "card P < 2 * card (committers s)" using b(2) sm_size_card [OF o] by (simp add: committers_def)
  moreover have "committers s \<subseteq> P" using ok(1) by (auto simp: committers_def ballots_ok_def)
  ultimately show ?thesis using ok(2) b(1) by (auto simp: commits_ok_def)
qed

lemma elected_kept:
  assumes "bcp_reachable ops P invalid s" "finite P" "bcp_steps ops P invalid s cb s'"
    "get_elected_block_header (card P) s = Some e"
  shows "get_elected_block_header (card P) s' = Some e \<or> ballot_view s' = ballot_view (clear_intermediate_data s)"
  using assms(3)
proof cases
  case (turn t s1 st s2)
  have v: "ballot_view s1 = ballot_view s" by (rule process_view [OF turn(2)])
  have "ballot_view s2 = ballot_view s \<or> ballot_view s2 = ballot_view (clear_intermediate_data s)"
    using after_callback_view [OF turn(3)] v by (auto simp: ballot_view_def clear_intermediate_data_def)
  then show ?thesis using assms(4) ballot_view_cong(3) step_view [of st s2] turn(1) by metis
next
  case (vote p h)
  then show ?thesis using elected_stable [OF _ assms(2) _ assms(4)] bcp_reachable_ok [OF assms(1,2)] by blast
next
  case (new_round p i)
  have "get_elected_block_header (card P) s' = get_elected_block_header (card P) s"
    unfolding new_round(2)
    by (simp add: get_elected_block_header_def append_new_round_message_for_def cong del: option.case_cong_weak)
  then show ?thesis using assms(4) by simp
next
  case (commit p b)
  have "get_elected_block_header (card P) s' = get_elected_block_header (card P) s"
    unfolding commit(2) by (simp add: get_elected_block_header_def add_verified_block_def split: option.splits)
  then show ?thesis using assms(4) by simp
next
  case (user address h)
  have "ballot_view s' = ballot_view s" by (simp add: user(2) ballot_view_def append_user_block_header_for_def)
  then show ?thesis using assms(4) ballot_view_cong(3) by metis
next
  case (propose p h)
  have "ballot_view s' = ballot_view s" by (simp add: propose(2) ballot_view_def append_proposed_block_header_for_def)
  then show ?thesis using assms(4) ballot_view_cong(3) by metis
qed

text \<open>
  C8. The ballots of a server. In every reachable state the counters are the numbers of
  distinct peers heard for a round and for a header; a header is elected only by more than
  half of the peers and stays elected until the boxes are cleared, whatever arrives; and a
  block is found to be committed only when more than half of the peers have sent one and it
  carries the elected header.
\<close>

theorem bcp_ballots:
  assumes "bcp_reachable ops peers invalid s" "finite peers"
  shows "(\<forall>k. sm_total (vote_counts s) k = card (voters ops s k)) \<and>
    (\<forall>i. sm_total (new_round_votes s) i = card (round_voters s i)) \<and>
    (\<forall>e. get_elected_block_header (card peers) s = Some e \<longrightarrow>
       card peers < 2 * card (voters ops s (header_hash ops e)) \<and>
       (\<forall>cb s'. bcp_steps ops peers invalid s cb s' \<longrightarrow>
          get_elected_block_header (card peers) s' = Some e \<or>
          ballot_view s' = ballot_view (clear_intermediate_data s))) \<and>
    (\<forall>b. find_commit_block (card peers) s = Some b \<longrightarrow>
       (\<exists>e. get_elected_block_header (card peers) s = Some e \<and> same_header ops (header_of ops b) e \<and>
          committers s \<subseteq> peers \<and> card peers < 2 * card (committers s)))"
proof (intro conjI allI impI)
  have ok: "ballots_ok ops peers s" using bcp_reachable_ok [OF assms] by blast
  show "sm_total (vote_counts s) k = card (voters ops s k)" for k using ok by (simp add: ballots_ok_def)
  show "sm_total (new_round_votes s) i = card (round_voters s i)" for i using ok by (simp add: ballots_ok_def)
qed (use elected_majority [OF assms] elected_kept [OF assms] committed_elected [OF assms] in blast)+

text \<open>
  C3. Agreement. Two servers with the same peers, in any reachable states, elect the same
  header, and commit blocks with the same header, as long as no peer has sent them votes for
  different headers: any two majorities share a peer.
\<close>

theorem bcp_agreement:
  assumes "bcp_reachable ops peers invalid s" "bcp_reachable ops peers invalid t" "finite peers"
    and same: "\<forall>h h'. same_header ops h h' \<longleftrightarrow> header_hash ops h = header_hash ops h'"
    and honest: "\<forall>p h h'. sm_find (vote_box s) p = Some h \<longrightarrow> sm_find (vote_box t) p = Some h' \<longrightarrow>
      header_hash ops h = header_hash ops h'"
  shows "(get_elected_block_header (card peers) s = Some e \<longrightarrow> get_elected_block_header (card peers) t = Some e' \<longrightarrow>
      header_hash ops e = header_hash ops e') \<and>
    (find_commit_block (card peers) s = Some b \<longrightarrow> find_commit_block (card peers) t = Some b' \<longrightarrow>
      header_hash ops (header_of ops b) = header_hash ops (header_of ops b'))"
proof -
  have ok: "ballots_ok ops peers s" "ballots_ok ops peers t"
    using bcp_reachable_ok [OF assms(1,3)] bcp_reachable_ok [OF assms(2,3)] by blast+
  have agree: "header_hash ops e = header_hash ops e'"
    if "get_elected_block_header (card peers) s = Some e" "get_elected_block_header (card peers) t = Some e'" for e e'
  proof (rule header_votes.majorities_agree [of peers s t ops])
    show "card peers div 2 + 1 \<le> card {q. \<exists>v. sm_find (vote_box s) q = Some v \<and> header_hash ops v = header_hash ops e}"
      using elected_hash [OF ok(1) assms(3) that(1)] by (simp add: voters_def)
    show "card peers div 2 + 1 \<le> card {q. \<exists>v. sm_find (vote_box t) q = Some v \<and> header_hash ops v = header_hash ops e'}"
      using elected_hash [OF ok(2) assms(3) that(2)] by (simp add: voters_def)
  qed (use ok assms(3) honest in \<open>simp_all add: ballots_ok_def\<close>)
  have "header_hash ops (header_of ops b) = header_hash ops (header_of ops b')"
    if c: "find_commit_block (card peers) s = Some b" "find_commit_block (card peers) t = Some b'"
  proof -
    obtain e e' where "get_elected_block_header (card peers) s = Some e" "same_header ops (header_of ops b) e"
        "get_elected_block_header (card peers) t = Some e'" "same_header ops (header_of ops b') e'"
      using committed_elected [OF assms(1,3) c(1)] committed_elected [OF assms(2,3) c(2)] by blast
    then show ?thesis using agree [of e e'] same by simp
  qed
  then show ?thesis using agree by blast
qed

text \<open>
  Votes do not say their round: one that comes after the boxes were cleared is kept for the
  next round, where the vote of the same peer is then refused.
\<close>

lemma stale_vote:
  "vote_block_header_for ops (fst (vote_block_header_for ops (clear_intermediate_data s) p late)) p h =
     (fst (vote_block_header_for ops (clear_intermediate_data s) p late), False)"
  by (simp add: vote_block_header_for_def clear_intermediate_data_def sm_count_def sm_insert_def sm_find_def Let_def)

subsection \<open>The order of a round\<close>

lemma select_lowest_min:
  "select_lowest text p ps \<in> insert p (set ps) \<and> (\<forall>q \<in> insert p (set ps). text (snd (select_lowest text p ps)) \<le> text (snd q))"
proof (induction ps arbitrary: p)
  case (Cons q ps)
  let ?best = "if text (snd q) < text (snd p) then q else p"
  have "text (snd ?best) \<le> text (snd p) \<and> text (snd ?best) \<le> text (snd q)" by auto
  then show ?case using Cons.IH [of ?best] by (auto split: if_splits intro: order_trans)
qed simp

lemma selected_proposal:
  assumes "select_proposed_block_header ops s = Some h"
  shows "h \<in> snd ` set (proposed_block_headers s) \<and>
    (\<forall>h' \<in> snd ` set (proposed_block_headers s). hash_string ops h \<le> hash_string ops h')"
proof -
  obtain p ps where p: "proposed_block_headers s = p # ps" "h = snd (select_lowest (hash_string ops) p ps)"
    using assms by (auto simp: select_proposed_block_header_def split: list.splits)
  then show ?thesis using select_lowest_min [of "hash_string ops" p ps] by auto
qed

lemma unanimous_round:
  assumes "bcp_reachable ops P invalid s" "finite P" "new_round_start_for (card P) invalid s = Some i"
  shows "round_voters s i = P \<and> i > invalid"
proof -
  have ok: "ballots_ok ops P s" using bcp_reachable_ok [OF assms(1,2)] by blast
  have o: "sm_ok (new_round_votes s)" using ok by (simp add: ballots_ok_def boxes_ok_def)
  obtain n where n: "(i, n) \<in> set (new_round_votes s)" "card P \<le> n" "i > invalid"
    using assms(3) by (auto simp: new_round_start_for_def Let_def dest!: sm_search_Some)
  have "sm_total (new_round_votes s) i = n" using iffD2 [OF sm_find_iff [OF o] n(1)] by (simp add: sm_total_def)
  then have "card P \<le> card (round_voters s i)" using n(2) ok by (simp add: ballots_ok_def)
  moreover have "round_voters s i \<subseteq> P" using ok by (auto simp: round_voters_def ballots_ok_def)
  ultimately show ?thesis using n(3) assms(2) by (simp add: card_seteq)
qed

fun round_order ::
  "('h, 'b) header_ops \<Rightarrow> int set \<Rightarrow> nat \<Rightarrow> ('h, 'b) callback \<Rightarrow> ('h, 'b) bcp_server \<Rightarrow> ('h, 'b) bcp_server \<Rightarrow> bool" where
  "round_order ops peers invalid new_round_ready s s' \<longleftrightarrow>
     current_step s = bcp_step_waiting \<and> current_step s' = bcp_step_waiting \<and> time_context s < time_context s'"
| "round_order ops peers invalid (new_round_start i) s s' \<longleftrightarrow>
     current_step s = bcp_step_waiting \<and> current_step s' = bcp_step_proof_of_participation \<and>
     round_voters s i = peers \<and> i > invalid"
| "round_order ops peers invalid propose_start s s' \<longleftrightarrow>
     current_step s = bcp_step_proof_of_participation \<and> current_step s' = bcp_step_propose"
| "round_order ops peers invalid vote_start s s' \<longleftrightarrow>
     current_step s = bcp_step_propose \<and> current_step s' = bcp_step_vote \<and>
     (proposed_block_headers s \<noteq> [] \<longrightarrow> my_vote_header s' \<in> snd ` set (proposed_block_headers s) \<and>
        (\<forall>h \<in> snd ` set (proposed_block_headers s). hash_string ops (my_vote_header s') \<le> hash_string ops h))"
| "round_order ops peers invalid (commit_start e mine) s s' \<longleftrightarrow>
     current_step s = bcp_step_vote \<and> current_step s' = bcp_step_commit \<and>
     card peers < 2 * card (voters ops s (header_hash ops e))"
| "round_order ops peers invalid (new_block_commit b) s s' \<longleftrightarrow>
     current_step s = bcp_step_commit \<and> current_step s' = bcp_step_waiting \<and>
     card peers < 2 * card (committers s) \<and> vote_box s' = [] \<and> verified_blocks s' = [] \<and> new_round_messages s' = []"
| "round_order ops peers invalid consensus_fail s s' \<longleftrightarrow>
     current_step s \<in> {bcp_step_vote, bcp_step_commit} \<and> current_step s' = bcp_step_waiting \<and>
     vote_box s' = [] \<and> verified_blocks s' = [] \<and> new_round_messages s' = []"

inductive_cases process_turnE: "bcp_steps ops P invalid s (Some cb) s'"

lemma process_callback:
  assumes "bcp_process ops n invalid t s = (s1, Some cb, st)"
  shows "case cb of
      new_round_ready \<Rightarrow> current_step s = bcp_step_waiting \<and> st = bcp_step_waiting \<and> time_context s < time_context s1
    | new_round_start i \<Rightarrow> current_step s = bcp_step_waiting \<and> st = bcp_step_proof_of_participation \<and> s1 = s \<and>
        new_round_start_for n invalid s = Some i
    | propose_start \<Rightarrow> current_step s = bcp_step_proof_of_participation \<and> st = bcp_step_propose \<and> s1 = s
    | vote_start \<Rightarrow> current_step s = bcp_step_propose \<and> st = bcp_step_vote \<and> s1 = s
    | commit_start e mine \<Rightarrow> current_step s = bcp_step_vote \<and> st = bcp_step_commit \<and> s1 = s \<and>
        get_elected_block_header n s = Some e
    | new_block_commit b \<Rightarrow> current_step s = bcp_step_commit \<and> st = bcp_step_waiting \<and> s1 = s \<and>
        find_commit_block n s = Some b
    | consensus_fail \<Rightarrow> current_step s \<in> {bcp_step_vote, bcp_step_commit} \<and> st = bcp_step_waiting \<and> s1 = s"
  using assms by (auto simp: bcp_process_def timeline_def Let_def split: bcp_step.splits if_splits option.splits)

lemma process_quiet:
  assumes "bcp_process ops n invalid t s = (s1, None, st)"
  shows "s1 = s \<and> st = current_step s"
  using assms by (auto simp: bcp_process_def timeline_def Let_def split: bcp_step.splits if_splits option.splits)

lemma clear_fields: "vote_box (clear_intermediate_data s) = []" "verified_blocks (clear_intermediate_data s) = []"
  "new_round_messages (clear_intermediate_data s) = []"
  by (simp_all add: clear_intermediate_data_def)


subsection \<open>A round of three peers\<close>

text \<open>Headers and blocks are numbers, with the number as hash.\<close>

definition number_ops :: "(nat, nat) header_ops" where
  "number_ops = \<lparr>header_hash = (\<lambda>h. Blob [of_nat (h mod 256)]), hash_string = (\<lambda>h. [char_of h]),
     same_header = (\<lambda>h h'. h mod 256 = h' mod 256), header_of = id, with_header = (\<lambda>b h. h)\<rparr>"

definition number_state :: "int list \<Rightarrow> nat \<Rightarrow> (nat, nat) bcp_server" where
  "number_state ps h =
     (let s = fst (bcp_start True (bcp_init 0 0));
          s = fold (\<lambda>p s. fst (vote_block_header_for number_ops s p h)) ps s
      in fold (\<lambda>p s. fst (add_verified_block number_ops (card {0, 1, 2 :: int}) s p h)) ps s)"

lemma number_state_reachable:
  assumes "set ps \<subseteq> {0, 1, 2}"
  shows "bcp_reachable number_ops {0, 1, 2} 0 (number_state ps h)"
proof -
  have v: "bcp_reachable number_ops {0, 1, 2} 0 (fold (\<lambda>p s. fst (vote_block_header_for number_ops s p h)) qs s)"
    if "bcp_reachable number_ops {0, 1, 2} 0 s" "set qs \<subseteq> {0, 1, 2}" for qs s
    using that by (induction qs arbitrary: s) (auto intro: bcp_reachable.step bcp_steps.vote)
  have c: "bcp_reachable number_ops {0, 1, 2} 0
      (fold (\<lambda>p s. fst (add_verified_block number_ops (card {0, 1, 2 :: int}) s p h)) qs s)"
    if "bcp_reachable number_ops {0, 1, 2} 0 s" "set qs \<subseteq> {0, 1, 2}" for qs s
    using that by (induction qs arbitrary: s) (auto intro: bcp_reachable.step bcp_steps.commit simp del: card.insert card_insert_if)
  show ?thesis
    unfolding number_state_def Let_def using assms bcp_reachable.start by (intro c v) auto
qed

lemmas number_state_eval = number_state_def number_ops_def bcp_start_def bcp_init_def vote_block_header_for_def
  add_verified_block_def get_elected_block_header_def find_commit_block_def sm_insert_def sm_count_def sm_find_def
  count_vote_def sm_size_def Let_def

theorem bcp_ballots_witness:
  "get_elected_block_header (card {0, 1, 2 :: int}) (number_state [2, 0] 7) = Some 7 \<and>
   card {0, 1, 2 :: int} < 2 * card (voters number_ops (number_state [2, 0] 7) (header_hash number_ops 7))"
proof -
  have r: "bcp_reachable number_ops {0, 1, 2} 0 (number_state [2, 0] 7)" by (rule number_state_reachable) simp
  have e: "get_elected_block_header (card {0, 1, 2 :: int}) (number_state [2, 0] 7) = Some 7"
    by (simp add: number_state_eval)
  show ?thesis using bcp_ballots [OF r] e by simp
qed

theorem bcp_agreement_witness:
  "find_commit_block (card {0, 1, 2 :: int}) (number_state [2, 0] 7) = Some 7 \<and>
   find_commit_block (card {0, 1, 2 :: int}) (number_state [1, 0] 263) = Some 263 \<and>
   header_hash number_ops (header_of number_ops 7) = header_hash number_ops (header_of number_ops 263)"
proof -
  have r: "bcp_reachable number_ops {0, 1, 2} 0 (number_state [2, 0] 7)"
      "bcp_reachable number_ops {0, 1, 2} 0 (number_state [1, 0] 263)"
    by (rule number_state_reachable, simp)+
  have c: "find_commit_block (card {0, 1, 2 :: int}) (number_state [2, 0] 7) = Some 7"
      "find_commit_block (card {0, 1, 2 :: int}) (number_state [1, 0] 263) = Some 263"
    by (simp_all add: number_state_eval)
  have same: "\<forall>h h'. same_header number_ops h h' \<longleftrightarrow> header_hash number_ops h = header_hash number_ops h'"
    by (simp add: number_ops_def word_unat_eq_iff unsigned_of_nat take_bit_eq_mod)
  have box: "vote_box (number_state [2, 0] 7) = [(0, 7), (2, 7)]" "vote_box (number_state [1, 0] 263) = [(0, 263), (1, 263)]"
    by (simp_all add: number_state_eval)
  have honest: "\<forall>p h h'. sm_find (vote_box (number_state [2, 0] 7)) p = Some h \<longrightarrow>
      sm_find (vote_box (number_state [1, 0] 263)) p = Some h' \<longrightarrow> header_hash number_ops h = header_hash number_ops h'"
    unfolding box by (simp add: sm_find_def number_ops_def)
  have "finite {0, 1, 2 :: int}" by simp
  then show ?thesis using bcp_agreement [OF r _ same honest, of _ _ 7 263] c by simp
qed


end
