(* ===== verification/Node_Server.thy ===== *)
theory Node_Server
  imports Bcp
begin

text \<open>
  The nodes of the prototype and the manager that runs them in one process
  (tests/dev/node-server-mono/node_server.cpp and node_manager.cpp): the callbacks of the
  consensus server, the handlers of the messages between nodes, and the delivery of a
  message, which is a call of the handler of the receiver before the sender goes on. The
  chain (class CBlockChain), blocks, transactions and accounts have no source of their own
  here; what the node calls of them are the fields of \<open>node_ops\<close>.
\<close>

subsection \<open>The state\<close>

record ('h, 'b, 'c, 'a, 't) node_ops =
  hdr :: "('h, 'b) header_ops"
  current_height :: "'c \<Rightarrow> nat"
  chain_exists :: "'c \<Rightarrow> nat \<Rightarrow> bool"
  chain_block :: "'c \<Rightarrow> nat \<Rightarrow> 'b option"
  chain_hash :: "'c \<Rightarrow> nat \<Rightarrow> base_blob"
  chain_append :: "'c \<Rightarrow> 'b \<Rightarrow> 'c"
  account_address :: "'a \<Rightarrow> string"
  make_block :: "nat \<Rightarrow> base_blob \<Rightarrow> 'b"
  coinbase_for :: "'a \<Rightarrow> u64 \<Rightarrow> 't"
  add_transaction :: "'b \<Rightarrow> 't \<Rightarrow> 'b option"
  sign_block :: "'a \<Rightarrow> 'b \<Rightarrow> 'b"
  block_verify :: "'b \<Rightarrow> bool"
  wire :: "nat \<Rightarrow> 'b \<Rightarrow> 'b"
  max_block :: nat
  invalid_index :: nat

text \<open>
  \<open>wire n b\<close> is what \<open>get\<close> of a message reads back from the buffer of \<open>n\<close> bytes into
  which its constructor has serialized \<open>b\<close>. \<open>size_t\<close> has 64 bits.
\<close>

record ('h, 'b, 'c, 'a) node_server =
  peer_id :: int
  node_account :: 'a
  chain :: 'c
  bcp :: "('h, 'b) bcp_server"

type_synonym ('h, 'b, 'c, 'a) node_manager = "(int, ('h, 'b, 'c, 'a) node_server) std_map"

datatype ('h, 'b) node_message = Block_req nat | Block_ack 'b | New_round nat | Propose 'h | Vote 'h
  | Commit 'b | Verify_block 'b

text \<open>What a handler sends as its last action: nothing, an answer, or a broadcast.\<close>

datatype ('h, 'b) sends = Sends_nothing | Sends_to_sender "('h, 'b) node_message" | Sends_to_all "('h, 'b) node_message"

definition all_peer_count :: "('h, 'b, 'c, 'a) node_manager \<Rightarrow> nat" where
  "all_peer_count sys = sm_size sys"

definition get_node_server :: "('h, 'b, 'c, 'a) node_manager \<Rightarrow> int \<Rightarrow> ('h, 'b, 'c, 'a) node_server option" where
  "get_node_server sys i = (if sm_count sys i = 0 then None else sm_find sys i)"

definition put_node ::
  "('h, 'b, 'c, 'a) node_manager \<Rightarrow> int \<Rightarrow> ('h, 'b, 'c, 'a) node_server \<Rightarrow> ('h, 'b, 'c, 'a) node_manager" where
  "put_node sys i nd = map (\<lambda>(k, v). if k = i then (k, nd) else (k, v)) sys"

subsection \<open>Messages\<close>

text \<open>
  The handlers of \<open>onPeerMessage\<close>: the receiving node after the message and what it sends.
  \<open>n\<close> is the number of all peers.
\<close>

fun on_peer_message ::
  "('h, 'b, 'c, 'a, 't) node_ops \<Rightarrow> nat \<Rightarrow> int \<Rightarrow> ('h, 'b) node_message \<Rightarrow> ('h, 'b, 'c, 'a) node_server \<Rightarrow>
    ('h, 'b, 'c, 'a) node_server \<times> ('h, 'b) sends" where
  "on_peer_message ops n sender (Block_req i) nd =
     (case chain_block ops (chain nd) i of
        Some b \<Rightarrow> (nd, Sends_to_sender (Block_ack (wire ops (16 * 1024) b)))
      | None \<Rightarrow> (nd, Sends_nothing))"
| "on_peer_message ops n sender (Block_ack b) nd = (nd\<lparr>chain := chain_append ops (chain nd) b\<rparr>, Sends_nothing)"
| "on_peer_message ops n sender (New_round i) nd =
     (nd\<lparr>bcp := fst (append_new_round_message_for (bcp nd) sender i)\<rparr>, Sends_nothing)"
| "on_peer_message ops n sender (Propose h) nd =
     (nd\<lparr>bcp := fst (append_proposed_block_header_for (bcp nd) sender h)\<rparr>, Sends_nothing)"
| "on_peer_message ops n sender (Vote h) nd =
     (nd\<lparr>bcp := fst (vote_block_header_for (hdr ops) (bcp nd) sender h)\<rparr>, Sends_nothing)"
| "on_peer_message ops n sender (Commit b) nd =
     (nd\<lparr>bcp := fst (add_verified_block (hdr ops) n (bcp nd) sender b)\<rparr>, Sends_nothing)"
| "on_peer_message ops n sender (Verify_block b) nd =
     (case get_elected_block_header n (bcp nd) of
        None \<Rightarrow> (nd, Sends_nothing)
      | Some elected_header \<Rightarrow>
          if \<not> same_header (hdr ops) elected_header (header_of (hdr ops) b) then (nd, Sends_nothing)
          else if \<not> block_verify ops b then (nd, Sends_nothing)
          else (nd, Sends_to_all (Commit (wire ops (32 * 1024 + 1) b))))"

text \<open>The messages that can be answered by another one.\<close>

fun message_rank :: "('h, 'b) node_message \<Rightarrow> nat" where
  "message_rank (Block_req i) = 1"
| "message_rank (Verify_block b) = 1"
| "message_rank _ = 0"

lemma answer_rank:
  "on_peer_message ops n sender msg nd = (nd', Sends_to_sender msg') \<Longrightarrow> message_rank msg' < message_rank msg"
  "on_peer_message ops n sender msg nd = (nd', Sends_to_all msg') \<Longrightarrow> message_rank msg' < message_rank msg"
  by (cases msg; auto split: option.splits if_splits)+

text \<open>
  Delivery: \<open>sendall\<close> visits the nodes in the order of the map, the sender included, and
  each of them handles the message, with all it sends in turn, before the next one.
\<close>

function sendall ::
    "('h, 'b, 'c, 'a, 't) node_ops \<Rightarrow> int \<Rightarrow> ('h, 'b) node_message \<Rightarrow> int list \<Rightarrow>
      ('h, 'b, 'c, 'a) node_manager \<Rightarrow> ('h, 'b, 'c, 'a) node_manager"
  and deliver ::
    "('h, 'b, 'c, 'a, 't) node_ops \<Rightarrow> int \<Rightarrow> ('h, 'b) node_message \<Rightarrow> int \<Rightarrow>
      ('h, 'b, 'c, 'a) node_manager \<Rightarrow> ('h, 'b, 'c, 'a) node_manager" where
  "sendall ops sender msg [] sys = sys"
| "sendall ops sender msg (i # is) sys = sendall ops sender msg is (deliver ops sender msg i sys)"
| "deliver ops sender msg i sys =
     (case get_node_server sys i of
        None \<Rightarrow> sys
      | Some nd \<Rightarrow>
          (case on_peer_message ops (all_peer_count sys) sender msg nd of
             (nd', Sends_nothing) \<Rightarrow> put_node sys i nd'
           | (nd', Sends_to_sender msg') \<Rightarrow> deliver ops i msg' sender (put_node sys i nd')
           | (nd', Sends_to_all msg') \<Rightarrow> sendall ops i msg' (map fst sys) (put_node sys i nd')))"
  by pat_completeness auto
termination
  by (relation "inv_image (less_than <*lex*> less_than)
        (\<lambda>x. case x of Inl (ops, sender, msg, is, sys) \<Rightarrow> (message_rank msg, length is)
                     | Inr (ops, sender, msg, i, sys) \<Rightarrow> (message_rank msg, 0))")
    (auto dest: answer_rank [OF sym])

definition sendall_from ::
  "('h, 'b, 'c, 'a, 't) node_ops \<Rightarrow> ('h, 'b, 'c, 'a) node_manager \<Rightarrow> int \<Rightarrow> ('h, 'b) node_message \<Rightarrow>
    ('h, 'b, 'c, 'a) node_manager" where
  "sendall_from ops sys sender msg = sendall ops sender msg (map fst sys) sys"

subsection \<open>Callbacks\<close>

definition block_reward :: u64 where
  "block_reward = 100"

definition create_block_for ::
  "('h, 'b, 'c, 'a, 't) node_ops \<Rightarrow> ('h, 'b, 'c, 'a) node_server \<Rightarrow> nat \<Rightarrow> 'b option" where
  "create_block_for ops nd i =
     (if chain_exists ops (chain nd) i then None
      else let prevBlockHash = chain_hash ops (chain nd) ((i + (2 ^ 64 - 1)) mod 2 ^ 64);
               new_block = make_block ops i prevBlockHash;
               tx_coinbase = coinbase_for ops (node_account nd) block_reward
           in add_transaction ops new_block tx_coinbase)"

text \<open>The node after a callback and what it broadcasts.\<close>

fun on_callback ::
  "('h, 'b, 'c, 'a, 't) node_ops \<Rightarrow> ('h, 'b) callback \<Rightarrow> ('h, 'b, 'c, 'a) node_server \<Rightarrow>
    ('h, 'b, 'c, 'a) node_server \<times> ('h, 'b) node_message option" where
  "on_callback ops new_round_ready nd = (nd, Some (New_round ((current_height ops (chain nd) + 1) mod 2 ^ 64)))"
| "on_callback ops (new_round_start block_round) nd =
     (case create_block_for ops nd block_round of
        None \<Rightarrow> (nd, None)
      | Some b \<Rightarrow>
          let new_block = sign_block ops (node_account nd) b;
              s = (bcp nd)\<lparr>candidate_block := new_block\<rparr>
          in (nd\<lparr>bcp := fst (append_user_block_header_for s (account_address ops (node_account nd))
                             (header_of (hdr ops) new_block))\<rparr>, None))"
| "on_callback ops propose_start nd =
     (case select_user_block_header (hdr ops) (bcp nd) of
        None \<Rightarrow> (nd, None)
      | Some (user_address, user_header) \<Rightarrow>
          (nd\<lparr>bcp := (bcp nd)\<lparr>candidate_block := with_header (hdr ops) (candidate_block (bcp nd)) user_header\<rparr>\<rparr>,
           Some (Propose user_header)))"
| "on_callback ops vote_start nd =
     (case select_proposed_block_header (hdr ops) (bcp nd) of
        None \<Rightarrow> (nd, None)
      | Some vote_header \<Rightarrow> (nd\<lparr>bcp := (bcp nd)\<lparr>my_vote_header := vote_header\<rparr>\<rparr>, Some (Vote vote_header)))"
| "on_callback ops (commit_start elected_header my_votes) nd =
     (nd, if my_votes then Some (Verify_block (wire ops (max_block ops + 1) (candidate_block (bcp nd)))) else None)"
| "on_callback ops (new_block_commit b) nd =
     (nd\<lparr>chain := chain_append ops (chain nd) b, bcp := clear_intermediate_data (bcp nd)\<rparr>, None)"
| "on_callback ops consensus_fail nd = (nd\<lparr>bcp := clear_intermediate_data (bcp nd)\<rparr>, None)"

subsection \<open>Running the nodes\<close>

definition set_step :: "('h, 'b, 'c, 'a) node_manager \<Rightarrow> int \<Rightarrow> bcp_step \<Rightarrow> ('h, 'b, 'c, 'a) node_manager" where
  "set_step sys i st =
     (case get_node_server sys i of
        None \<Rightarrow> sys
      | Some nd \<Rightarrow> put_node sys i (nd\<lparr>bcp := (bcp nd)\<lparr>current_step := st\<rparr>\<rparr>))"

text \<open>
  One call of \<open>main\<close> of a node whose clock shows \<open>t\<close>: the callback and all that its
  broadcast sets off come before the step of the round changes.
\<close>

definition node_turn ::
  "('h, 'b, 'c, 'a, 't) node_ops \<Rightarrow> ('h, 'b, 'c, 'a) node_manager \<Rightarrow> int \<Rightarrow> nat \<Rightarrow> ('h, 'b, 'c, 'a) node_manager" where
  "node_turn ops sys i t =
     (case get_node_server sys i of
        None \<Rightarrow> sys
      | Some nd \<Rightarrow>
          (case bcp_process (hdr ops) (all_peer_count sys) (invalid_index ops) t (bcp nd) of
             (s, None, st) \<Rightarrow> sys
           | (s, Some cb, st) \<Rightarrow>
               let (nd, sent) = on_callback ops cb (nd\<lparr>bcp := s\<rparr>);
                   sys = put_node sys i nd;
                   sys = (case sent of None \<Rightarrow> sys | Some msg \<Rightarrow> sendall_from ops sys i msg)
               in set_step sys i st))"

text \<open>One pass of the loop of \<open>node_manager::main\<close>; every node reads its own clock.\<close>

definition manager_pass ::
  "('h, 'b, 'c, 'a, 't) node_ops \<Rightarrow> (int \<Rightarrow> nat) \<Rightarrow> ('h, 'b, 'c, 'a) node_manager \<Rightarrow> ('h, 'b, 'c, 'a) node_manager" where
  "manager_pass ops clock sys = foldl (\<lambda>sys i. node_turn ops sys i (clock i)) sys (map fst sys)"

definition manager_main ::
  "('h, 'b, 'c, 'a, 't) node_ops \<Rightarrow> (int \<Rightarrow> nat) list \<Rightarrow> ('h, 'b, 'c, 'a) node_manager \<Rightarrow> ('h, 'b, 'c, 'a) node_manager" where
  "manager_main ops clocks sys = fold (manager_pass ops) clocks sys"

text \<open>
  Starting: a node whose clock does not synchronize keeps its default account and stays
  silent; the manager does not look at the result.
\<close>

definition start_server ::
  "bool \<Rightarrow> 'a \<Rightarrow> ('h, 'b, 'c, 'a) node_server \<Rightarrow> ('h, 'b, 'c, 'a) node_server \<times> bool" where
  "start_server synced acct nd =
     (case bcp_start synced (bcp nd) of
        (s, False) \<Rightarrow> (nd\<lparr>bcp := s\<rparr>, False)
      | (s, True) \<Rightarrow> (nd\<lparr>bcp := s, node_account := acct\<rparr>, True))"

definition node_new :: "'h \<Rightarrow> 'b \<Rightarrow> 'c \<Rightarrow> 'a \<Rightarrow> int \<Rightarrow> ('h, 'b, 'c, 'a) node_server" where
  "node_new h b c a i = \<lparr>peer_id = i, node_account = a, chain = c, bcp = bcp_init h b\<rparr>"

definition manager_start ::
  "'h \<Rightarrow> 'b \<Rightarrow> 'c \<Rightarrow> 'a \<Rightarrow> (nat \<Rightarrow> bool) \<Rightarrow> (nat \<Rightarrow> 'a) \<Rightarrow> nat \<Rightarrow> ('h, 'b, 'c, 'a) node_manager" where
  "manager_start h b c a synced accounts node_count =
     foldl (\<lambda>sys i. sm_insert sys (int i) (fst (start_server (synced i) (accounts i) (node_new h b c a (int i)))))
       [] [0..<node_count]"

subsection \<open>Every node runs the consensus server\<close>

text \<open>
  A property of the consensus servers that arriving messages keep, seen across the whole
  system while a message is delivered.
\<close>

definition nodes_ok ::
  "int set \<Rightarrow> (int \<Rightarrow> ('h, 'b) bcp_server \<Rightarrow> bool) \<Rightarrow> ('h, 'b, 'c, 'a) node_manager \<Rightarrow> bool" where
  "nodes_ok P ok sys \<longleftrightarrow> sm_ok sys \<and> set (map fst sys) = P \<and> (\<forall>(k, nd) \<in> set sys. ok k (bcp nd))"

lemma put_node_keys [simp]: "map fst (put_node sys i nd) = map fst sys"
  by (induction sys) (auto simp: put_node_def)

lemma set_put_node: "(k, v) \<in> set (put_node sys i nd) \<Longrightarrow> (k = i \<and> v = nd) \<or> (k \<noteq> i \<and> (k, v) \<in> set sys)"
  by (auto simp: put_node_def split: if_splits)

lemma nodes_ok_put:
  assumes "nodes_ok P ok sys" "\<And>k nd. (k, nd) \<in> set sys \<Longrightarrow> k \<noteq> i \<Longrightarrow> ok k (bcp nd) \<Longrightarrow> ok' k (bcp nd)" "ok' i (bcp nd')"
  shows "nodes_ok P ok' (put_node sys i nd')"
  using assms set_put_node by (fastforce simp: nodes_ok_def sm_ok_def simp del: set_map)

lemma nodes_ok_get:
  assumes "nodes_ok P ok sys" "get_node_server sys i = Some nd"
  shows "i \<in> P" "ok i (bcp nd)"
  using assms sm_find_iff [of sys i nd] by (force simp: nodes_ok_def get_node_server_def split: if_splits)+

lemma nodes_ok_count: "nodes_ok P ok sys \<Longrightarrow> all_peer_count sys = card P"
  using distinct_card [OF sm_distinct [of sys]] by (auto simp: nodes_ok_def all_peer_count_def sm_size_def)

locale peer_closed =
  fixes ops :: "('h, 'b, 'c, 'a, 't) node_ops" and P :: "int set" and ok :: "int \<Rightarrow> ('h, 'b) bcp_server \<Rightarrow> bool"
  assumes new_round: "ok k s \<Longrightarrow> p \<in> P \<Longrightarrow> ok k (fst (append_new_round_message_for s p i))"
    and propose: "ok k s \<Longrightarrow> p \<in> P \<Longrightarrow> ok k (fst (append_proposed_block_header_for s p h))"
    and vote: "ok k s \<Longrightarrow> p \<in> P \<Longrightarrow> ok k (fst (vote_block_header_for (hdr ops) s p h))"
    and commit: "ok k s \<Longrightarrow> p \<in> P \<Longrightarrow> ok k (fst (add_verified_block (hdr ops) (card P) s p b))"
begin

lemma message_keeps:
  "ok k (bcp nd) \<Longrightarrow> p \<in> P \<Longrightarrow> on_peer_message ops (card P) p msg nd = (nd', sent) \<Longrightarrow> ok k (bcp nd')"
  by (cases msg) (auto simp: new_round propose vote commit split: option.splits if_splits)

lemma delivery_keeps:
  "ops' = ops \<Longrightarrow> nodes_ok P ok sys \<Longrightarrow> p \<in> P \<Longrightarrow> set is \<subseteq> P \<Longrightarrow> nodes_ok P ok (sendall ops' p msg is sys)"
  "ops' = ops \<Longrightarrow> nodes_ok P ok sys \<Longrightarrow> p \<in> P \<Longrightarrow> i \<in> P \<Longrightarrow> nodes_ok P ok (deliver ops' p msg i sys)"
proof (induction ops' p msg "is" sys and ops' p msg i sys rule: sendall_deliver.induct)
  case (3 ops' sender msg i sys)
  show ?case
  proof (cases "get_node_server sys i")
    case (Some nd)
    obtain nd' sent where m: "on_peer_message ops' (all_peer_count sys) sender msg nd = (nd', sent)" by fastforce
    have "ok i (bcp nd')"
      using message_keeps [OF nodes_ok_get(2) [OF 3(4) Some] 3(5)] m 3(3) nodes_ok_count [OF 3(4)] by simp
    then have p: "nodes_ok P ok (put_node sys i nd')" by (intro nodes_ok_put [OF 3(4)])
    have "set (map fst sys) \<subseteq> P" using 3(4) by (simp add: nodes_ok_def)
    then show ?thesis
      using 3(1) [OF Some m [symmetric] _ 3(3) p 3(6) 3(5)] 3(2) [OF Some m [symmetric] _ 3(3) p 3(6)] p Some m
      by (cases sent) simp_all
  qed (use 3 in simp)
qed simp_all

end

text \<open>
  While node \<open>i\<close> is in a callback its step is still the old one; the messages that arrive
  meanwhile do not depend on it.
\<close>

definition ahead :: "int \<Rightarrow> bcp_step \<Rightarrow> int \<Rightarrow> ('h, 'b) bcp_server \<Rightarrow> ('h, 'b) bcp_server" where
  "ahead i st k s = (if k = i then s\<lparr>current_step := st\<rparr> else s)"

lemma ahead_messages:
  "ahead i st k (fst (append_new_round_message_for s p r)) = fst (append_new_round_message_for (ahead i st k s) p r)"
  "ahead i st k (fst (append_proposed_block_header_for s p h)) = fst (append_proposed_block_header_for (ahead i st k s) p h)"
  "ahead i st k (fst (vote_block_header_for ops s p h)) = fst (vote_block_header_for ops (ahead i st k s) p h)"
  "ahead i st k (fst (add_verified_block ops n s p b)) = fst (add_verified_block ops n (ahead i st k s) p b)"
  by (auto simp: ahead_def append_new_round_message_for_def append_proposed_block_header_for_def vote_block_header_for_def
      Let_def add_verified_block_def get_elected_block_header_def split: option.splits prod.splits)

interpretation stepping: peer_closed ops P
    "\<lambda>k s. bcp_reachable (hdr ops) P (invalid_index ops) (ahead i st k s)" for ops P i st
  by unfold_locales
    (simp_all add: ahead_messages bcp_reachable.step [OF _ bcp_steps.new_round] bcp_reachable.step [OF _ bcp_steps.propose]
      bcp_reachable.step [OF _ bcp_steps.vote] bcp_reachable.step [OF _ bcp_steps.commit])

abbreviation system_reachable ::
  "('h, 'b, 'c, 'a, 't) node_ops \<Rightarrow> int set \<Rightarrow> ('h, 'b, 'c, 'a) node_manager \<Rightarrow> bool" where
  "system_reachable ops P \<equiv> nodes_ok P (\<lambda>k. bcp_reachable (hdr ops) P (invalid_index ops))"

lemma on_callback_after:
  "on_callback ops cb nd = (nd', sent) \<Longrightarrow> after_callback (hdr ops) (Some cb) (bcp nd) (bcp nd')"
  by (cases cb) (auto simp: Let_def intro: after_callback.intros split: option.splits)

lemma node_turn_reachable:
  assumes "system_reachable ops P sys"
  shows "system_reachable ops P (node_turn ops sys i t)"
proof (cases "get_node_server sys i")
  case (Some nd)
  note nd = nodes_ok_get [OF assms Some]
  obtain s cb st where pr: "bcp_process (hdr ops) (all_peer_count sys) (invalid_index ops) t (bcp nd) = (s, cb, st)"
    by (cases "bcp_process (hdr ops) (all_peer_count sys) (invalid_index ops) t (bcp nd)") auto
  show ?thesis
  proof (cases cb)
    case (Some c)
    obtain nd' sent where cbk: "on_callback ops c (nd\<lparr>bcp := s\<rparr>) = (nd', sent)" by fastforce
    define sys1 where "sys1 = put_node sys i nd'"
    define sys2 where "sys2 = (case sent of None \<Rightarrow> sys1 | Some msg \<Rightarrow> sendall_from ops sys1 i msg)"
    let ?ok = "\<lambda>k s. bcp_reachable (hdr ops) P (invalid_index ops) (ahead i st k s)"
    have "bcp_steps (hdr ops) P (invalid_index ops) (bcp nd) cb ((bcp nd')\<lparr>current_step := st\<rparr>)"
      using pr on_callback_after [OF cbk] Some nodes_ok_count [OF assms] by (intro bcp_steps.turn) simp_all
    then have "?ok i (bcp nd')" using nd(2) by (simp add: ahead_def bcp_reachable.step)
    then have 1: "nodes_ok P ?ok sys1"
      unfolding sys1_def by (intro nodes_ok_put [OF assms]) (simp_all add: ahead_def)
    then have "set (map fst sys1) \<subseteq> P" by (simp add: nodes_ok_def)
    then have 2: "nodes_ok P ?ok sys2"
      using 1 stepping.delivery_keeps(1) [OF refl 1 nd(1)]
      by (simp add: sys2_def sendall_from_def split: option.split)
    have final: "system_reachable ops P (set_step sys2 i st)"
    proof (cases "get_node_server sys2 i")
      case None
      have "i \<in> set (map fst sys2)" using 2 nd(1) by (simp add: nodes_ok_def)
      then show ?thesis using None sm_find_iff [of sys2 i]
        by (auto simp: get_node_server_def sm_count_0 sm_find_def map_of_eq_None_iff split: if_splits)
    next
      case (Some nd2)
      show ?thesis
        using nodes_ok_get(2) [OF 2 Some] unfolding set_step_def Some option.case
        by (intro nodes_ok_put [OF 2]) (simp_all add: ahead_def)
    qed
    have "node_turn ops sys i t = set_step sys2 i st"
      using \<open>get_node_server sys i = Some nd\<close> Some pr cbk
      unfolding node_turn_def sys2_def sys1_def by (simp add: Let_def)
    then show ?thesis using final by simp
  qed (use Some pr assms in \<open>simp add: node_turn_def\<close>)
qed (use assms in \<open>simp add: node_turn_def\<close>)

lemma manager_pass_reachable: "system_reachable ops P sys \<Longrightarrow> system_reachable ops P (manager_pass ops clock sys)"
proof -
  have "system_reachable ops P sys \<Longrightarrow> system_reachable ops P (foldl (\<lambda>sys i. node_turn ops sys i (clock i)) sys is)" for "is"
    by (induction "is" arbitrary: sys) (simp_all add: node_turn_reachable)
  then show "system_reachable ops P sys \<Longrightarrow> ?thesis" by (simp add: manager_pass_def)
qed

lemma manager_main_reachable: "system_reachable ops P sys \<Longrightarrow> system_reachable ops P (manager_main ops clocks sys)"
  unfolding manager_main_def by (induction clocks arbitrary: sys) (simp_all add: manager_pass_reachable)

text \<open>The manager starts with every server waiting, or still silent when its clock did not synchronize.\<close>

lemma start_server_bcp: "bcp (fst (start_server synced acct nd)) = fst (bcp_start synced (bcp nd))"
  by (simp add: start_server_def bcp_start_def)

lemma manager_start_nodes:
  "sm_ok (manager_start h b c a synced accounts n) \<and> fst ` set (manager_start h b c a synced accounts n) = int ` {..<n} \<and>
    (\<forall>(k, nd) \<in> set (manager_start h b c a synced accounts n).
       \<exists>i < n. k = int i \<and> nd = fst (start_server (synced i) (accounts i) (node_new h b c a (int i))))"
proof (induction n)
  case (Suc n)
  let ?sys = "manager_start h b c a synced accounts n"
  let ?nd = "fst (start_server (synced n) (accounts n) (node_new h b c a (int n)))"
  have s: "manager_start h b c a synced accounts (Suc n) = sm_insert ?sys (int n) ?nd"
    by (simp add: manager_start_def)
  have below: "\<forall>x \<in> set ?sys. fst x < int n" using Suc by (force simp: image_iff)
  have "manager_start h b c a synced accounts (Suc n) = ?sys @ [(int n, ?nd)]"
    unfolding s by (rule sm_insert_snoc [OF below])
  then show ?case
    using Suc below by (fastforce simp: sm_ok_def sorted_wrt_append lessThan_Suc less_Suc_eq)
qed (simp add: manager_start_def)

lemma manager_start_reachable:
  "system_reachable ops (int ` {..<n}) (manager_start h b c a synced accounts n)"
proof -
  have "bcp nd = fst (bcp_start (synced i) (bcp_init h b))"
    if "nd = fst (start_server (synced i) (accounts i) (node_new h b c a (int i)))" for nd i
    using that by (simp add: start_server_bcp node_new_def)
  then show ?thesis
    using manager_start_nodes [of h b c a synced accounts n] bcp_reachable.start
    by (fastforce simp: nodes_ok_def)
qed

subsection \<open>A system as a function of its nodes\<close>

definition mk_system :: "int list \<Rightarrow> (int \<Rightarrow> ('h, 'b, 'c, 'a) node_server) \<Rightarrow> ('h, 'b, 'c, 'a) node_manager" where
  "mk_system ks N = map (\<lambda>k. (k, N k)) ks"

lemma mk_keys [simp]: "map fst (mk_system ks N) = ks"
  by (simp add: mk_system_def comp_def)

lemma mk_count [simp]: "all_peer_count (mk_system ks N) = length ks"
  by (simp add: all_peer_count_def sm_size_def mk_system_def)

lemma mk_cong: "(\<And>k. k \<in> set ks \<Longrightarrow> N k = N' k) \<Longrightarrow> mk_system ks N = mk_system ks N'"
  by (simp add: mk_system_def)

lemma mk_get [simp]: "i \<in> set ks \<Longrightarrow> get_node_server (mk_system ks N) i = Some (N i)"
  by (simp add: get_node_server_def sm_count_0 sm_find_def mk_system_def map_of_map_restrict restrict_map_def)

lemma mk_put [simp]: "put_node (mk_system ks N) i nd = mk_system ks (N(i := nd))"
  by (auto simp: put_node_def mk_system_def)

lemma system_mk: "sm_ok sys \<Longrightarrow> \<exists>N. sys = mk_system (map fst sys) N \<and> (\<forall>(k, nd) \<in> set sys. N k = nd)"
proof -
  assume o: "sm_ok sys"
  let ?N = "\<lambda>k. the (sm_find sys k)"
  have "\<forall>(k, nd) \<in> set sys. ?N k = nd" using sm_find_iff [OF o] by force
  then show ?thesis by (intro exI [of _ ?N]) (auto simp: mk_system_def comp_def intro!: map_idI [symmetric])
qed

text \<open>A message that no handler answers reaches every node, once.\<close>

lemma unanswered: "message_rank msg = 0 \<Longrightarrow> snd (on_peer_message ops n p msg nd) = Sends_nothing"
  by (cases msg) simp_all

lemma deliver_mk:
  "message_rank msg = 0 \<Longrightarrow> i \<in> set ks \<Longrightarrow>
     deliver ops p msg i (mk_system ks N) = mk_system ks (N(i := fst (on_peer_message ops (length ks) p msg (N i))))"
  using unanswered [of msg ops "length ks" p "N i"]
  by (cases "on_peer_message ops (length ks) p msg (N i)") simp

lemma sendall_mk:
  "message_rank msg = 0 \<Longrightarrow> set is \<subseteq> set ks \<Longrightarrow> distinct is \<Longrightarrow>
     sendall ops p msg is (mk_system ks N) =
     mk_system ks (\<lambda>j. if j \<in> set is then fst (on_peer_message ops (length ks) p msg (N j)) else N j)"
proof (induction "is" arbitrary: N)
  case (Cons i "is")
  then show ?case by (auto simp: deliver_mk simp del: deliver.simps intro!: mk_cong)
qed simp

lemma sendall_from_mk:
  "message_rank msg = 0 \<Longrightarrow> distinct ks \<Longrightarrow>
     sendall_from ops (mk_system ks N) p msg = mk_system ks (\<lambda>j. fst (on_peer_message ops (length ks) p msg (N j)))"
  by (auto simp: sendall_from_def sendall_mk intro!: mk_cong)

lemma set_step_mk [simp]:
  "i \<in> set ks \<Longrightarrow> set_step (mk_system ks N) i st = mk_system ks (N(i := (N i)\<lparr>bcp := (bcp (N i))\<lparr>current_step := st\<rparr>\<rparr>))"
  by (simp add: set_step_def)

lemma node_turn_silent:
  assumes "i \<in> set ks" "bcp_process (hdr ops) (length ks) (invalid_index ops) t (bcp (N i)) = (s, Some cb, st)"
    and "on_callback ops cb ((N i)\<lparr>bcp := s\<rparr>) = (nd, None)"
  shows "node_turn ops (mk_system ks N) i t = mk_system ks (N(i := nd\<lparr>bcp := (bcp nd)\<lparr>current_step := st\<rparr>\<rparr>))"
  using assms by (simp add: node_turn_def)

lemma node_turn_idle:
  assumes "i \<in> set ks" "bcp_process (hdr ops) (length ks) (invalid_index ops) t (bcp (N i)) = (s, None, st)"
  shows "node_turn ops (mk_system ks N) i t = mk_system ks N"
  using assms by (simp add: node_turn_def)

lemma node_turn_broadcast:
  assumes "i \<in> set ks" "distinct ks" "message_rank msg = 0"
    and "bcp_process (hdr ops) (length ks) (invalid_index ops) t (bcp (N i)) = (s, Some cb, st)"
    and "on_callback ops cb ((N i)\<lparr>bcp := s\<rparr>) = (nd, Some msg)"
  shows "node_turn ops (mk_system ks N) i t = mk_system ks
    (\<lambda>j. let nd' = fst (on_peer_message ops (length ks) i msg (if j = i then nd else N j))
         in if j = i then nd'\<lparr>bcp := (bcp nd')\<lparr>current_step := st\<rparr>\<rparr> else nd')"
  using assms by (auto simp: node_turn_def sendall_from_mk Let_def intro!: mk_cong)

text \<open>A pass of the manager, one node after another.\<close>

lemma manager_pass_mk:
  assumes "mk_system ks (F []) = sys"
    and "\<And>p i rest. ks = p @ i # rest \<Longrightarrow> node_turn ops (mk_system ks (F p)) i (clock i) = mk_system ks (F (p @ [i]))"
  shows "manager_pass ops clock sys = mk_system ks (F ks)"
proof -
  have "foldl (\<lambda>sys i. node_turn ops sys i (clock i)) (mk_system ks (F p)) qs = mk_system ks (F ks)" if "ks = p @ qs" for p qs
    using that
  proof (induction qs arbitrary: p)
    case (Cons i qs)
    then show ?case using assms(2) [of p i qs] by simp
  qed simp
  from this [of "[]" ks] show ?thesis using assms(1) by (auto simp: manager_pass_def)
qed

end
