(* ===== verification/Node_Round.thy ===== *)
theory Node_Round
  imports Node_Server Chain
begin

text \<open>
  A round of the nodes of one manager, from the clocks to the chains: when the clocks agree
  on the phases, every node appends the same block, the one with the lowest header.
\<close>

subsection \<open>A round that succeeds\<close>

text \<open>
  Six passes of the manager, each with the state of the system when the nodes of \<open>p\<close> have
  had their turn and the others not.
\<close>

lemma sorted_prefix:
  fixes ks :: "int list"
  assumes "sorted_wrt (<) ks" "ks = p @ i # rest"
  shows "(\<forall>x \<in> set p. x < i) \<and> i \<notin> set p \<and> i \<in> set ks \<and> distinct ks"
proof -
  have "distinct ks" using assms(1) by (simp add: strict_sorted_iff)
  then show ?thesis using assms by (auto simp: sorted_wrt_append)
qed

lemma sm_insert_peer: "\<forall>x \<in> set p. x < i \<Longrightarrow> sm_insert (map (\<lambda>k. (k, f k)) p) i (f i) = map (\<lambda>k. (k, f k)) (p @ [i])"
  by (simp add: sm_insert_snoc)

lemma sm_count_peer: "\<forall>x \<in> set p. x < (i :: int) \<Longrightarrow> sm_count (map (\<lambda>k. (k, f k)) p) i = 0"
  by (force simp: sm_count_0 sm_find_def map_of_eq_None_iff)

definition tally :: "'k \<Rightarrow> int list \<Rightarrow> ('k, nat) std_map" where
  "tally r p = (if p = [] then [] else [(r, length p)])"

lemma count_vote_tally: "count_vote (tally r p) r = tally r (p @ [i])"
  by (simp add: tally_def count_vote_def sm_count_def sm_find_def)

lemma new_round_peer:
  assumes "new_round_messages s = map (\<lambda>k. (k, r)) p" "new_round_votes s = tally r p" "\<forall>x \<in> set p. x < i"
  shows "append_new_round_message_for s i r =
    (s\<lparr>new_round_messages := map (\<lambda>k. (k, r)) (p @ [i]), new_round_votes := tally r (p @ [i])\<rparr>, True)"
  using assms sm_insert_peer [of p i "\<lambda>k. r"] sm_count_peer [of p i "\<lambda>k. r"]
  by (simp add: append_new_round_message_for_def count_vote_tally [of _ _ i])

lemma pass_ready:
  fixes N :: "int \<Rightarrow> ('h, 'b, 'c, 'a) node_server"
  assumes ks: "sorted_wrt (<) ks"
    and quiet: "\<And>j. j \<in> set ks \<Longrightarrow> current_step (bcp (N j)) = bcp_step_waiting \<and> new_round_messages (bcp (N j)) = [] \<and>
      new_round_votes (bcp (N j)) = [] \<and> (current_height ops (chain (N j)) + 1) mod 2 ^ 64 = r"
    and clock: "\<And>j. j \<in> set ks \<Longrightarrow> clock j mod bcp_block_time < bcp_timeout_proof_of_participation \<and>
      time_context (bcp (N j)) < clock j div bcp_block_time"
  shows "manager_pass ops clock (mk_system ks N) = mk_system ks (\<lambda>j. (N j)\<lparr>bcp := (bcp (N j))
    \<lparr>current_step := bcp_step_waiting, time_context := clock j div bcp_block_time,
     new_round_messages := map (\<lambda>k. (k, r)) ks, new_round_votes := [(r, length ks)]\<rparr>\<rparr>)"
proof -
  define F where "F p j = (N j)\<lparr>bcp := (bcp (N j))
    \<lparr>current_step := bcp_step_waiting,
     time_context := if j \<in> set p then clock j div bcp_block_time else time_context (bcp (N j)),
     new_round_messages := map (\<lambda>k. (k, r)) p, new_round_votes := tally r p\<rparr>\<rparr>" for p j
  have "manager_pass ops clock (mk_system ks N) = mk_system ks (F ks)"
  proof (rule manager_pass_mk)
    show "mk_system ks (F []) = mk_system ks N"
      by (rule mk_cong) (simp add: F_def quiet tally_def)
  next
    fix p i rest assume split: "ks = p @ i # rest"
    note i = sorted_prefix [OF ks split]
    show "node_turn ops (mk_system ks (F p)) i (clock i) = mk_system ks (F (p @ [i]))"
    proof (subst node_turn_broadcast [OF _ _ _ _ on_callback.simps(1)])
      show "bcp_process (hdr ops) (length ks) (invalid_index ops) (clock i) (bcp (F p i)) =
          ((bcp (F p i))\<lparr>time_context := clock i div bcp_block_time\<rparr>, Some new_round_ready, bcp_step_waiting)"
        using i clock [of i] quiet [of i] by (simp add: bcp_process_def timeline_def F_def)
      have r: "(current_height ops (chain (F p i)) + 1) mod 2 ^ 64 = r" using i quiet [of i] by (simp add: F_def)
      show "mk_system ks (\<lambda>j. let nd' = fst (on_peer_message ops (length ks) i
            (New_round ((current_height ops (chain (F p i\<lparr>bcp := (bcp (F p i))\<lparr>time_context := clock i div bcp_block_time\<rparr>\<rparr>)) + 1) mod 2 ^ 64))
            (if j = i then F p i\<lparr>bcp := (bcp (F p i))\<lparr>time_context := clock i div bcp_block_time\<rparr>\<rparr> else F p j))
          in if j = i then nd'\<lparr>bcp := (bcp nd')\<lparr>current_step := bcp_step_waiting\<rparr>\<rparr> else nd') = mk_system ks (F (p @ [i]))"
        using i by (intro mk_cong) (auto simp: F_def Let_def r [unfolded F_def, simplified] new_round_peer)
    qed (use i in simp_all)
  qed
  then show ?thesis
    using ks by (cases "ks = []") (auto simp: F_def tally_def intro!: mk_cong)
qed

lemma pass_start:
  fixes N :: "int \<Rightarrow> ('h, 'b, 'c, 'a) node_server"
  assumes ks: "sorted_wrt (<) ks"
    and ready: "\<And>j. j \<in> set ks \<Longrightarrow> current_step (bcp (N j)) = bcp_step_waiting \<and>
      new_round_votes (bcp (N j)) = [(r, length ks)] \<and> user_block_headers (bcp (N j)) = []"
    and made: "\<And>j. j \<in> set ks \<Longrightarrow>
      map_option (sign_block ops (node_account (N j))) (create_block_for ops (N j) r) = Some (cand j)"
    and r: "r > invalid_index ops"
    and clock: "\<And>j. j \<in> set ks \<Longrightarrow> clock j mod bcp_block_time < bcp_timeout_proof_of_participation \<and>
      clock j div bcp_block_time \<le> time_context (bcp (N j))"
  shows "manager_pass ops clock (mk_system ks N) = mk_system ks (\<lambda>j. (N j)\<lparr>bcp := (bcp (N j))
    \<lparr>current_step := bcp_step_proof_of_participation, candidate_block := cand j,
     user_block_headers := [(account_address ops (node_account (N j)), header_of (hdr ops) (cand j))]\<rparr>\<rparr>)"
proof -
  define F where "F p j = (if j \<in> set p then (N j)\<lparr>bcp := (bcp (N j))
    \<lparr>current_step := bcp_step_proof_of_participation, candidate_block := cand j,
     user_block_headers := [(account_address ops (node_account (N j)), header_of (hdr ops) (cand j))]\<rparr>\<rparr> else N j)" for p j
  have "manager_pass ops clock (mk_system ks N) = mk_system ks (F ks)"
  proof (rule manager_pass_mk)
    fix p i rest assume split: "ks = p @ i # rest"
    note i = sorted_prefix [OF ks split]
    have F: "F p i = N i" using i by (simp add: F_def)
    obtain draft where d: "create_block_for ops (N i) r = Some draft" "sign_block ops (node_account (N i)) draft = cand i"
      using made [of i] i by auto
    have "create_block_for ops (N i\<lparr>bcp := s\<rparr>) r = create_block_for ops (N i) r" for s
      by (simp add: create_block_for_def)
    then have cb: "on_callback ops (new_round_start r) (N i\<lparr>bcp := bcp (N i)\<rparr>) =
        ((N i)\<lparr>bcp := (bcp (N i))\<lparr>candidate_block := cand i,
          user_block_headers := [(account_address ops (node_account (N i)), header_of (hdr ops) (cand i))]\<rparr>\<rparr>, None)"
      using d ready [of i] i
      by (simp add: append_user_block_header_for_def sm_count_def sm_find_def sm_insert_def Let_def)
    have pr: "bcp_process (hdr ops) (length ks) (invalid_index ops) (clock i) (bcp (N i)) =
        (bcp (N i), Some (new_round_start r), bcp_step_proof_of_participation)"
      using i clock [of i] ready [of i] r by (simp add: bcp_process_def timeline_def new_round_start_for_def)
    show "node_turn ops (mk_system ks (F p)) i (clock i) = mk_system ks (F (p @ [i]))"
      using i node_turn_silent [of i ks ops "clock i" "F p", unfolded F, OF _ pr cb]
      by (auto simp: F_def intro!: mk_cong)
  qed (simp add: F_def)
  then show ?thesis
    by (auto simp: F_def intro!: mk_cong)
qed

lemma propose_peer:
  "proposed_block_headers s = map (\<lambda>k. (k, f k)) p \<Longrightarrow> \<forall>x \<in> set p. x < i \<Longrightarrow>
    append_proposed_block_header_for s i (f i) = (s\<lparr>proposed_block_headers := map (\<lambda>k. (k, f k)) (p @ [i])\<rparr>, True)"
  using sm_insert_peer [of p i f] sm_count_peer [of p i f] by (simp add: append_proposed_block_header_for_def)

lemma pass_propose:
  fixes N :: "int \<Rightarrow> ('h, 'b, 'c, 'a) node_server"
  assumes ks: "sorted_wrt (<) ks"
    and started: "\<And>j. j \<in> set ks \<Longrightarrow> current_step (bcp (N j)) = bcp_step_proof_of_participation \<and>
      candidate_block (bcp (N j)) = cand j \<and> user_block_headers (bcp (N j)) = [(a j, H j)] \<and>
      proposed_block_headers (bcp (N j)) = [] \<and> with_header (hdr ops) (cand j) (H j) = cand j"
    and clock: "\<And>j. j \<in> set ks \<Longrightarrow> bcp_timeout_proof_of_participation < clock j mod bcp_block_time"
  shows "manager_pass ops clock (mk_system ks N) = mk_system ks (\<lambda>j. (N j)\<lparr>bcp := (bcp (N j))
    \<lparr>current_step := bcp_step_propose, candidate_block := cand j, proposed_block_headers := map (\<lambda>k. (k, H k)) ks\<rparr>\<rparr>)"
proof -
  define F where "F p j = (N j)\<lparr>bcp := (bcp (N j))
    \<lparr>current_step := if j \<in> set p then bcp_step_propose else bcp_step_proof_of_participation,
     candidate_block := cand j, proposed_block_headers := map (\<lambda>k. (k, H k)) p\<rparr>\<rparr>" for p j
  have "manager_pass ops clock (mk_system ks N) = mk_system ks (F ks)"
  proof (rule manager_pass_mk)
    show "mk_system ks (F []) = mk_system ks N"
      by (rule mk_cong) (simp add: F_def started)
  next
    fix p i rest assume split: "ks = p @ i # rest"
    note i = sorted_prefix [OF ks split]
    have cb: "on_callback ops propose_start (F p i\<lparr>bcp := bcp (F p i)\<rparr>) = (F p i, Some (Propose (H i)))"
      using i started [of i] by (simp add: F_def select_user_block_header_def)
    have pr: "bcp_process (hdr ops) (length ks) (invalid_index ops) (clock i) (bcp (F p i)) =
        (bcp (F p i), Some propose_start, bcp_step_propose)"
      using i clock [of i] by (simp add: bcp_process_def timeline_def F_def)
    show "node_turn ops (mk_system ks (F p)) i (clock i) = mk_system ks (F (p @ [i]))"
      using i node_turn_broadcast [of i ks "Propose (H i)" ops "clock i" "F p", OF _ _ _ pr cb]
      by (auto simp: F_def Let_def propose_peer [where f = H] intro!: mk_cong)
  qed
  then show ?thesis
    by (auto simp: F_def intro!: mk_cong)
qed

lemma vote_peer:
  assumes "vote_box s = map (\<lambda>k. (k, h)) p" "vote_headers s = (if p = [] then [] else [(header_hash ops h, h)])"
    and "vote_counts s = tally (header_hash ops h) p" "\<forall>x \<in> set p. x < i"
  shows "vote_block_header_for ops s i h = (s\<lparr>vote_box := map (\<lambda>k. (k, h)) (p @ [i]),
    vote_headers := [(header_hash ops h, h)], vote_counts := tally (header_hash ops h) (p @ [i])\<rparr>, True)"
  using assms sm_insert_peer [of p i "\<lambda>k. h"] sm_count_peer [of p i "\<lambda>k. h"]
  by (auto simp: vote_block_header_for_def Let_def count_vote_tally [of _ _ i] sm_count_def sm_find_def sm_insert_def)

lemma pass_vote:
  fixes N :: "int \<Rightarrow> ('h, 'b, 'c, 'a) node_server"
  assumes ks: "sorted_wrt (<) ks"
    and proposed: "\<And>j. j \<in> set ks \<Longrightarrow> current_step (bcp (N j)) = bcp_step_propose \<and>
      select_proposed_block_header (hdr ops) (bcp (N j)) = Some h \<and>
      vote_box (bcp (N j)) = [] \<and> vote_headers (bcp (N j)) = [] \<and> vote_counts (bcp (N j)) = []"
    and clock: "\<And>j. j \<in> set ks \<Longrightarrow> bcp_timeout_propose < clock j mod bcp_block_time"
  shows "manager_pass ops clock (mk_system ks N) = mk_system ks (\<lambda>j. (N j)\<lparr>bcp := (bcp (N j))
    \<lparr>current_step := bcp_step_vote, my_vote_header := h, vote_box := map (\<lambda>k. (k, h)) ks,
     vote_headers := [(header_hash (hdr ops) h, h)], vote_counts := [(header_hash (hdr ops) h, length ks)]\<rparr>\<rparr>)"
proof -
  define F where "F p j = (N j)\<lparr>bcp := (bcp (N j))
    \<lparr>current_step := if j \<in> set p then bcp_step_vote else bcp_step_propose,
     my_vote_header := if j \<in> set p then h else my_vote_header (bcp (N j)), vote_box := map (\<lambda>k. (k, h)) p,
     vote_headers := if p = [] then [] else [(header_hash (hdr ops) h, h)],
     vote_counts := tally (header_hash (hdr ops) h) p\<rparr>\<rparr>" for p j
  have "manager_pass ops clock (mk_system ks N) = mk_system ks (F ks)"
  proof (rule manager_pass_mk)
    show "mk_system ks (F []) = mk_system ks N"
      by (rule mk_cong) (simp add: F_def proposed tally_def)
  next
    fix p i rest assume split: "ks = p @ i # rest"
    note i = sorted_prefix [OF ks split]
    have "select_proposed_block_header (hdr ops) (bcp (F p i)) = Some h"
      using proposed [of i] i by (simp add: F_def select_proposed_block_header_def)
    then have cb: "on_callback ops vote_start (F p i\<lparr>bcp := bcp (F p i)\<rparr>) =
        (F p i\<lparr>bcp := (bcp (F p i))\<lparr>my_vote_header := h\<rparr>\<rparr>, Some (Vote h))"
      by simp
    have pr: "bcp_process (hdr ops) (length ks) (invalid_index ops) (clock i) (bcp (F p i)) =
        (bcp (F p i), Some vote_start, bcp_step_vote)"
      using i clock [of i] by (simp add: bcp_process_def timeline_def F_def)
    show "node_turn ops (mk_system ks (F p)) i (clock i) = mk_system ks (F (p @ [i]))"
      using i node_turn_broadcast [of i ks "Vote h" ops "clock i" "F p", OF _ _ _ pr cb]
      by (auto simp: F_def Let_def vote_peer [where p = p] intro!: mk_cong)
  qed
  then show ?thesis
    by (cases "ks = []") (auto simp: F_def tally_def intro!: mk_cong)
qed

text \<open>The first owner of the elected header has its block committed by every node; later ones change nothing.\<close>

lemma elected_only:
  "vote_headers s = [(k, h)] \<Longrightarrow> vote_counts s = [(k, n)] \<Longrightarrow> n > 0 \<Longrightarrow> get_elected_block_header n s = Some h"
  by (simp add: get_elected_block_header_def sm_find_def)

lemma find_append: "List.find P (xs @ ys) = (case List.find P xs of None \<Rightarrow> List.find P ys | Some x \<Rightarrow> Some x)"
  by (induction xs) simp_all

lemma elected_cong:
  "vote_headers s = vote_headers s' \<Longrightarrow> vote_counts s = vote_counts s' \<Longrightarrow>
    get_elected_block_header n s = get_elected_block_header n s'"
  by (simp add: get_elected_block_header_def cong del: option.case_cong_weak)

lemma verified_peer:
  assumes "verified_blocks s = map (\<lambda>k. (k, b)) p" "\<forall>x \<in> set p. x < i"
    and "get_elected_block_header n s = Some h" "same_header ops (header_of ops b) h"
  shows "add_verified_block ops n s i b = (s\<lparr>verified_blocks := map (\<lambda>k. (k, b)) (p @ [i]), commit_block := b\<rparr>, True)"
  using assms sm_insert_peer [of p i "\<lambda>k. b"] sm_count_peer [of p i "\<lambda>k. b"]
  by (simp add: add_verified_block_def)

lemma verified_again:
  "verified_blocks s = map (\<lambda>k. (k, b')) ks \<Longrightarrow> i \<in> set ks \<Longrightarrow> add_verified_block ops n s i b = (s, False)"
  by (simp add: add_verified_block_def sm_count_pos sm_find_def map_of_map_restrict restrict_map_def)

lemma verify_all:
  fixes M :: "int \<Rightarrow> ('h, 'b, 'c, 'a) node_server"
  assumes ks: "sorted_wrt (<) ks" "ks = p @ qs"
    and elected: "\<And>j. j \<in> set ks \<Longrightarrow> get_elected_block_header (length ks) (bcp (M j)) = Some h"
    and b: "same_header (hdr ops) h (header_of (hdr ops) b)" "same_header (hdr ops) (header_of (hdr ops) b) h"
      "block_verify ops b" "wire ops (32 * 1024 + 1) b = b"
    and unverified: "\<And>j. j \<in> set ks \<Longrightarrow> verified_blocks (bcp (M j)) = []"
    and G: "\<And>p j. G p j = (M j)\<lparr>bcp := (bcp (M j))\<lparr>verified_blocks := map (\<lambda>k. (k, b)) p,
      commit_block := if p = [] then commit_block (bcp (M j)) else b\<rparr>\<rparr>"
  shows "sendall ops i (Verify_block b) qs (mk_system ks (G p)) = mk_system ks (G ks)"
  using ks(2)
proof (induction qs arbitrary: p)
  case (Cons q qs)
  note q = sorted_prefix [OF ks(1) Cons.prems]
  have el: "get_elected_block_header (length ks) (bcp (G p j)) = Some h" if "j \<in> set ks" for j
    using elected [OF that] elected_cong [of "bcp (G p j)" "bcp (M j)" "length ks"] by (simp add: G)
  have "deliver ops i (Verify_block b) q (mk_system ks (G p)) = sendall_from ops (mk_system ks (G p)) q (Commit b)"
    using q el [of q] b by (simp add: sendall_from_def)
  also have "\<dots> = mk_system ks (G (p @ [q]))"
  proof -
    have "fst (on_peer_message ops (length ks) q (Commit b) (G p j)) = G (p @ [q]) j" if "j \<in> set ks" for j
      using verified_peer [of "bcp (G p j)" b p q "length ks" h "hdr ops"] q el [OF that] b(2) by (simp add: G)
    then show ?thesis using q by (auto simp: sendall_from_mk intro!: mk_cong)
  qed
  finally show ?case using Cons by simp
qed simp

lemma verify_again:
  assumes "distinct ks" "set qs \<subseteq> set ks"
    and elected: "\<And>j. j \<in> set ks \<Longrightarrow> get_elected_block_header (length ks) (bcp (M j)) = Some h"
    and b: "same_header (hdr ops) h (header_of (hdr ops) b)" "block_verify ops b" "wire ops (32 * 1024 + 1) b = b"
    and verified: "\<And>j. j \<in> set ks \<Longrightarrow> verified_blocks (bcp (M j)) = map (\<lambda>k. (k, b')) ks"
  shows "sendall ops i (Verify_block b) qs (mk_system ks M) = mk_system ks M"
  using assms(2)
proof (induction qs)
  case (Cons q qs)
  have "deliver ops i (Verify_block b) q (mk_system ks M) = sendall_from ops (mk_system ks M) q (Commit b)"
    using Cons.prems elected [of q] b by (simp add: sendall_from_def)
  also have "\<dots> = mk_system ks M"
    using Cons.prems assms(1) verified_again [OF verified]
    by (auto simp: sendall_from_mk intro!: mk_cong)
  finally show ?case using Cons by simp
qed simp

lemma pass_elect:
  fixes N :: "int \<Rightarrow> ('h, 'b, 'c, 'a) node_server"
  assumes ks: "sorted_wrt (<) ks"
    and voted: "\<And>j. j \<in> set ks \<Longrightarrow> current_step (bcp (N j)) = bcp_step_vote \<and> candidate_block (bcp (N j)) = cand j \<and>
      verified_blocks (bcp (N j)) = [] \<and> get_elected_block_header (length ks) (bcp (N j)) = Some h"
    and owner: "\<And>j. owner j \<longleftrightarrow> same_header (hdr ops) h (header_of (hdr ops) (cand j))"
    and good: "\<And>j. j \<in> set ks \<Longrightarrow> owner j \<Longrightarrow> same_header (hdr ops) (header_of (hdr ops) (cand j)) h \<and>
      block_verify ops (cand j) \<and> wire ops (32 * 1024 + 1) (cand j) = cand j \<and> wire ops (max_block ops + 1) (cand j) = cand j"
    and clock: "\<And>j. j \<in> set ks \<Longrightarrow> clock j mod bcp_block_time \<le> bcp_timeout_vote"
    and first: "List.find owner ks = Some k0"
  shows "manager_pass ops clock (mk_system ks N) = mk_system ks (\<lambda>j. (N j)\<lparr>bcp := (bcp (N j))
    \<lparr>current_step := bcp_step_commit, verified_blocks := map (\<lambda>k. (k, cand k0)) ks, commit_block := cand k0\<rparr>\<rparr>)"
proof -
  define F where "F p j = (N j)\<lparr>bcp := (bcp (N j))
    \<lparr>current_step := if j \<in> set p then bcp_step_commit else bcp_step_vote,
     verified_blocks := (case List.find owner p of None \<Rightarrow> [] | Some w \<Rightarrow> map (\<lambda>k. (k, cand w)) ks),
     commit_block := (case List.find owner p of None \<Rightarrow> commit_block (bcp (N j)) | Some w \<Rightarrow> cand w)\<rparr>\<rparr>" for p j
  have "manager_pass ops clock (mk_system ks N) = mk_system ks (F ks)"
  proof (rule manager_pass_mk)
    show "mk_system ks (F []) = mk_system ks N"
      by (rule mk_cong) (simp add: F_def voted)
  next
    fix p i rest assume split: "ks = p @ i # rest"
    note i = sorted_prefix [OF ks split]
    have el: "get_elected_block_header (length ks) (bcp (F p j)) = Some h" if "j \<in> set ks" for j
      using voted [OF that] elected_cong [of "bcp (F p j)" "bcp (N j)" "length ks"] by (simp add: F_def)
    have pr: "bcp_process (hdr ops) (length ks) (invalid_index ops) (clock i) (bcp (F p i)) =
        (bcp (F p i), Some (commit_start h (owner i)), bcp_step_commit)"
      using i clock [of i] voted [of i] el [of i] owner by (simp add: bcp_process_def timeline_def F_def)
    show "node_turn ops (mk_system ks (F p)) i (clock i) = mk_system ks (F (p @ [i]))"
    proof (cases "owner i")
      case False
      have cb: "on_callback ops (commit_start h (owner i)) (F p i\<lparr>bcp := bcp (F p i)\<rparr>) = (F p i, None)"
        using False by simp
      show ?thesis
        using i False node_turn_silent [of i ks ops "clock i" "F p", OF _ pr cb]
        by (auto simp: F_def find_append intro!: mk_cong split: option.splits)
    next
      case True
      have g: "same_header (hdr ops) h (header_of (hdr ops) (cand i))" "same_header (hdr ops) (header_of (hdr ops) (cand i)) h"
          "block_verify ops (cand i)" "wire ops (32 * 1024 + 1) (cand i) = cand i" "wire ops (max_block ops + 1) (cand i) = cand i"
        using True owner good [of i] i by auto
      have member: "i \<notin> set p" "i \<in> set ks" "ks \<noteq> []" using i by auto
      have c: "candidate_block (bcp (F p i)) = cand i" using i voted [of i] by (simp add: F_def)
      have turn: "node_turn ops (mk_system ks (F p)) i (clock i) =
          set_step (sendall ops i (Verify_block (cand i)) ks (mk_system ks (F p))) i bcp_step_commit"
        using i True pr c g(5) by (simp add: node_turn_def sendall_from_def)
      show ?thesis
      proof (cases "List.find owner p")
        case None
        define G where "G q j = (F p j)\<lparr>bcp := (bcp (F p j))\<lparr>verified_blocks := map (\<lambda>k. (k, cand i)) q,
          commit_block := if q = [] then commit_block (bcp (F p j)) else cand i\<rparr>\<rparr>" for q j
        have "mk_system ks (G []) = mk_system ks (F p)" by (rule mk_cong) (simp add: G_def F_def None)
        moreover have "sendall ops i (Verify_block (cand i)) ks (mk_system ks (G [])) = mk_system ks (G ks)"
          by (rule verify_all [OF ks _ el g(1-4) _ G_def]) (simp_all add: F_def None)
        ultimately have "node_turn ops (mk_system ks (F p)) i (clock i) = set_step (mk_system ks (G ks)) i bcp_step_commit"
          using turn by metis
        also have "\<dots> = mk_system ks ((G ks)(i := (G ks i)\<lparr>bcp := (bcp (G ks i))\<lparr>current_step := bcp_step_commit\<rparr>\<rparr>))"
          using i by simp
        also have "\<dots> = mk_system ks (F (p @ [i]))"
          by (rule mk_cong) (simp add: G_def F_def find_append None True member)
        finally show ?thesis .
      next
        case (Some w)
        have "sendall ops i (Verify_block (cand i)) ks (mk_system ks (F p)) = mk_system ks (F p)"
          using i by (intro verify_again [where b' = "cand w", OF _ _ el g(1,3,4)]) (simp_all add: F_def Some)
        then have "node_turn ops (mk_system ks (F p)) i (clock i) = set_step (mk_system ks (F p)) i bcp_step_commit"
          using turn by metis
        also have "\<dots> = mk_system ks ((F p)(i := (F p i)\<lparr>bcp := (bcp (F p i))\<lparr>current_step := bcp_step_commit\<rparr>\<rparr>))"
          using i by simp
        also have "\<dots> = mk_system ks (F (p @ [i]))"
          by (rule mk_cong) (simp add: F_def find_append Some member)
        finally show ?thesis .
      qed
    qed
  qed
  then show ?thesis
    by (auto simp: F_def first intro!: mk_cong)
qed

lemma pass_commit:
  fixes N :: "int \<Rightarrow> ('h, 'b, 'c, 'a) node_server"
  assumes ks: "sorted_wrt (<) ks" "ks \<noteq> []"
    and committed: "\<And>j. j \<in> set ks \<Longrightarrow> current_step (bcp (N j)) = bcp_step_commit \<and>
      verified_blocks (bcp (N j)) = map (\<lambda>k. (k, b)) ks \<and> commit_block (bcp (N j)) = b"
    and clock: "\<And>j. j \<in> set ks \<Longrightarrow> bcp_timeout_proof_of_participation \<le> clock j mod bcp_block_time"
  shows "manager_pass ops clock (mk_system ks N) = mk_system ks (\<lambda>j. (N j)\<lparr>chain := chain_append ops (chain (N j)) b,
    bcp := (clear_intermediate_data (bcp (N j)))\<lparr>current_step := bcp_step_waiting\<rparr>\<rparr>)"
proof -
  define F where "F p j = (if j \<in> set p then (N j)\<lparr>chain := chain_append ops (chain (N j)) b,
    bcp := (clear_intermediate_data (bcp (N j)))\<lparr>current_step := bcp_step_waiting\<rparr>\<rparr> else N j)" for p j
  have "manager_pass ops clock (mk_system ks N) = mk_system ks (F ks)"
  proof (rule manager_pass_mk)
    fix p i rest assume split: "ks = p @ i # rest"
    note i = sorted_prefix [OF ks(1) split]
    have F: "F p i = N i" using i by (simp add: F_def)
    have "length ks > 0" using ks(2) by simp
    then have "length ks div 2 + 1 \<le> length ks" by linarith
    then have pr: "bcp_process (hdr ops) (length ks) (invalid_index ops) (clock i) (bcp (N i)) =
        (bcp (N i), Some (new_block_commit b), bcp_step_waiting)"
      using i clock [of i] committed [of i] by (simp add: bcp_process_def timeline_def find_commit_block_def sm_size_def)
    show "node_turn ops (mk_system ks (F p)) i (clock i) = mk_system ks (F (p @ [i]))"
      using i node_turn_silent [of i ks ops "clock i" "F p", unfolded F, OF _ pr on_callback.simps(6)]
      by (auto simp: F_def intro!: mk_cong)
  qed (simp add: F_def)
  then show ?thesis
    by (auto simp: F_def intro!: mk_cong)
qed

text \<open>
  Between the passes the manager turns many times; a turn in which no node has anything to
  do changes nothing.
\<close>

lemma passes_idle:
  assumes "\<And>clock j. clock \<in> set clocks \<Longrightarrow> j \<in> set ks \<Longrightarrow>
      current_step (bcp (N j)) = bcp_step_proof_of_participation \<and> clock j mod bcp_block_time \<le> bcp_timeout_proof_of_participation \<or>
      current_step (bcp (N j)) = bcp_step_propose \<and> clock j mod bcp_block_time \<le> bcp_timeout_propose"
  shows "manager_main ops clocks (mk_system ks N) = mk_system ks N"
proof -
  have "manager_pass ops clock (mk_system ks N) = mk_system ks N" if c: "clock \<in> set clocks" for clock
  proof (rule manager_pass_mk [where F = "\<lambda>_. N"])
    fix p i rest assume "ks = p @ i # rest"
    then have i: "i \<in> set ks" by simp
    have "bcp_process (hdr ops) (length ks) (invalid_index ops) (clock i) (bcp (N i)) = (bcp (N i), None, current_step (bcp (N i)))"
      using assms [OF c i] by (auto simp: bcp_process_def timeline_def)
    then show "node_turn ops (mk_system ks N) i (clock i) = mk_system ks N" using i by (intro node_turn_idle)
  qed simp
  then show ?thesis unfolding manager_main_def by (induction clocks) simp_all
qed

text \<open>The laws of the headers and blocks that the round relies on, for the blocks the nodes create.\<close>

definition header_laws :: "('h, 'b) header_ops \<Rightarrow> bool" where
  "header_laws ops \<longleftrightarrow> (\<forall>h. same_header ops h h) \<and>
     (\<forall>h h'. same_header ops h h' \<longrightarrow> same_header ops h' h \<and> hash_string ops h = hash_string ops h') \<and>
     (\<forall>b. with_header ops b (header_of ops b) = b)"

definition good_block :: "('h, 'b, 'c, 'a, 't) node_ops \<Rightarrow> 'b \<Rightarrow> bool" where
  "good_block ops b \<longleftrightarrow> block_verify ops b \<and> wire ops (32 * 1024 + 1) b = b \<and> wire ops (max_block ops + 1) b = b"

lemma lowest_header:
  assumes "ks \<noteq> []" "proposed_block_headers s = map (\<lambda>k. (k, H k)) ks"
  shows "\<exists>k \<in> set ks. select_proposed_block_header ops s = Some (H k) \<and>
    (\<forall>j \<in> set ks. hash_string ops (H k) \<le> hash_string ops (H j))"
proof -
  have "select_proposed_block_header ops s \<noteq> None"
    using assms by (auto simp: select_proposed_block_header_def split: list.splits)
  then obtain h where h: "select_proposed_block_header ops s = Some h" by blast
  show ?thesis using selected_proposal [OF h] h assms(2) by auto
qed

text \<open>A quiet system: every node waits with empty boxes at the same height, and can create its block.\<close>

definition round_ready ::
  "('h, 'b, 'c, 'a, 't) node_ops \<Rightarrow> ('h, 'b, 'c, 'a) node_manager \<Rightarrow> nat \<Rightarrow> (int \<Rightarrow> 'b) \<Rightarrow> bool" where
  "round_ready ops sys r cand \<longleftrightarrow> sm_ok sys \<and> sys \<noteq> [] \<and> invalid_index ops < r \<and>
     (\<forall>(k, nd) \<in> set sys. current_step (bcp nd) = bcp_step_waiting \<and> clear_intermediate_data (bcp nd) = bcp nd \<and>
        (current_height ops (chain nd) + 1) mod 2 ^ 64 = r \<and>
        map_option (sign_block ops (node_account nd)) (create_block_for ops nd r) = Some (cand k) \<and> good_block ops (cand k))"

text \<open>The clocks of a round: passes in the order of the phases, with any number of waiting ones between.\<close>

definition round_clocks :: "int set \<Rightarrow> (int \<Rightarrow> nat) \<Rightarrow> (int \<Rightarrow> nat) list \<Rightarrow> bool" where
  "round_clocks P first clocks \<longleftrightarrow>
     (\<exists>start wait1 propose wait2 vote elect commit.
        clocks = [first, start] @ wait1 @ [propose] @ wait2 @ [vote, elect, commit] \<and>
        (\<forall>k \<in> P.
           first k mod bcp_block_time < bcp_timeout_proof_of_participation \<and>
           start k div bcp_block_time \<le> first k div bcp_block_time \<and> start k mod bcp_block_time < bcp_timeout_proof_of_participation \<and>
           (\<forall>c \<in> set wait1. c k mod bcp_block_time \<le> bcp_timeout_proof_of_participation) \<and>
           bcp_timeout_proof_of_participation < propose k mod bcp_block_time \<and>
           (\<forall>c \<in> set wait2. c k mod bcp_block_time \<le> bcp_timeout_propose) \<and>
           bcp_timeout_propose < vote k mod bcp_block_time \<and>
           elect k mod bcp_block_time \<le> bcp_timeout_vote \<and>
           bcp_timeout_proof_of_participation \<le> commit k mod bcp_block_time))"

definition round_due :: "('h, 'b, 'c, 'a) node_manager \<Rightarrow> (int \<Rightarrow> nat) \<Rightarrow> bool" where
  "round_due sys first \<longleftrightarrow> (\<forall>(k, nd) \<in> set sys. time_context (bcp nd) < first k div bcp_block_time)"

text \<open>What the round leaves of a node: the chain with the block \<open>b\<close>, and a server that waits.\<close>

definition round_done ::
  "('h, 'b, 'c, 'a, 't) node_ops \<Rightarrow> 'b \<Rightarrow> nat \<Rightarrow> ('h, 'b, 'c, 'a) node_server \<Rightarrow> ('h, 'b, 'c, 'a) node_server \<Rightarrow> bool" where
  "round_done ops b context nd nd' \<longleftrightarrow>
     chain nd' = chain_append ops (chain nd) b \<and> node_account nd' = node_account nd \<and> peer_id nd' = peer_id nd \<and>
     current_step (bcp nd') = bcp_step_waiting \<and> clear_intermediate_data (bcp nd') = bcp nd' \<and> time_context (bcp nd') = context"

lemma cleared_boxes:
  "clear_intermediate_data s = s \<Longrightarrow> new_round_messages s = [] \<and> new_round_votes s = [] \<and> user_block_headers s = [] \<and>
    proposed_block_headers s = [] \<and> vote_box s = [] \<and> vote_headers s = [] \<and> vote_counts s = [] \<and> verified_blocks s = []"
  by (cases s) (simp add: clear_intermediate_data_def)

lemma clear_twice: "clear_intermediate_data ((clear_intermediate_data s)\<lparr>current_step := st\<rparr>) = (clear_intermediate_data s)\<lparr>current_step := st\<rparr>"
  by (simp add: clear_intermediate_data_def)

lemma manager_main_append: "manager_main ops (xs @ ys) sys = manager_main ops ys (manager_main ops xs sys)"
  by (simp add: manager_main_def)

lemma manager_main_Cons: "manager_main ops (x # xs) sys = manager_main ops xs (manager_pass ops x sys)"
  by (simp add: manager_main_def)

text \<open>The first half of the round: every node knows every proposal.\<close>

lemma round_proposals:
  fixes N :: "int \<Rightarrow> ('h, 'b, 'c, 'a) node_server"
  assumes ks: "sorted_wrt (<) ks" and r: "invalid_index ops < r" and laws: "header_laws (hdr ops)"
    and quiet: "\<And>j. j \<in> set ks \<Longrightarrow> current_step (bcp (N j)) = bcp_step_waiting \<and> clear_intermediate_data (bcp (N j)) = bcp (N j) \<and>
      (current_height ops (chain (N j)) + 1) mod 2 ^ 64 = r"
    and made: "\<And>j. j \<in> set ks \<Longrightarrow> map_option (sign_block ops (node_account (N j))) (create_block_for ops (N j) r) = Some (cand j)"
    and first: "\<And>j. j \<in> set ks \<Longrightarrow> first j mod bcp_block_time < bcp_timeout_proof_of_participation \<and>
      time_context (bcp (N j)) < first j div bcp_block_time"
    and start: "\<And>j. j \<in> set ks \<Longrightarrow> start j mod bcp_block_time < bcp_timeout_proof_of_participation \<and>
      start j div bcp_block_time \<le> first j div bcp_block_time"
    and wait1: "\<And>c j. c \<in> set wait1 \<Longrightarrow> j \<in> set ks \<Longrightarrow> c j mod bcp_block_time \<le> bcp_timeout_proof_of_participation"
    and propose: "\<And>j. j \<in> set ks \<Longrightarrow> bcp_timeout_proof_of_participation < propose j mod bcp_block_time"
  shows "\<exists>N'. manager_main ops ([first, start] @ wait1 @ [propose]) (mk_system ks N) = mk_system ks N' \<and>
    (\<forall>j \<in> set ks. current_step (bcp (N' j)) = bcp_step_propose \<and> candidate_block (bcp (N' j)) = cand j \<and>
       proposed_block_headers (bcp (N' j)) = map (\<lambda>k. (k, header_of (hdr ops) (cand k))) ks \<and>
       vote_box (bcp (N' j)) = [] \<and> vote_headers (bcp (N' j)) = [] \<and> vote_counts (bcp (N' j)) = [] \<and>
       verified_blocks (bcp (N' j)) = [] \<and> time_context (bcp (N' j)) = first j div bcp_block_time \<and>
       chain (N' j) = chain (N j) \<and> node_account (N' j) = node_account (N j) \<and> peer_id (N' j) = peer_id (N j))"
proof -
  let ?H = "\<lambda>k. header_of (hdr ops) (cand k)"
  have boxes: "new_round_messages (bcp (N j)) = []" "new_round_votes (bcp (N j)) = []" "user_block_headers (bcp (N j)) = []"
      "proposed_block_headers (bcp (N j)) = []" "vote_box (bcp (N j)) = []" "vote_headers (bcp (N j)) = []"
      "vote_counts (bcp (N j)) = []" "verified_blocks (bcp (N j)) = []" if "j \<in> set ks" for j
    using cleared_boxes [of "bcp (N j)"] quiet [OF that] by simp_all
  define N1 where "N1 = (\<lambda>j. (N j)\<lparr>bcp := (bcp (N j))\<lparr>current_step := bcp_step_waiting, time_context := first j div bcp_block_time,
     new_round_messages := map (\<lambda>k. (k, r)) ks, new_round_votes := [(r, length ks)]\<rparr>\<rparr>)"
  have 1: "manager_pass ops first (mk_system ks N) = mk_system ks N1"
    unfolding N1_def by (rule pass_ready [OF ks]) (use quiet in \<open>simp_all add: boxes first\<close>)
  have made1: "create_block_for ops (N1 j) r = create_block_for ops (N j) r" "node_account (N1 j) = node_account (N j)" for j
    by (simp_all add: N1_def create_block_for_def)
  define N2 where "N2 = (\<lambda>j. (N1 j)\<lparr>bcp := (bcp (N1 j))\<lparr>current_step := bcp_step_proof_of_participation,
     candidate_block := cand j, user_block_headers := [(account_address ops (node_account (N1 j)), ?H j)]\<rparr>\<rparr>)"
  have 2: "manager_pass ops start (mk_system ks N1) = mk_system ks N2"
    unfolding N2_def
    by (rule pass_start [OF ks]) (use made r start boxes in \<open>simp_all only: made1\<close>, simp_all add: N1_def)
  define N3 where "N3 = (\<lambda>j. (N2 j)\<lparr>bcp := (bcp (N2 j))\<lparr>current_step := bcp_step_propose, candidate_block := cand j,
     proposed_block_headers := map (\<lambda>k. (k, ?H k)) ks\<rparr>\<rparr>)"
  have w: "manager_main ops wait1 (mk_system ks N2) = mk_system ks N2"
    by (rule passes_idle) (simp add: N2_def wait1)
  have 3: "manager_pass ops propose (mk_system ks N2) = mk_system ks N3"
    unfolding N3_def
    by (rule pass_propose [OF ks, where a = "\<lambda>j. account_address ops (node_account (N j))"])
      (use laws in \<open>simp_all add: N2_def N1_def boxes propose header_laws_def\<close>)
  have "manager_main ops ([first, start] @ wait1 @ [propose]) (mk_system ks N) = mk_system ks N3"
    by (simp add: manager_main_append manager_main_Cons 1 2 3 w) (simp add: manager_main_def)
  then show ?thesis
    by (intro exI [of _ N3]) (simp add: N3_def N2_def N1_def boxes)
qed

text \<open>The second half: all vote for the lowest proposal and commit the block of its owner.\<close>

lemma round_decision:
  fixes N :: "int \<Rightarrow> ('h, 'b, 'c, 'a) node_server"
  assumes ks: "sorted_wrt (<) ks" "ks \<noteq> []" and laws: "header_laws (hdr ops)"
    and good: "\<And>j. j \<in> set ks \<Longrightarrow> good_block ops (cand j)"
    and proposed: "\<And>j. j \<in> set ks \<Longrightarrow> current_step (bcp (N j)) = bcp_step_propose \<and> candidate_block (bcp (N j)) = cand j \<and>
       proposed_block_headers (bcp (N j)) = map (\<lambda>k. (k, header_of (hdr ops) (cand k))) ks \<and>
       vote_box (bcp (N j)) = [] \<and> vote_headers (bcp (N j)) = [] \<and> vote_counts (bcp (N j)) = [] \<and> verified_blocks (bcp (N j)) = []"
    and wait2: "\<And>c j. c \<in> set wait2 \<Longrightarrow> j \<in> set ks \<Longrightarrow> c j mod bcp_block_time \<le> bcp_timeout_propose"
    and vote: "\<And>j. j \<in> set ks \<Longrightarrow> bcp_timeout_propose < vote j mod bcp_block_time"
    and elect: "\<And>j. j \<in> set ks \<Longrightarrow> elect j mod bcp_block_time \<le> bcp_timeout_vote"
    and commit: "\<And>j. j \<in> set ks \<Longrightarrow> bcp_timeout_proof_of_participation \<le> commit j mod bcp_block_time"
  shows "\<exists>w \<in> set ks. (\<forall>k \<in> set ks. hash_string (hdr ops) (header_of (hdr ops) (cand w)) \<le> hash_string (hdr ops) (header_of (hdr ops) (cand k))) \<and>
    (\<exists>N'. manager_main ops (wait2 @ [vote, elect, commit]) (mk_system ks N) = mk_system ks N' \<and>
       (\<forall>j \<in> set ks. round_done ops (cand w) (time_context (bcp (N j))) (N j) (N' j)))"
proof -
  let ?H = "\<lambda>k. header_of (hdr ops) (cand k)"
  have "\<exists>l \<in> set ks. (\<forall>k \<in> set ks. hash_string (hdr ops) (?H l) \<le> hash_string (hdr ops) (?H k)) \<and>
      (\<forall>j \<in> set ks. select_proposed_block_header (hdr ops) (bcp (N j)) = Some (?H l))"
  proof -
    obtain j where j: "j \<in> set ks" using ks(2) by (cases ks) auto
    obtain l where l: "l \<in> set ks" "select_proposed_block_header (hdr ops) (bcp (N j)) = Some (?H l)"
        "\<forall>k \<in> set ks. hash_string (hdr ops) (?H l) \<le> hash_string (hdr ops) (?H k)"
      using lowest_header [OF ks(2), of "bcp (N j)" ?H "hdr ops"] proposed [OF j] by blast
    have "select_proposed_block_header (hdr ops) (bcp (N j')) = Some (?H l)" if "j' \<in> set ks" for j'
      using l(2) proposed [OF j] proposed [OF that] by (simp add: select_proposed_block_header_def)
    then show ?thesis using l by blast
  qed
  then obtain l where l: "l \<in> set ks" "\<forall>k \<in> set ks. hash_string (hdr ops) (?H l) \<le> hash_string (hdr ops) (?H k)"
      "\<And>j. j \<in> set ks \<Longrightarrow> select_proposed_block_header (hdr ops) (bcp (N j)) = Some (?H l)" by blast
  define owner where "owner = (\<lambda>j. same_header (hdr ops) (?H l) (?H j))"
  have "owner l" using laws by (simp add: owner_def header_laws_def)
  then obtain w where w: "List.find owner ks = Some w" using l(1) by (cases "List.find owner ks") (auto simp: find_None_iff)
  then have w2: "w \<in> set ks" "owner w" by (auto simp: find_Some_iff)
  have low: "hash_string (hdr ops) (?H w) = hash_string (hdr ops) (?H l)"
    using laws w2(2) by (simp add: header_laws_def owner_def)
  define N4 where "N4 = (\<lambda>j. (N j)\<lparr>bcp := (bcp (N j))\<lparr>current_step := bcp_step_vote, my_vote_header := ?H l,
     vote_box := map (\<lambda>k. (k, ?H l)) ks, vote_headers := [(header_hash (hdr ops) (?H l), ?H l)],
     vote_counts := [(header_hash (hdr ops) (?H l), length ks)]\<rparr>\<rparr>)"
  have 0: "manager_main ops wait2 (mk_system ks N) = mk_system ks N"
    by (rule passes_idle) (simp add: proposed wait2)
  have 4: "manager_pass ops vote (mk_system ks N) = mk_system ks N4"
    unfolding N4_def by (rule pass_vote [OF ks(1)]) (simp_all add: proposed l(3) vote)
  define N5 where "N5 = (\<lambda>j. (N4 j)\<lparr>bcp := (bcp (N4 j))\<lparr>current_step := bcp_step_commit,
     verified_blocks := map (\<lambda>k. (k, cand w)) ks, commit_block := cand w\<rparr>\<rparr>)"
  have el: "get_elected_block_header (length ks) (bcp (N4 j)) = Some (?H l)" for j
    using ks(2) by (intro elected_only) (simp_all add: N4_def)
  have 5: "manager_pass ops elect (mk_system ks N4) = mk_system ks N5"
    unfolding N5_def
    by (rule pass_elect [OF ks(1) _ _ _ _ w, where h = "?H l"])
      (use laws good in \<open>simp_all add: el owner_def header_laws_def good_block_def elect\<close>, simp_all add: N4_def proposed)
  define N6 where "N6 = (\<lambda>j. (N5 j)\<lparr>chain := chain_append ops (chain (N5 j)) (cand w),
     bcp := (clear_intermediate_data (bcp (N5 j)))\<lparr>current_step := bcp_step_waiting\<rparr>\<rparr>)"
  have 6: "manager_pass ops commit (mk_system ks N5) = mk_system ks N6"
    unfolding N6_def by (rule pass_commit [OF ks]) (simp_all add: N5_def commit)
  have "manager_main ops (wait2 @ [vote, elect, commit]) (mk_system ks N) = mk_system ks N6"
    by (simp add: manager_main_append manager_main_Cons 0 4 5 6) (simp add: manager_main_def)
  moreover have "round_done ops (cand w) (time_context (bcp (N j))) (N j) (N6 j)" for j
    by (simp add: round_done_def N6_def clear_twice, simp add: N5_def N4_def clear_intermediate_data_def)
  ultimately show ?thesis using w2(1) l(2) low by (intro bexI [of _ w] conjI exI [of _ N6]) simp_all
qed

lemma round_run:
  fixes N :: "int \<Rightarrow> ('h, 'b, 'c, 'a) node_server"
  assumes ks: "sorted_wrt (<) ks" "ks \<noteq> []" and r: "invalid_index ops < r" and laws: "header_laws (hdr ops)"
    and quiet: "\<And>j. j \<in> set ks \<Longrightarrow> current_step (bcp (N j)) = bcp_step_waiting \<and> clear_intermediate_data (bcp (N j)) = bcp (N j) \<and>
      (current_height ops (chain (N j)) + 1) mod 2 ^ 64 = r"
    and made: "\<And>j. j \<in> set ks \<Longrightarrow> map_option (sign_block ops (node_account (N j))) (create_block_for ops (N j) r) = Some (cand j)"
    and good: "\<And>j. j \<in> set ks \<Longrightarrow> good_block ops (cand j)"
    and first: "\<And>j. j \<in> set ks \<Longrightarrow> first j mod bcp_block_time < bcp_timeout_proof_of_participation \<and>
      time_context (bcp (N j)) < first j div bcp_block_time"
    and start: "\<And>j. j \<in> set ks \<Longrightarrow> start j mod bcp_block_time < bcp_timeout_proof_of_participation \<and>
      start j div bcp_block_time \<le> first j div bcp_block_time"
    and wait1: "\<And>c j. c \<in> set wait1 \<Longrightarrow> j \<in> set ks \<Longrightarrow> c j mod bcp_block_time \<le> bcp_timeout_proof_of_participation"
    and propose: "\<And>j. j \<in> set ks \<Longrightarrow> bcp_timeout_proof_of_participation < propose j mod bcp_block_time"
    and wait2: "\<And>c j. c \<in> set wait2 \<Longrightarrow> j \<in> set ks \<Longrightarrow> c j mod bcp_block_time \<le> bcp_timeout_propose"
    and vote: "\<And>j. j \<in> set ks \<Longrightarrow> bcp_timeout_propose < vote j mod bcp_block_time"
    and elect: "\<And>j. j \<in> set ks \<Longrightarrow> elect j mod bcp_block_time \<le> bcp_timeout_vote"
    and commit: "\<And>j. j \<in> set ks \<Longrightarrow> bcp_timeout_proof_of_participation \<le> commit j mod bcp_block_time"
  shows "\<exists>w \<in> set ks. (\<forall>k \<in> set ks. hash_string (hdr ops) (header_of (hdr ops) (cand w)) \<le> hash_string (hdr ops) (header_of (hdr ops) (cand k))) \<and>
    (\<exists>N'. manager_main ops ([first, start] @ wait1 @ [propose] @ wait2 @ [vote, elect, commit]) (mk_system ks N) = mk_system ks N' \<and>
       (\<forall>j \<in> set ks. round_done ops (cand w) (first j div bcp_block_time) (N j) (N' j)))"
proof -
  let ?H = "\<lambda>k. header_of (hdr ops) (cand k)"
  have "\<exists>N3. manager_main ops ([first, start] @ wait1 @ [propose]) (mk_system ks N) = mk_system ks N3 \<and>
    (\<forall>j \<in> set ks. current_step (bcp (N3 j)) = bcp_step_propose \<and> candidate_block (bcp (N3 j)) = cand j \<and>
       proposed_block_headers (bcp (N3 j)) = map (\<lambda>k. (k, ?H k)) ks \<and>
       vote_box (bcp (N3 j)) = [] \<and> vote_headers (bcp (N3 j)) = [] \<and> vote_counts (bcp (N3 j)) = [] \<and>
       verified_blocks (bcp (N3 j)) = [] \<and> time_context (bcp (N3 j)) = first j div bcp_block_time \<and>
       chain (N3 j) = chain (N j) \<and> node_account (N3 j) = node_account (N j) \<and> peer_id (N3 j) = peer_id (N j))"
    by (rule round_proposals [OF ks(1) r laws]) (fact quiet made first start wait1 propose)+
  then obtain N3 where N3: "manager_main ops ([first, start] @ wait1 @ [propose]) (mk_system ks N) = mk_system ks N3"
      "\<forall>j \<in> set ks. current_step (bcp (N3 j)) = bcp_step_propose \<and> candidate_block (bcp (N3 j)) = cand j \<and>
       proposed_block_headers (bcp (N3 j)) = map (\<lambda>k. (k, ?H k)) ks \<and>
       vote_box (bcp (N3 j)) = [] \<and> vote_headers (bcp (N3 j)) = [] \<and> vote_counts (bcp (N3 j)) = [] \<and>
       verified_blocks (bcp (N3 j)) = [] \<and> time_context (bcp (N3 j)) = first j div bcp_block_time \<and>
       chain (N3 j) = chain (N j) \<and> node_account (N3 j) = node_account (N j) \<and> peer_id (N3 j) = peer_id (N j)"
    by (elim exE conjE)
  have "\<exists>w \<in> set ks. (\<forall>k \<in> set ks. hash_string (hdr ops) (?H w) \<le> hash_string (hdr ops) (?H k)) \<and>
    (\<exists>N'. manager_main ops (wait2 @ [vote, elect, commit]) (mk_system ks N3) = mk_system ks N' \<and>
       (\<forall>j \<in> set ks. round_done ops (cand w) (time_context (bcp (N3 j))) (N3 j) (N' j)))"
    by (rule round_decision [OF ks laws]) ((fact good wait2 vote elect commit | simp add: N3(2))+)
  then obtain w N' where w: "w \<in> set ks" "\<forall>k \<in> set ks. hash_string (hdr ops) (?H w) \<le> hash_string (hdr ops) (?H k)"
      "manager_main ops (wait2 @ [vote, elect, commit]) (mk_system ks N3) = mk_system ks N'"
      "\<forall>j \<in> set ks. round_done ops (cand w) (time_context (bcp (N3 j))) (N3 j) (N' j)"
    by (elim bexE exE conjE)
  have "manager_main ops ([first, start] @ wait1 @ [propose] @ wait2 @ [vote, elect, commit]) (mk_system ks N) = mk_system ks N'"
    using manager_main_append [of ops "[first, start] @ wait1 @ [propose]" "wait2 @ [vote, elect, commit]" "mk_system ks N"]
    unfolding N3(1) w(3) by simp
  moreover have "\<forall>j \<in> set ks. round_done ops (cand w) (first j div bcp_block_time) (N j) (N' j)"
    using w(4) N3(2) by (simp add: round_done_def)
  ultimately show ?thesis using w(1,2) by (intro bexI [of _ w] conjI exI [of _ N'])
qed

lemma round_succeeds:
  assumes ready: "round_ready ops sys r cand" and laws: "header_laws (hdr ops)" and due: "round_due sys first"
    and clocks: "round_clocks (fst ` set sys) first clocks"
  shows "\<exists>w \<in> fst ` set sys.
    (\<forall>k \<in> fst ` set sys. hash_string (hdr ops) (header_of (hdr ops) (cand w)) \<le> hash_string (hdr ops) (header_of (hdr ops) (cand k))) \<and>
    map fst (manager_main ops clocks sys) = map fst sys \<and>
    (\<forall>(k, nd) \<in> set sys. \<exists>nd'. get_node_server (manager_main ops clocks sys) k = Some nd' \<and>
       round_done ops (cand w) (first k div bcp_block_time) nd nd')"
proof -
  define ks where "ks = map fst sys"
  have ok: "sm_ok sys" and ks: "sorted_wrt (<) ks" "ks \<noteq> []" and keys: "set ks = fst ` set sys" and r: "invalid_index ops < r"
    using ready by (simp_all add: round_ready_def ks_def sm_ok_def)
  obtain N where N: "sys = mk_system ks N" "\<forall>(k, nd) \<in> set sys. N k = nd"
    using system_mk [OF ok] by (auto simp: ks_def)
  have mem: "(j, N j) \<in> set sys" if "j \<in> set ks" for j using that N(2) by (auto simp: ks_def)
  have quiet: "current_step (bcp (N j)) = bcp_step_waiting \<and> clear_intermediate_data (bcp (N j)) = bcp (N j) \<and>
      (current_height ops (chain (N j)) + 1) mod 2 ^ 64 = r"
    and made: "map_option (sign_block ops (node_account (N j))) (create_block_for ops (N j) r) = Some (cand j)"
    and good: "good_block ops (cand j)" if "j \<in> set ks" for j
    using mem [OF that] ready by (auto simp: round_ready_def)
  obtain start wait1 propose wait2 vote elect commit where
    clocks_eq: "clocks = [first, start] @ wait1 @ [propose] @ wait2 @ [vote, elect, commit]"
    and c: "\<forall>j \<in> fst ` set sys. first j mod bcp_block_time < bcp_timeout_proof_of_participation \<and>
           start j div bcp_block_time \<le> first j div bcp_block_time \<and> start j mod bcp_block_time < bcp_timeout_proof_of_participation \<and>
           (\<forall>c \<in> set wait1. c j mod bcp_block_time \<le> bcp_timeout_proof_of_participation) \<and>
           bcp_timeout_proof_of_participation < propose j mod bcp_block_time \<and>
           (\<forall>c \<in> set wait2. c j mod bcp_block_time \<le> bcp_timeout_propose) \<and>
           bcp_timeout_propose < vote j mod bcp_block_time \<and> elect j mod bcp_block_time \<le> bcp_timeout_vote \<and>
           bcp_timeout_proof_of_participation \<le> commit j mod bcp_block_time"
    using clocks unfolding round_clocks_def by (elim exE conjE)
  have d: "time_context (bcp (N j)) < first j div bcp_block_time" if "j \<in> set ks" for j
    using due mem [OF that] by (auto simp: round_due_def)
  note c' = bspec [OF c [folded keys]]
  have "\<exists>w \<in> set ks. (\<forall>k \<in> set ks. hash_string (hdr ops) (header_of (hdr ops) (cand w)) \<le> hash_string (hdr ops) (header_of (hdr ops) (cand k))) \<and>
    (\<exists>N'. manager_main ops clocks (mk_system ks N) = mk_system ks N' \<and>
       (\<forall>j \<in> set ks. round_done ops (cand w) (first j div bcp_block_time) (N j) (N' j)))"
    unfolding clocks_eq by (rule round_run [OF ks r laws]) (fact quiet made good | use c' d in blast)+
  then obtain w N' where w: "w \<in> set ks" "\<forall>k \<in> set ks. hash_string (hdr ops) (header_of (hdr ops) (cand w)) \<le> hash_string (hdr ops) (header_of (hdr ops) (cand k))"
      "manager_main ops clocks (mk_system ks N) = mk_system ks N'"
      "\<forall>j \<in> set ks. round_done ops (cand w) (first j div bcp_block_time) (N j) (N' j)"
    by (elim bexE exE conjE)
  have "map fst (manager_main ops clocks sys) = map fst sys" unfolding N(1) w(3) by simp
  moreover have "\<exists>nd'. get_node_server (manager_main ops clocks sys) k = Some nd' \<and>
      round_done ops (cand w) (first k div bcp_block_time) nd nd'" if "(k, nd) \<in> set sys" for k nd
  proof -
    have k: "k \<in> set ks" "N k = nd" using that N(2) keys by force+
    show ?thesis unfolding N(1) w(3) using k w(4) by auto
  qed
  ultimately show ?thesis using w(1,2) keys by blast
qed

text \<open>
  C2. A round succeeds. When all nodes wait at the same height with empty boxes, can create
  their blocks, and their clocks agree on the phases, with any number of passes of the manager
  between them, then every node ends the round waiting again, with empty boxes and with the
  same block appended to its chain: the block of the node whose header has the lowest hash
  text of all.
\<close>

theorem round_commits:
  assumes ready: "round_ready ops sys r cand" and laws: "header_laws (hdr ops)" and due: "round_due sys first"
    and clocks: "round_clocks (fst ` set sys) first clocks"
  shows "\<exists>w \<in> fst ` set sys.
    (\<forall>k \<in> fst ` set sys. hash_string (hdr ops) (header_of (hdr ops) (cand w)) \<le> hash_string (hdr ops) (header_of (hdr ops) (cand k))) \<and>
    map fst (manager_main ops clocks sys) = map fst sys \<and>
    (\<forall>(k, nd) \<in> set sys. \<exists>nd'. get_node_server (manager_main ops clocks sys) k = Some nd' \<and>
       round_done ops (cand w) (first k div bcp_block_time) nd nd')"
  using assms by (rule round_succeeds)

subsection \<open>Every node runs the consensus\<close>

text \<open>
  C6. Every node runs the consensus server. Whatever clocks the nodes show in the passes of
  the manager, the nodes stay the \<open>n\<close> that were started, and what the callbacks, the
  broadcasts and the answers do to the server of each of them is a run of the single server
  with these peers; so what it decides rests on a majority of the nodes: an elected header has
  the votes of more than half of them, and a block to commit the commits of more than half.
\<close>

theorem nodes_run_consensus:
  assumes "sys = manager_main ops clocks (manager_start h b c a synced accounts n)"
  shows "fst ` set sys = int ` {..<n} \<and>
    (\<forall>(k, nd) \<in> set sys. bcp_reachable (hdr ops) (int ` {..<n}) (invalid_index ops) (bcp nd) \<and>
       (\<forall>e. get_elected_block_header n (bcp nd) = Some e \<longrightarrow>
          n < 2 * card (voters (hdr ops) (bcp nd) (header_hash (hdr ops) e))) \<and>
       (\<forall>d. find_commit_block n (bcp nd) = Some d \<longrightarrow> n < 2 * card (committers (bcp nd))))"
proof -
  have card: "card (int ` {..<n}) = n" by (simp add: card_image)
  have "system_reachable ops (int ` {..<n}) (manager_start h b c a synced accounts n)"
    by (rule manager_start_reachable)
  then have ok: "system_reachable ops (int ` {..<n}) sys"
    unfolding assms by (rule manager_main_reachable)
  have "bcp_reachable (hdr ops) (int ` {..<n}) (invalid_index ops) (bcp nd)" if "(k, nd) \<in> set sys" for k nd
    using that ok by (auto simp: nodes_ok_def)
  moreover have "n < 2 * card (voters (hdr ops) s (header_hash (hdr ops) e))"
    if "bcp_reachable (hdr ops) (int ` {..<n}) (invalid_index ops) s" "get_elected_block_header n s = Some e" for s e
    using elected_majority [OF that(1)] that(2) by (simp add: card)
  moreover have "n < 2 * card (committers s)"
    if "bcp_reachable (hdr ops) (int ` {..<n}) (invalid_index ops) s" "find_commit_block n s = Some d" for s d
    using committed_elected [OF that(1)] that(2) by (auto simp: card)
  moreover have "fst ` set sys = int ` {..<n}" using ok by (simp add: nodes_ok_def)
  ultimately show ?thesis by blast
qed

subsection \<open>Three nodes with block chains\<close>

text \<open>The hash of a block is the account that signed it.\<close>

definition chain_ops :: "(base_blob, block, block_chain, nat, transaction) node_ops" where
  "chain_ops = \<lparr>hdr = \<lparr>header_hash = id, hash_string = (\<lambda>h. map (\<lambda>x. char_of (unat x)) (blob_data h)), same_header = (=),
       header_of = block_header_hash, with_header = (\<lambda>b h. b\<lparr>block_header_hash := h\<rparr>)\<rparr>,
     current_height = height, chain_exists = block_exists, chain_block = get_block, chain_hash = get_block_hash,
     chain_append = (\<lambda>c b. fst (append_block c b)), account_address = (\<lambda>a. replicate a CHR ''n''),
     make_block = (\<lambda>i prev. \<lparr>block_index = i, block_transactions = [], block_header_hash = prev\<rparr>),
     coinbase_for = (\<lambda>a v. \<lparr>tx_value = v, tx_from = [], tx_to = replicate a CHR ''n'', tx_coinbase = True, tx_valid = True\<rparr>),
     add_transaction = (\<lambda>b tx. Some (b\<lparr>block_transactions := block_transactions b @ [tx]\<rparr>)),
     sign_block = (\<lambda>a b. b\<lparr>block_header_hash := Blob [of_nat a]\<rparr>), block_verify = verify_block,
     wire = (\<lambda>n b. b), max_block = 62 * 1024, invalid_index = 0\<rparr>"

definition chain_system :: "(base_blob, block, block_chain, nat) node_manager" where
  "chain_system = manager_start (Blob []) \<lparr>block_index = 0, block_transactions = [], block_header_hash = Blob []\<rparr>
     empty_chain 0 (\<lambda>_. True) (\<lambda>i. 9 - i) 3"

definition chain_candidate :: "int \<Rightarrow> block" where
  "chain_candidate k = \<lparr>block_index = 1, block_transactions = [\<lparr>tx_value = 100, tx_from = [],
     tx_to = replicate (9 - nat k) CHR ''n'', tx_coinbase = True, tx_valid = True\<rparr>], block_header_hash = Blob [of_nat (9 - nat k)]\<rparr>"

lemma chain_system_nodes:
  "chain_system = map (\<lambda>k. (k, \<lparr>peer_id = k, node_account = 9 - nat k, chain = empty_chain,
     bcp = (bcp_init (Blob []) \<lparr>block_index = 0, block_transactions = [], block_header_hash = Blob []\<rparr>)\<lparr>current_step := bcp_step_waiting\<rparr>\<rparr>)) [0, 1, 2]"
  by (simp add: chain_system_def manager_start_def start_server_def node_new_def bcp_start_def sm_insert_def sm_count_def
      sm_find_def upt_conv_Cons numeral_3_eq_3)

lemma chain_system_ready: "round_ready chain_ops chain_system 1 chain_candidate"
  by (simp add: round_ready_def chain_system_nodes sm_ok_def bcp_init_def clear_intermediate_data_def chain_ops_def
      create_block_for_def block_exists_def empty_chain_def sm_count_def height_def sm_size_def good_block_def
      chain_candidate_def verify_block_def block_reward_def)

theorem round_commits_witness:
  "\<exists>w \<in> {0, 1, 2 :: int}. \<forall>k \<in> {0, 1, 2}. \<exists>nd.
     get_node_server (manager_main chain_ops (map (\<lambda>t _. t) [20, 20, 23, 26, 28, 31, 31, 31]) chain_system) k = Some nd \<and>
     chain nd = fst (append_block empty_chain (chain_candidate w))"
proof -
  have laws: "header_laws (hdr chain_ops)" by (simp add: header_laws_def chain_ops_def)
  have due: "round_due chain_system (\<lambda>_. 20)"
    by (simp add: round_due_def chain_system_nodes bcp_init_def bcp_block_time_def)
  have clocks: "round_clocks (fst ` set chain_system) (\<lambda>_. 20) (map (\<lambda>t _. t) [20, 20, 23, 26, 28, 31, 31, 31])"
    unfolding round_clocks_def
    by (rule exI [of _ "\<lambda>_. 20"], rule exI [of _ "[\<lambda>_. 23]"], rule exI [of _ "\<lambda>_. 26"], rule exI [of _ "[\<lambda>_. 28]"],
        rule exI [of _ "\<lambda>_. 31"], rule exI [of _ "\<lambda>_. 31"], rule exI [of _ "\<lambda>_. 31"])
      (simp add: chain_system_nodes bcp_init_def bcp_block_time_def bcp_timeout_proof_of_participation_def
        bcp_timeout_propose_def bcp_timeout_vote_def)
  have c: "chain_append chain_ops = (\<lambda>c b. fst (append_block c b))" by (simp add: chain_ops_def)
  show ?thesis
    using round_commits [OF chain_system_ready laws due clocks]
    by (simp add: chain_system_nodes round_done_def c) blast
qed

text \<open>After the votes the first node has elected a header.\<close>

lemma three_elect:
  "\<exists>nd e. (0, nd) \<in> set (manager_main chain_ops ([\<lambda>_. 20, \<lambda>_. 20] @ [] @ [\<lambda>_. 26] @ [\<lambda>_. 31]) chain_system) \<and>
     get_elected_block_header 3 (bcp nd) = Some e"
proof -
  define N :: "int \<Rightarrow> (base_blob, block, block_chain, nat) node_server"
    where "N k = \<lparr>peer_id = k, node_account = 9 - nat k, chain = empty_chain,
     bcp = (bcp_init (Blob []) \<lparr>block_index = 0, block_transactions = [], block_header_hash = Blob []\<rparr>)\<lparr>current_step := bcp_step_waiting\<rparr>\<rparr>" for k
  have sys: "chain_system = mk_system [0, 1, 2] N" by (simp add: chain_system_nodes mk_system_def N_def)
  have ks: "sorted_wrt (<) [0, 1, 2 :: int]" by simp
  have laws: "header_laws (hdr chain_ops)" by (simp add: header_laws_def chain_ops_def)
  have quiet: "current_step (bcp (N j)) = bcp_step_waiting \<and> clear_intermediate_data (bcp (N j)) = bcp (N j) \<and>
      (current_height chain_ops (chain (N j)) + 1) mod 2 ^ 64 = 1"
    and made: "map_option (sign_block chain_ops (node_account (N j))) (create_block_for chain_ops (N j) 1) = Some (chain_candidate j)"
    if "j \<in> set [0, 1, 2]" for j
    using that chain_system_ready unfolding sys by (auto simp: round_ready_def mk_system_def)
  have "\<exists>N'. manager_main chain_ops ([\<lambda>_. 20, \<lambda>_. 20] @ [] @ [\<lambda>_. 26]) (mk_system [0, 1, 2] N) = mk_system [0, 1, 2] N' \<and>
    (\<forall>j \<in> set [0, 1, 2]. current_step (bcp (N' j)) = bcp_step_propose \<and> candidate_block (bcp (N' j)) = chain_candidate j \<and>
       proposed_block_headers (bcp (N' j)) = map (\<lambda>k. (k, header_of (hdr chain_ops) (chain_candidate k))) [0, 1, 2] \<and>
       vote_box (bcp (N' j)) = [] \<and> vote_headers (bcp (N' j)) = [] \<and> vote_counts (bcp (N' j)) = [] \<and>
       verified_blocks (bcp (N' j)) = [] \<and> time_context (bcp (N' j)) = 20 div bcp_block_time \<and>
       chain (N' j) = chain (N j) \<and> node_account (N' j) = node_account (N j) \<and> peer_id (N' j) = peer_id (N j))"
    by (rule round_proposals [OF ks _ laws, where r = 1])
      ((fact quiet made | simp add: chain_ops_def N_def bcp_init_def bcp_block_time_def bcp_timeout_proof_of_participation_def)+)
  then obtain N' where p: "manager_main chain_ops ([\<lambda>_. 20, \<lambda>_. 20] @ [] @ [\<lambda>_. 26]) (mk_system [0, 1, 2] N) = mk_system [0, 1, 2] N'"
    and N': "\<forall>j \<in> set [0, 1, 2]. current_step (bcp (N' j)) = bcp_step_propose \<and>
       proposed_block_headers (bcp (N' j)) = map (\<lambda>k. (k, header_of (hdr chain_ops) (chain_candidate k))) [0, 1, 2] \<and>
       vote_box (bcp (N' j)) = [] \<and> vote_headers (bcp (N' j)) = [] \<and> vote_counts (bcp (N' j)) = []"
    by blast
  let ?m = "map (\<lambda>k. (k, header_of (hdr chain_ops) (chain_candidate k))) [0, 1, 2 :: int]"
  let ?h = "snd (select_lowest (hash_string (hdr chain_ops)) (hd ?m) (tl ?m))"
  let ?F = "\<lambda>j. (N' j)\<lparr>bcp := (bcp (N' j))\<lparr>current_step := bcp_step_vote, my_vote_header := ?h, vote_box := map (\<lambda>k. (k, ?h)) [0, 1, 2],
     vote_headers := [(header_hash (hdr chain_ops) ?h, ?h)], vote_counts := [(header_hash (hdr chain_ops) ?h, length [0, 1, 2 :: int])]\<rparr>\<rparr>"
  have v: "manager_pass chain_ops (\<lambda>_. 31) (mk_system [0, 1, 2] N') = mk_system [0, 1, 2] ?F"
    by (rule pass_vote [OF ks]) (use N' in \<open>auto simp: select_proposed_block_header_def bcp_block_time_def bcp_timeout_propose_def\<close>)
  have "get_elected_block_header 3 (bcp (?F 0)) = Some ?h" by (rule elected_only) simp_all
  moreover have "manager_main chain_ops ([\<lambda>_. 20, \<lambda>_. 20] @ [] @ [\<lambda>_. 26] @ [\<lambda>_. 31]) chain_system = mk_system [0, 1, 2] ?F"
    unfolding sys using manager_main_append [of chain_ops "[\<lambda>_. 20, \<lambda>_. 20] @ [] @ [\<lambda>_. 26]" "[\<lambda>_. 31]" "mk_system [0, 1, 2] N"]
    unfolding p by (simp add: manager_main_def v del: append.simps)
  ultimately show ?thesis by (intro exI [of _ "?F 0"] exI [of _ ?h]) (simp add: mk_system_def)
qed

theorem nodes_run_consensus_witness:
  "\<exists>nd e. (0, nd) \<in> set (manager_main chain_ops ([\<lambda>_. 20, \<lambda>_. 20] @ [] @ [\<lambda>_. 26] @ [\<lambda>_. 31]) chain_system) \<and>
     3 < 2 * card (voters (hdr chain_ops) (bcp nd) (header_hash (hdr chain_ops) e))"
proof -
  obtain nd e where e: "(0, nd) \<in> set (manager_main chain_ops ([\<lambda>_. 20, \<lambda>_. 20] @ [] @ [\<lambda>_. 26] @ [\<lambda>_. 31]) chain_system)"
      "get_elected_block_header 3 (bcp nd) = Some e" using three_elect by blast
  have "3 < 2 * card (voters (hdr chain_ops) (bcp nd) (header_hash (hdr chain_ops) e))"
    using bspec [OF conjunct2 [OF nodes_run_consensus [OF arg_cong [where f = "manager_main chain_ops clocks" for clocks, OF chain_system_def]]] e(1)] e(2)
    unfolding prod.case by blast
  then show ?thesis using e(1) by blast
qed

end
