(* ===== verification/Node_Chain.thy ===== *)
theory Node_Chain
  imports Node_Round
begin

text \<open>
  Whole runs: nodes that keep their blocks in the chain of block_chain.cpp and go through one
  round after the other. What the nodes call of blocks, transactions and accounts is assumed
  to do what its name says (\<open>chain_backed\<close>).
\<close>

subsection \<open>Rewards\<close>

definition reward_block :: "('h, block, block_chain, 'a, transaction) node_ops \<Rightarrow> 'a \<Rightarrow> nat \<Rightarrow> block \<Rightarrow> bool" where
  "reward_block ops acct r b \<longleftrightarrow> block_index b = r \<and> block_transactions b = [coinbase_for ops acct block_reward]"

definition chain_backed :: "('h, block, block_chain, 'a, transaction) node_ops \<Rightarrow> bool" where
  "chain_backed ops \<longleftrightarrow>
     current_height ops = height \<and> chain_exists ops = block_exists \<and> chain_append ops = (\<lambda>c b. fst (append_block c b)) \<and>
     invalid_index ops = 0 \<and>
     (\<forall>i p. block_index (make_block ops i p) = i \<and> block_transactions (make_block ops i p) = []) \<and>
     (\<forall>b tx. \<exists>b'. add_transaction ops b tx = Some b' \<and> block_index b' = block_index b \<and>
        block_transactions b' = block_transactions b @ [tx]) \<and>
     (\<forall>a b. block_index (sign_block ops a b) = block_index b \<and> block_transactions (sign_block ops a b) = block_transactions b) \<and>
     (\<forall>a v. tx_value (coinbase_for ops a v) = v \<and> tx_to (coinbase_for ops a v) = account_address ops a \<and>
        tx_coinbase (coinbase_for ops a v) \<and> tx_valid (coinbase_for ops a v)) \<and>
     (\<forall>acct r b. reward_block ops acct r b \<longrightarrow> good_block ops b)"

lemma created_block:
  assumes "chain_backed ops" "\<not> block_exists (chain nd) r"
  shows "\<exists>b. map_option (sign_block ops (node_account nd)) (create_block_for ops nd r) = Some b \<and>
    reward_block ops (node_account nd) r b"
proof -
  let ?p = "make_block ops r (chain_hash ops (chain nd) ((r + (2 ^ 64 - 1)) mod 2 ^ 64))"
  obtain b where "add_transaction ops ?p (coinbase_for ops (node_account nd) block_reward) = Some b"
      "block_index b = r" "block_transactions b = [coinbase_for ops (node_account nd) block_reward]"
    using assms(1) unfolding chain_backed_def by (metis append_Nil)
  then show ?thesis using assms by (simp add: create_block_for_def chain_backed_def reward_block_def Let_def)
qed

lemma reward_block_verified: "chain_backed ops \<Longrightarrow> reward_block ops acct r b \<Longrightarrow> verify_block b"
  by (simp add: reward_block_def chain_backed_def verify_block_def block_reward_def)

text \<open>The chain after \<open>k\<close> rounds: blocks 1 to \<open>k\<close> and one reward for each of them.\<close>

definition chain_grown :: "string set \<Rightarrow> nat \<Rightarrow> block_chain \<Rightarrow> bool" where
  "chain_grown A k c \<longleftrightarrow> chain_ok c \<and> height c = k \<and> (\<forall>i. block_exists c i \<longleftrightarrow> 1 \<le> i \<and> i \<le> k) \<and>
     (\<Sum>a \<in> A. unat (balanceOf c a)) = 100 * k"

lemma chain_grown_start: "chain_grown A 0 empty_chain"
  by (simp add: chain_grown_def empty_chain_def chain_ok_def height_def sm_size_def block_exists_def sm_count_def balanceOf_def)

lemma chain_grown_reward:
  assumes ops: "chain_backed ops" and b: "reward_block ops acct (k + 1) b" and c: "chain_grown A k c"
    and A: "finite A" "account_address ops acct \<in> A" and small: "100 * (k + 1) < 2 ^ 64"
  shows "chain_grown A (k + 1) (fst (append_block c b))"
proof -
  let ?tx = "coinbase_for ops acct block_reward" and ?c = "fst (append_block c b)"
  have tx: "block_transactions b = [?tx]" "tx_coinbase ?tx" "unat (tx_value ?tx) = 100" "tx_to ?tx \<in> A"
    using ops b A by (simp_all add: reward_block_def chain_backed_def block_reward_def)
  have ok: "chain_ok c" "sm_ok (mapBlocks c)" "sm_ok (accountBalances c)" using c by (simp_all add: chain_grown_def chain_ok_def)
  have new: "sm_find (mapBlocks c) (k + 1) = None"
  proof -
    have "\<not> block_exists c (k + 1)" using c by (simp add: chain_grown_def)
    then show ?thesis by (simp add: block_exists_def sm_count_pos)
  qed
  have i: "block_index b = k + 1" using b by (simp add: reward_block_def)
  then have acc: "snd (append_block c b)"
    using new reward_block_verified [OF ops b] by (simp add: append_block_accepts)
  then have f: "mapBlocks ?c = sm_insert (mapBlocks c) (k + 1) b"
      "accountBalances ?c = update_balances (accountBalances c) [?tx]"
    using append_block_fields [of c b] i tx(1) by (simp_all del: update_balances.simps)
  have total: "sum (funds (accountBalances c)) A = 100 * k" using c by (simp add: chain_grown_def balanceOf_funds)
  then have "funds (accountBalances c) (tx_to ?tx) \<le> 100 * k"
    using member_le_sum [of "tx_to ?tx" A "funds (accountBalances c)"] A tx(4) by simp
  then have pay: "payable (funds (accountBalances c)) [?tx]" using small tx(2,3) by (simp add: transfer_def Let_def)
  have "sum (funds (accountBalances ?c)) A = 100 * (k + 1)"
    using update_balances_transfer [OF ok(3) pay] transfers_total [OF A(1) _ pay] tx total
    by (simp add: f(2) minted_def del: update_balances.simps)
  moreover have "height ?c = k + 1"
    using c new by (simp add: height_def f(1) sm_insert_def sm_count_pos sm_size_set chain_grown_def)
  moreover have "block_exists ?c j \<longleftrightarrow> 1 \<le> j \<and> j \<le> k + 1" for j
    using c ok(2) by (auto simp: block_exists_def f(1) sm_count_pos chain_grown_def le_Suc_eq)
  ultimately show ?thesis using chain_ok_append [OF ok(1), of b] by (simp add: chain_grown_def balanceOf_funds)
qed

subsection \<open>Round after round\<close>

text \<open>The system between two rounds: all nodes wait with empty boxes and hold the same chain.\<close>

definition between_rounds ::
  "('h, block, block_chain, 'a, transaction) node_ops \<Rightarrow> (int \<Rightarrow> 'a) \<Rightarrow> int set \<Rightarrow> nat \<Rightarrow> block_chain \<Rightarrow> (int \<Rightarrow> nat) \<Rightarrow>
    ('h, block, block_chain, 'a) node_manager \<Rightarrow> bool" where
  "between_rounds ops accounts P k c contexts sys \<longleftrightarrow> sm_ok sys \<and> fst ` set sys = P \<and>
     chain_grown ((\<lambda>i. account_address ops (accounts i)) ` P) k c \<and>
     (\<forall>(i, nd) \<in> set sys. chain nd = c \<and> node_account nd = accounts i \<and> current_step (bcp nd) = bcp_step_waiting \<and>
        clear_intermediate_data (bcp nd) = bcp nd \<and> time_context (bcp nd) = contexts i)"

lemma between_rounds_ready:
  assumes ops: "chain_backed ops" and sys: "between_rounds ops accounts P k c contexts sys" "P \<noteq> {}" and small: "100 * (k + 1) < 2 ^ 64"
  shows "\<exists>cand. round_ready ops sys (k + 1) cand \<and> (\<forall>i \<in> P. reward_block ops (accounts i) (k + 1) (cand i))"
proof -
  have ok: "sm_ok sys" "sys \<noteq> []" and keys: "fst ` set sys = P" using sys by (auto simp: between_rounds_def)
  have nd: "chain nd = c \<and> node_account nd = accounts i \<and> current_step (bcp nd) = bcp_step_waiting \<and>
      clear_intermediate_data (bcp nd) = bcp nd" if "(i, nd) \<in> set sys" for i nd
    using that sys(1) by (auto simp: between_rounds_def)
  have c: "height c = k" "\<not> block_exists c (k + 1)" using sys(1) by (simp_all add: between_rounds_def chain_grown_def)
  have "\<exists>b. map_option (sign_block ops (node_account nd)) (create_block_for ops nd (k + 1)) = Some b \<and>
      reward_block ops (accounts i) (k + 1) b" if "(i, nd) \<in> set sys" for i nd
    using created_block [OF ops, of nd "k + 1"] nd [OF that] c(2) by auto
  moreover define cand where "cand i = (SOME b. map_option (sign_block ops (node_account (the (sm_find sys i))))
      (create_block_for ops (the (sm_find sys i)) (k + 1)) = Some b \<and> reward_block ops (accounts i) (k + 1) b)" for i
  ultimately have cand: "map_option (sign_block ops (node_account nd)) (create_block_for ops nd (k + 1)) = Some (cand i)"
      "reward_block ops (accounts i) (k + 1) (cand i)" if "(i, nd) \<in> set sys" for i nd
    using someI_ex [of "\<lambda>b. map_option (sign_block ops (node_account nd)) (create_block_for ops nd (k + 1)) = Some b \<and>
      reward_block ops (accounts i) (k + 1) b"] that iffD2 [OF sm_find_iff [OF ok(1)] that] by simp_all
  have "good_block ops (cand i)" if "(i, nd) \<in> set sys" for i nd
    using ops cand(2) [OF that] by (auto simp: chain_backed_def)
  then have "round_ready ops sys (k + 1) cand"
    using ok nd cand(1) c(1) ops small by (auto simp: round_ready_def chain_backed_def)
  moreover have "reward_block ops (accounts i) (k + 1) (cand i)" if "i \<in> P" for i
    using that keys cand(2) by force
  ultimately show ?thesis by blast
qed

lemma round_grows:
  assumes ops: "chain_backed ops" "header_laws (hdr ops)" and P: "finite P" "P \<noteq> {}"
    and sys: "between_rounds ops accounts P k c contexts sys" and small: "100 * (k + 1) < 2 ^ 64"
    and clocks: "round_clocks P first clocks" "\<forall>i \<in> P. contexts i < first i div bcp_block_time"
  shows "\<exists>c'. between_rounds ops accounts P (k + 1) c' (\<lambda>i. first i div bcp_block_time) (manager_main ops clocks sys)"
proof -
  obtain cand where cand: "round_ready ops sys (k + 1) cand" "\<forall>i \<in> P. reward_block ops (accounts i) (k + 1) (cand i)"
    using between_rounds_ready [OF ops(1) sys P(2) small] by blast
  have keys: "fst ` set sys = P" using sys by (simp add: between_rounds_def)
  have due: "round_due sys first"
    using sys clocks(2) keys by (force simp: between_rounds_def round_due_def)
  let ?sys = "manager_main ops clocks sys"
  obtain w where w: "w \<in> P" "map fst ?sys = map fst sys"
      "\<forall>(i, nd) \<in> set sys. \<exists>nd'. get_node_server ?sys i = Some nd' \<and> round_done ops (cand w) (first i div bcp_block_time) nd nd'"
    using round_succeeds [OF cand(1) ops(2) due clocks(1) [folded keys]] unfolding keys by blast
  define c' where "c' = fst (append_block c (cand w))"
  have ok: "sm_ok ?sys" using sys w(2) by (simp add: between_rounds_def sm_ok_def)
  have "chain nd' = c' \<and> node_account nd' = accounts i \<and> current_step (bcp nd') = bcp_step_waiting \<and>
      clear_intermediate_data (bcp nd') = bcp nd' \<and> time_context (bcp nd') = first i div bcp_block_time"
    if "(i, nd') \<in> set ?sys" for i nd'
  proof -
    have "i \<in> fst ` set sys" using that w(2) by (metis image_eqI fst_conv set_map)
    then obtain nd where nd: "(i, nd) \<in> set sys" by force
    then obtain nd2 where "get_node_server ?sys i = Some nd2" "round_done ops (cand w) (first i div bcp_block_time) nd nd2"
      using w(3) by blast
    moreover have "get_node_server ?sys i = Some nd'"
      using iffD2 [OF sm_find_iff [OF ok] that] by (simp add: get_node_server_def sm_count_def)
    ultimately show ?thesis
      using nd sys ops(1) by (auto simp: round_done_def between_rounds_def chain_backed_def c'_def)
  qed
  moreover have "chain_grown ((\<lambda>i. account_address ops (accounts i)) ` P) (k + 1) c'"
    unfolding c'_def using sys w(1) P(1) cand(2) small
    by (intro chain_grown_reward [OF ops(1)]) (auto simp: between_rounds_def)
  moreover have "fst ` set ?sys = P" using w(2) keys by (metis set_map)
  ultimately show ?thesis using ok by (auto simp: between_rounds_def)
qed

lemma rounds_grow:
  assumes ops: "chain_backed ops" "header_laws (hdr ops)" and P: "finite P" "P \<noteq> {}"
    and "between_rounds ops accounts P k c contexts sys"
    and "\<forall>(first, clocks) \<in> set rounds. round_clocks P first clocks"
    and "\<forall>i \<in> P. sorted_wrt (<) (contexts i # map (\<lambda>(first, clocks). first i div bcp_block_time) rounds)"
    and "100 * (k + length rounds) < 2 ^ 64"
  shows "\<exists>c' contexts'. between_rounds ops accounts P (k + length rounds) c' contexts'
    (manager_main ops (concat (map snd rounds)) sys)"
  using assms(5-)
proof (induction rounds arbitrary: k c contexts sys)
  case Nil
  then show ?case by (auto simp: manager_main_def)
next
  case (Cons round rounds)
  obtain first clocks where round: "round = (first, clocks)" by (cases round)
  obtain c' where c': "between_rounds ops accounts P (k + 1) c' (\<lambda>i. first i div bcp_block_time) (manager_main ops clocks sys)"
    using round_grows [OF ops P Cons.prems(1), of first clocks] Cons.prems round by auto
  have "\<exists>d contexts'. between_rounds ops accounts P (k + 1 + length rounds) d contexts'
      (manager_main ops (concat (map snd rounds)) (manager_main ops clocks sys))"
    by (rule Cons.IH [OF c']) (use Cons.prems round in \<open>auto split: prod.splits\<close>)
  then show ?case by (simp add: round manager_main_append)
qed


text \<open>Three nodes and two rounds.\<close>

lemma chain_ops_backed: "chain_backed chain_ops" "header_laws (hdr chain_ops)"
  by (auto simp: chain_backed_def header_laws_def chain_ops_def good_block_def reward_block_def verify_block_def block_reward_def)

definition two_rounds :: "((int \<Rightarrow> nat) \<times> (int \<Rightarrow> nat) list) list" where
  "two_rounds = map (\<lambda>t. (\<lambda>_. t, map (\<lambda>d _. t + d) [0, 0, 3, 6, 8, 11, 11, 11])) [20, 40]"


end
