(* ===== verification/Node_Stall.thy ===== *)
theory Node_Stall
  imports Node_Round
begin

text \<open>
  Nodes at different heights. A round starts only when all nodes ask for the same block, a
  node asks for the block after its own last one, and no node ever asks another one for a
  block it has missed: \<open>node_message_block_req\<close> is handled but sent nowhere.
\<close>

definition heights_known ::
  "('h, 'b, 'c, 'a, 't) node_ops \<Rightarrow> (int \<Rightarrow> 'c) \<Rightarrow> int \<Rightarrow> ('h, 'b, 'c, 'a) node_server \<Rightarrow> bool" where
  "heights_known ops held k nd \<longleftrightarrow> chain nd = held k \<and> current_step (bcp nd) = bcp_step_waiting \<and>
     (\<forall>p r. sm_find (new_round_messages (bcp nd)) p = Some r \<longrightarrow> r = (current_height ops (held p) + 1) mod 2 ^ 64)"

lemma heights_known_message:
  assumes "heights_known ops held k nd" "boxes_ok (bcp nd)" "r = (current_height ops (held p) + 1) mod 2 ^ 64"
  shows "heights_known ops held k (nd\<lparr>bcp := (fst (append_new_round_message_for (bcp nd) p r))\<lparr>current_step := bcp_step_waiting\<rparr>\<rparr>)"
    "heights_known ops held k (nd\<lparr>bcp := fst (append_new_round_message_for (bcp nd) p r)\<rparr>)"
  using assms by (auto simp: heights_known_def append_new_round_message_for_def boxes_ok_def)

lemma no_round_start:
  assumes sys: "system_reachable ops P sys" "finite P" and nd: "(i, nd) \<in> set sys" "heights_known ops held i nd"
    and pq: "p \<in> P" "q \<in> P"
      "(current_height ops (held p) + 1) mod 2 ^ 64 \<noteq> (current_height ops (held q) + 1) mod 2 ^ 64"
  shows "new_round_start_for (card P) (invalid_index ops) (bcp nd) = None"
proof (rule ccontr)
  assume "new_round_start_for (card P) (invalid_index ops) (bcp nd) \<noteq> None"
  then obtain r where r: "new_round_start_for (card P) (invalid_index ops) (bcp nd) = Some r" by blast
  have "bcp_reachable (hdr ops) P (invalid_index ops) (bcp nd)" using sys(1) nd(1) by (auto simp: nodes_ok_def)
  then have "round_voters (bcp nd) r = P" using unanimous_round [OF _ sys(2) r] by blast
  then have "p \<in> round_voters (bcp nd) r" "q \<in> round_voters (bcp nd) r" using pq by simp_all
  then show False using nd(2) pq(3) by (auto simp: round_voters_def heights_known_def)
qed

lemma stalled_turn:
  assumes sys: "system_reachable ops P (mk_system ks N)" "finite P" "i \<in> set ks"
    and known: "\<forall>j \<in> set ks. heights_known ops held j (N j)"
    and pq: "p \<in> P" "q \<in> P"
      "(current_height ops (held p) + 1) mod 2 ^ 64 \<noteq> (current_height ops (held q) + 1) mod 2 ^ 64"
  shows "\<exists>N'. node_turn ops (mk_system ks N) i t = mk_system ks N' \<and> (\<forall>j \<in> set ks. heights_known ops held j (N' j))"
proof -
  have mem: "(j, N j) \<in> set (mk_system ks N)" if "j \<in> set ks" for j using that by (simp add: mk_system_def)
  have ks: "distinct ks" "set ks = P" using sys(1) sm_distinct [of "mk_system ks N"] by (auto simp: nodes_ok_def)
  then have n: "length ks = card P" using distinct_card by metis
  have none: "new_round_start_for (card P) (invalid_index ops) (bcp (N i)) = None"
    using no_round_start [OF sys(1,2) mem [OF sys(3)] bspec [OF known sys(3)] pq] .
  have step: "current_step (bcp (N i)) = bcp_step_waiting" using known sys(3) by (simp add: heights_known_def)
  show ?thesis
  proof (cases "t mod bcp_block_time < bcp_timeout_proof_of_participation \<and> time_context (bcp (N i)) < t div bcp_block_time")
    case True
    let ?r = "(current_height ops (held i) + 1) mod 2 ^ 64"
    define M where "M j = (if j = i then (N i)\<lparr>bcp := (bcp (N i))\<lparr>time_context := t div bcp_block_time\<rparr>\<rparr> else N j)" for j
    have pr: "bcp_process (hdr ops) (length ks) (invalid_index ops) t (bcp (N i)) =
        ((bcp (N i))\<lparr>time_context := t div bcp_block_time\<rparr>, Some new_round_ready, bcp_step_waiting)"
      using True step by (simp add: bcp_process_def timeline_def)
    have cb: "on_callback ops new_round_ready (N i\<lparr>bcp := (bcp (N i))\<lparr>time_context := t div bcp_block_time\<rparr>\<rparr>) = (M i, Some (New_round ?r))"
      using known sys(3) by (simp add: M_def heights_known_def)
    have M: "heights_known ops held j (M j) \<and> boxes_ok (bcp (M j))" if "j \<in> set ks" for j
    proof -
      have "bcp_reachable (hdr ops) P (invalid_index ops) (bcp (N j))" using sys(1) mem [OF that] by (auto simp: nodes_ok_def)
      then have "boxes_ok (bcp (N j))" using bcp_reachable_ok [OF _ sys(2)] by (auto simp: ballots_ok_def)
      then show ?thesis using bspec [OF known that] by (auto simp: M_def heights_known_def boxes_ok_def)
    qed
    define M' where "M' j = (let nd = (M j)\<lparr>bcp := fst (append_new_round_message_for (bcp (M j)) i ?r)\<rparr>
      in if j = i then nd\<lparr>bcp := (bcp nd)\<lparr>current_step := bcp_step_waiting\<rparr>\<rparr> else nd)" for j
    have "(if j = i then M i else N j) = M j" for j by (simp add: M_def)
    then have "node_turn ops (mk_system ks N) i t = mk_system ks M'"
      using node_turn_broadcast [of i ks "New_round ?r" ops t N, OF sys(3) ks(1) _ pr cb] by (simp add: M'_def [abs_def])
    moreover have "heights_known ops held j (M' j)" if "j \<in> set ks" for j
      using heights_known_message [OF conjunct1 [OF M [OF that]] conjunct2 [OF M [OF that]] refl, of i]
      by (cases "j = i") (simp_all add: M'_def Let_def)
    ultimately show ?thesis by blast
  next
    case False
    then have "bcp_process (hdr ops) (length ks) (invalid_index ops) t (bcp (N i)) = (bcp (N i), None, bcp_step_waiting)"
      using step none by (auto simp: bcp_process_def timeline_def n Let_def)
    then show ?thesis using node_turn_idle [OF sys(3)] known by blast
  qed
qed

lemma stalled_main:
  assumes "system_reachable ops P sys" "finite P" "\<forall>(k, nd) \<in> set sys. heights_known ops held k nd"
    and pq: "p \<in> P" "q \<in> P"
      "(current_height ops (held p) + 1) mod 2 ^ 64 \<noteq> (current_height ops (held q) + 1) mod 2 ^ 64"
  shows "\<forall>(k, nd) \<in> set (manager_main ops clocks sys). heights_known ops held k nd"
proof -
  let ?inv = "\<lambda>sys. system_reachable ops P sys \<and> (\<forall>(k, nd) \<in> set sys. heights_known ops held k nd)"
  have turn: "?inv (node_turn ops sys i t)" if inv: "?inv sys" and i: "i \<in> P" for sys i t
  proof -
    define ks where "ks = map fst sys"
    have ok: "sm_ok sys" and keys: "set ks = P" using inv by (simp_all add: nodes_ok_def ks_def)
    obtain N where N: "mk_system ks N = sys" "\<forall>(k, nd) \<in> set sys. N k = nd" using system_mk [OF ok] unfolding ks_def by metis
    have known: "\<forall>j \<in> set ks. heights_known ops held j (N j)" using inv N(2) by (fastforce simp: ks_def)
    have reach: "system_reachable ops P (mk_system ks N)" unfolding N(1) using inv by blast
    obtain N' where "node_turn ops sys i t = mk_system ks N'" "\<forall>j \<in> set ks. heights_known ops held j (N' j)"
      using stalled_turn [OF reach assms(2) _ known pq, of i t] i unfolding keys N(1) by blast
    moreover have "system_reachable ops P (node_turn ops sys i t)" using inv by (intro node_turn_reachable) blast
    ultimately show ?thesis unfolding mk_system_def by simp
  qed
  define inv where "inv sys \<longleftrightarrow> ?inv sys" for sys
  have turns: "inv (foldl (\<lambda>sys i. node_turn ops sys i (clock i)) sys is)" if "inv sys" "set is \<subseteq> P" for sys clock "is"
    using that
  proof (induction "is" arbitrary: sys)
    case (Cons i "is")
    have "inv (node_turn ops sys i (clock i))" using turn [of sys i "clock i"] Cons.prems unfolding inv_def by simp
    from Cons.IH [OF this] Cons.prems(2) show ?case by simp
  qed simp
  have pass: "inv (manager_pass ops clock sys)" if "inv sys" for sys clock
    unfolding manager_pass_def using that by (intro turns) (auto simp: inv_def nodes_ok_def)
  have "inv sys \<Longrightarrow> inv (manager_main ops clocks sys)"
    unfolding manager_main_def by (induction clocks arbitrary: sys) (simp_all add: pass)
  moreover have "inv sys" using assms(1,3) by (simp add: inv_def)
  ultimately show ?thesis unfolding inv_def by blast
qed


text \<open>Three nodes of which the last has missed the first block.\<close>

definition late_system :: "(base_blob, block, block_chain, nat) node_manager" where
  "late_system = map (\<lambda>(k, nd). (k, if k = 2 then nd else nd\<lparr>chain := fst (append_block empty_chain (chain_candidate 0))\<rparr>)) chain_system"


end
