(* ===== verification/Node_Fork.thy ===== *)
theory Node_Fork
  imports Node_Round
begin

text \<open>
  The chains of the nodes can fork: a run of five nodes, whose clocks never turn back and are
  never more than six seconds apart, after which two nodes hold different blocks at the same
  height. A node that was in the waiting step while the others held a round keeps the votes
  and the verified blocks of that round, because only leaving a round clears the boxes; if
  the others fail to commit in time and start the round again, it commits the old block.
\<close>

subsection \<open>Five nodes as a list of chains and servers\<close>

type_synonym chain_server = "block_chain \<times> (base_blob, block) bcp_server"

definition five :: "chain_server list \<Rightarrow> (base_blob, block, block_chain, nat) node_manager" where
  "five xs = mk_system [0, 1, 2, 3, 4] (\<lambda>k. \<lparr>peer_id = k, node_account = nat k + 1,
     chain = fst (xs ! nat k), bcp = snd (xs ! nat k)\<rparr>)"

fun heard :: "nat \<Rightarrow> (base_blob, block) node_message \<Rightarrow> (base_blob, block) bcp_server \<Rightarrow> (base_blob, block) bcp_server" where
  "heard p (New_round r) s = fst (append_new_round_message_for s (int p) r)"
| "heard p (Propose h) s = fst (append_proposed_block_header_for s (int p) h)"
| "heard p (Vote h) s = fst (vote_block_header_for (hdr chain_ops) s (int p) h)"
| "heard p (Commit b) s = fst (add_verified_block (hdr chain_ops) 5 s (int p) b)"
| "heard p _ s = s"

definition hear :: "nat \<Rightarrow> (base_blob, block) node_message \<Rightarrow> chain_server list \<Rightarrow> chain_server list" where
  "hear p msg xs = map (apsnd (heard p msg)) xs"

definition willing :: "block \<Rightarrow> (base_blob, block) bcp_server \<Rightarrow> bool" where
  "willing b s = (case get_elected_block_header 5 s of None \<Rightarrow> False
     | Some h \<Rightarrow> h = block_header_hash b \<and> verify_block b)"

fun spread :: "nat \<Rightarrow> (base_blob, block) node_message \<Rightarrow> chain_server list \<Rightarrow> chain_server list" where
  "spread p (Verify_block b) xs =
     foldl (\<lambda>xs i. if willing b (snd (xs ! i)) then hear i (Commit b) xs else xs) xs [0, 1, 2, 3, 4]"
| "spread p msg xs = hear p msg xs"

definition five_turn :: "chain_server list \<Rightarrow> nat \<Rightarrow> nat \<Rightarrow> chain_server list" where
  "five_turn xs i t =
     (let (c, s) = xs ! i
      in case bcp_process (hdr chain_ops) 5 0 t s of
           (s, None, st) \<Rightarrow> xs
         | (s, Some cb, st) \<Rightarrow>
             let (nd, sent) = on_callback chain_ops cb \<lparr>peer_id = int i, node_account = i + 1, chain = c, bcp = s\<rparr>;
                 xs = xs[i := (chain nd, bcp nd)];
                 xs = (case sent of None \<Rightarrow> xs | Some msg \<Rightarrow> spread i msg xs)
             in xs[i := apsnd (current_step_update (\<lambda>_. st)) (xs ! i)])"

definition five_pass :: "nat list \<Rightarrow> chain_server list \<Rightarrow> chain_server list" where
  "five_pass ts xs = foldl (\<lambda>xs i. five_turn xs i (ts ! i)) xs [0, 1, 2, 3, 4]"

lemma less_five: "i < (5 :: nat) \<longleftrightarrow> i = 0 \<or> i = 1 \<or> i = 2 \<or> i = 3 \<or> i = 4"
  by auto

lemma nth_hear: "i < length xs \<Longrightarrow> hear p msg xs ! i = apsnd (heard p msg) (xs ! i)"
  by (simp add: hear_def)

lemma length_hear [simp]: "length (hear p msg xs) = length xs"
  by (simp add: hear_def)

lemma five_get: "i < 5 \<Longrightarrow> get_node_server (five xs) (int i) =
    Some \<lparr>peer_id = int i, node_account = i + 1, chain = fst (xs ! i), bcp = snd (xs ! i)\<rparr>"
  unfolding five_def by (subst mk_get) (auto simp: less_five)

lemma five_put:
  assumes "length xs = 5" "i < 5"
  shows "put_node (five xs) (int i) \<lparr>peer_id = int i, node_account = i + 1, chain = c, bcp = s\<rparr> = five (xs[i := (c, s)])"
  unfolding five_def mk_put by (rule mk_cong) (use assms in \<open>auto simp: less_five nth_list_update\<close>)

lemma five_hear:
  assumes "length xs = 5" "case msg of New_round _ \<Rightarrow> True | Propose _ \<Rightarrow> True | Vote _ \<Rightarrow> True | Commit _ \<Rightarrow> True | _ \<Rightarrow> False"
  shows "sendall_from chain_ops (five xs) (int p) msg = five (hear p msg xs)"
  unfolding five_def using assms
  by (subst sendall_from_mk; cases msg) (auto simp: nth_hear numeral_eq_Suc intro!: mk_cong)

lemma chain_ops_fields [simp]:
  "header_hash (hdr chain_ops) = id" "same_header (hdr chain_ops) = (=)" "header_of (hdr chain_ops) = block_header_hash"
  "with_header (hdr chain_ops) b h = b\<lparr>block_header_hash := h\<rparr>" "wire chain_ops n b = b" "block_verify chain_ops = verify_block"
  "chain_append chain_ops c b = fst (append_block c b)" "current_height chain_ops = height" "invalid_index chain_ops = 0"
  "account_address chain_ops a = replicate a CHR ''n''"
  by (simp_all add: chain_ops_def)

lemma five_relay:
  assumes "length xs = 5" "i < 5"
  shows "deliver chain_ops p (Verify_block b) (int i) (five xs) =
    five (if willing b (snd (xs ! i)) then hear i (Commit b) xs else xs)"
proof -
  have n: "all_peer_count (five xs) = 5" by (simp add: five_def)
  have p: "put_node (five xs) (int i) \<lparr>peer_id = int i, node_account = i + 1, chain = fst (xs ! i), bcp = snd (xs ! i)\<rparr> = five xs"
    using five_put [OF assms, of "fst (xs ! i)" "snd (xs ! i)"] by simp
  have s: "sendall chain_ops (int i) (Commit b) (map fst (five xs)) (five xs) = five (hear i (Commit b) xs)"
    using five_hear [OF assms(1), of "Commit b" i] by (simp add: sendall_from_def)
  show ?thesis
    using p s by (auto simp: five_get [OF assms(2)] n willing_def split: option.splits)
qed

lemma five_spread:
  assumes "length xs = 5" "message_rank msg = 0 \<or> (\<exists>b. msg = Verify_block b)" "\<forall>b. msg \<noteq> Block_ack b"
  shows "sendall_from chain_ops (five xs) (int p) msg = five (spread p msg xs)"
proof (cases "\<exists>b. msg = Verify_block b")
  case True
  then obtain b where b: "msg = Verify_block b" by blast
  have "sendall chain_ops (int p) (Verify_block b) (map int is) (five xs) =
      five (foldl (\<lambda>xs i. if willing b (snd (xs ! i)) then hear i (Commit b) xs else xs) xs is)"
    if "length xs = 5" "set is \<subseteq> {..<5}" for "is" xs
    using that by (induction "is" arbitrary: xs) (simp_all add: five_relay del: deliver.simps)
  from this [OF assms(1), of "[0, 1, 2, 3, 4]"] show ?thesis
    by (simp add: b sendall_from_def five_def del: deliver.simps foldl_Cons)
next
  case False
  then show ?thesis using assms five_hear [OF assms(1), of msg p] by (cases msg) simp_all
qed

lemma length_spread [simp]: "length (spread p msg xs) = length xs"
  by (cases msg) simp_all

lemma callback_sends:
  "on_callback ops cb nd = (nd', Some msg) \<Longrightarrow>
    (message_rank msg = 0 \<or> (\<exists>b. msg = Verify_block b)) \<and> (\<forall>b. msg \<noteq> Block_ack b)"
  by (cases cb) (auto simp: Let_def split: option.splits if_splits)

lemma callback_node:
  "on_callback ops cb nd = (nd', sent) \<Longrightarrow> peer_id nd' = peer_id nd \<and> node_account nd' = node_account nd"
  by (cases cb) (auto simp: Let_def split: option.splits)

lemma five_set_step:
  "length xs = 5 \<Longrightarrow> i < 5 \<Longrightarrow> set_step (five xs) (int i) st = five (xs[i := apsnd (current_step_update (\<lambda>_. st)) (xs ! i)])"
  by (simp add: set_step_def five_get five_put [simplified] apsnd_def map_prod_def split: prod.split)

lemma five_node_turn:
  assumes "length xs = 5" "i < 5"
  shows "node_turn chain_ops (five xs) (int i) t = five (five_turn xs i t) \<and> length (five_turn xs i t) = 5"
proof -
  have n: "all_peer_count (five xs) = 5" by (simp add: five_def)
  obtain c s where x: "xs ! i = (c, s)" by fastforce
  obtain s' cb st where pr: "bcp_process (hdr chain_ops) 5 0 t s = (s', cb, st)" by (metis prod_cases3)
  show ?thesis
  proof (cases cb)
    case None
    then show ?thesis using assms by (simp add: node_turn_def five_turn_def five_get n x pr)
  next
    case (Some cb')
    obtain nd sent where cbk: "on_callback chain_ops cb' \<lparr>peer_id = int i, node_account = i + 1, chain = c, bcp = s'\<rparr> = (nd, sent)"
      by fastforce
    have nd: "nd = \<lparr>peer_id = int i, node_account = i + 1, chain = chain nd, bcp = bcp nd\<rparr>"
      using callback_node [OF cbk] by (cases nd) simp
    let ?xs = "xs[i := (chain nd, bcp nd)]"
    let ?ys = "case sent of None \<Rightarrow> ?xs | Some msg \<Rightarrow> spread i msg ?xs"
    have put: "put_node (five xs) (int i) nd = five ?xs" using five_put [OF assms] nd by metis
    have "(case sent of None \<Rightarrow> five ?xs | Some msg \<Rightarrow> sendall_from chain_ops (five ?xs) (int i) msg) = five ?ys"
    proof (cases sent)
      case (Some msg)
      then show ?thesis using callback_sends [OF cbk [unfolded Some]] five_spread [of ?xs msg i] assms(1) by simp
    qed simp
    moreover have "length ?ys = 5" using assms(1) by (cases sent) simp_all
    moreover have "node_turn chain_ops (five xs) (int i) t = set_step (case sent of None \<Rightarrow> put_node (five xs) (int i) nd
        | Some msg \<Rightarrow> sendall_from chain_ops (put_node (five xs) (int i) nd) (int i) msg) (int i) st"
      using assms(2) cbk by (simp add: node_turn_def five_get n x pr Some Let_def)
    moreover have "five_turn xs i t = ?ys[i := apsnd (current_step_update (\<lambda>_. st)) (?ys ! i)]"
      using cbk by (simp add: five_turn_def x pr Some Let_def)
    ultimately show ?thesis
      using assms(2) unfolding put by (simp add: five_set_step)
  qed
qed

lemma five_manager_pass:
  assumes "length xs = 5" "length ts = 5"
  shows "manager_pass chain_ops (\<lambda>k. ts ! nat k) (five xs) = five (five_pass ts xs) \<and> length (five_pass ts xs) = 5"
proof -
  have "foldl (\<lambda>sys i. node_turn chain_ops sys i (ts ! nat i)) (five xs) (map int is) =
      five (foldl (\<lambda>xs i. five_turn xs i (ts ! i)) xs is) \<and> length (foldl (\<lambda>xs i. five_turn xs i (ts ! i)) xs is) = 5"
    if "length xs = 5" "set is \<subseteq> {..<5}" for "is" xs
    using that by (induction "is" arbitrary: xs) (simp_all add: five_node_turn)
  from this [OF assms(1), of "[0, 1, 2, 3, 4]"] show ?thesis
    by (simp add: manager_pass_def five_pass_def five_def del: foldl_Cons)
qed

lemma five_manager_main:
  "length xs = 5 \<Longrightarrow> \<forall>ts \<in> set tss. length ts = 5 \<Longrightarrow>
    manager_main chain_ops (map (\<lambda>ts k. ts ! nat k) tss) (five xs) = five (fold five_pass tss xs)"
proof (induction tss arbitrary: xs)
  case (Cons ts tss)
  then show ?case using five_manager_pass [of xs ts] by (simp add: manager_main_def)
qed (simp add: manager_main_def)

subsection \<open>The run\<close>

definition fork_hash :: "nat \<Rightarrow> base_blob" where
  "fork_hash i = Blob [of_nat (i + 1)]"

definition candidate :: "nat \<Rightarrow> block" where
  "candidate i = \<lparr>block_index = 1, block_transactions = [\<lparr>tx_value = 100, tx_from = [],
     tx_to = replicate (i + 1) CHR ''n'', tx_coinbase = True, tx_valid = True\<rparr>], block_header_hash = fork_hash i\<rparr>"

definition no_block :: block where
  "no_block = \<lparr>block_index = 0, block_transactions = [], block_header_hash = Blob []\<rparr>"

definition one_block :: "nat \<Rightarrow> block_chain" where
  "one_block i = fst (append_block empty_chain (candidate i))"

lemma fork_hash_order [simp]:
  "i < 5 \<Longrightarrow> j < 5 \<Longrightarrow> fork_hash i = fork_hash j \<longleftrightarrow> i = j" "i < 5 \<Longrightarrow> j < 5 \<Longrightarrow> fork_hash i < fork_hash j \<longleftrightarrow> i < j"
  "i < 5 \<Longrightarrow> j < 5 \<Longrightarrow> hash_string (hdr chain_ops) (fork_hash i) < hash_string (hdr chain_ops) (fork_hash j) \<longleftrightarrow> i < j"
  by (auto simp: less_five fork_hash_def less_base_blob_def blob_less_def Compare_def chain_ops_def less_char_def)

lemma candidate_fields [simp]:
  "block_header_hash (candidate i) = fork_hash i" "block_index (candidate i) = 1" "verify_block (candidate i)"
  "(candidate i)\<lparr>block_header_hash := fork_hash i\<rparr> = candidate i"
  by (simp_all add: candidate_def verify_block_def)

lemma empty_fields [simp]: "height empty_chain = 0" "fst (append_block empty_chain (candidate i)) = one_block i"
  by (simp_all add: empty_chain_def height_def sm_size_def one_block_def)

lemma started [simp]:
  assumes "chain m = empty_chain" "node_account m \<noteq> 0"
  shows "on_callback chain_ops (new_round_start (Suc 0)) m =
    (m\<lparr>bcp := fst (append_user_block_header_for ((bcp m)\<lparr>candidate_block := candidate (node_account m - 1)\<rparr>)
       (replicate (node_account m) CHR ''n'') (fork_hash (node_account m - 1)))\<rparr>, None)"
proof -
  have "create_block_for chain_ops m 1 = Some \<lparr>block_index = 1, block_transactions = [\<lparr>tx_value = 100, tx_from = [],
     tx_to = replicate (node_account m) CHR ''n'', tx_coinbase = True, tx_valid = True\<rparr>], block_header_hash = get_block_hash empty_chain 0\<rparr>"
    using assms by (simp add: create_block_for_def chain_ops_def block_exists_def empty_chain_def sm_count_def block_reward_def)
  then show ?thesis
    using assms(2) by (simp add: Let_def) (simp add: chain_ops_def candidate_def fork_hash_def)
qed

lemmas turn_defs = five_turn_def bcp_process_def timeline_def bcp_block_time_def bcp_timeout_proof_of_participation_def
  bcp_timeout_propose_def bcp_timeout_vote_def new_round_start_for_def get_elected_block_header_def find_commit_block_def

lemmas box_defs = hear_def append_new_round_message_for_def append_user_block_header_for_def
  append_proposed_block_header_for_def select_user_block_header_def select_proposed_block_header_def
  vote_block_header_for_def add_verified_block_def willing_def count_vote_def clear_intermediate_data_def
  sm_insert_def sm_count_def sm_find_def sm_size_def

text \<open>
  The clocks, node by node in every pass. Node 0 is behind and makes its proposal, the lowest,
  after nodes 1 to 3 have voted for the one of node 1; node 4 looks at its clock too late to
  start the round. Nodes 1 to 3 elect, and after a pause of five seconds their time is over.
  All start again, and elect the proposal of node 0; but node 4 still has the old votes.
\<close>

definition fork_clocks :: "nat list list" where
  "fork_clocks = [[22, 24, 24, 24, 24], [23, 24, 24, 24, 25], [24, 26, 26, 26, 27], [25, 31, 31, 31, 31],
     [29, 35, 35, 35, 35], [34, 40, 40, 40, 39], [37, 41, 41, 41, 41], [40, 42, 42, 42, 42], [41, 43, 43, 43, 43],
     [46, 46, 46, 46, 46], [51, 51, 51, 51, 51], [52, 52, 52, 52, 52], [53, 53, 53, 53, 53]]"

definition fork_start :: "(base_blob, block, block_chain, nat) node_manager" where
  "fork_start = manager_start (Blob []) no_block empty_chain 0 (\<lambda>_. True) (\<lambda>i. i + 1) 5"

definition five_start :: "chain_server list" where
  "five_start = (let x = (empty_chain, (bcp_init (Blob []) no_block)\<lparr>current_step := bcp_step_waiting\<rparr>)
     in [x, x, x, x, x])"

lemma fork_start_five: "fork_start = five five_start"
  by (simp add: fork_start_def five_def mk_system_def manager_start_def start_server_def node_new_def bcp_start_def sm_insert_def
      sm_count_def sm_find_def upt_conv_Cons numeral_eq_Suc five_start_def Let_def)

lemma fork_run:
  "map fst (fold five_pass fork_clocks five_start) =
    [one_block 0, one_block 0, one_block 0, one_block 0, one_block 1]"
  by (simp add: fork_clocks_def five_start_def bcp_init_def five_pass_def turn_defs box_defs Let_def
      del: on_callback.simps(2))

definition clocks_within :: "nat \<Rightarrow> int set \<Rightarrow> (int \<Rightarrow> nat) list \<Rightarrow> bool" where
  "clocks_within d P clocks \<longleftrightarrow> (\<forall>clock \<in> set clocks. \<forall>i \<in> P. \<forall>j \<in> P. clock i \<le> clock j + d)"

definition clocks_forward :: "int set \<Rightarrow> (int \<Rightarrow> nat) list \<Rightarrow> bool" where
  "clocks_forward P clocks \<longleftrightarrow> sorted_wrt (\<lambda>clock clock'. \<forall>i \<in> P. clock i \<le> clock' i) clocks"

lemma one_block_fields: "height (one_block i) = 1" "get_block (one_block i) 1 = Some (candidate i)"
  by (simp_all add: one_block_def append_block_def block_exists_def empty_chain_def sm_count_def sm_insert_def height_def sm_size_def
      update_balance_def get_block_def)

text \<open>
  C5. The chains can fork. Five honest nodes in one process, with clocks that never turn back
  and never differ by more than six seconds, can end a round with blocks of different headers
  at the same height: the votes of a round that failed are still in the boxes of a node that
  did not take part in it, and count in the next round.
\<close>

theorem chains_can_fork:
  "\<exists>clocks nd nd' b b'. clocks_within 6 {0, 1, 2, 3, 4} clocks \<and> clocks_forward {0, 1, 2, 3, 4} clocks \<and>
     get_node_server (manager_main chain_ops clocks fork_start) 0 = Some nd \<and>
     get_node_server (manager_main chain_ops clocks fork_start) 4 = Some nd' \<and>
     height (chain nd) = height (chain nd') \<and> get_block (chain nd) 1 = Some b \<and> get_block (chain nd') 1 = Some b' \<and>
     block_header_hash b \<noteq> block_header_hash b'"
proof -
  let ?clocks = "map (\<lambda>ts k. ts ! nat k) fork_clocks"
  let ?xs = "fold five_pass fork_clocks five_start"
  have run: "manager_main chain_ops ?clocks fork_start = five ?xs"
    unfolding fork_start_five by (rule five_manager_main) (simp_all add: fork_clocks_def five_start_def Let_def)
  have l: "length ?xs = 5" using arg_cong [OF fork_run, of length] by simp
  have "fst (?xs ! 0) = one_block 0" "fst (?xs ! 4) = one_block 1"
    using arg_cong [OF fork_run, of "\<lambda>cs. cs ! 0"] arg_cong [OF fork_run, of "\<lambda>cs. cs ! 4"] l by simp_all
  moreover have "clocks_within 6 {0, 1, 2, 3, 4} ?clocks"
    by (simp add: clocks_within_def fork_clocks_def)
  moreover have "clocks_forward {0, 1, 2, 3, 4} ?clocks"
    by (simp add: clocks_forward_def fork_clocks_def)
  ultimately show ?thesis
    using five_get [of 0 ?xs] five_get [of 4 ?xs] run one_block_fields
    by (intro exI [of _ ?clocks]) simp
qed

end
