(* ===== verification/Spec2Isabelle.thy ===== *)
theory Spec2Isabelle
  imports Ecdsa Str_Base Str_Text Base58 Ripemd160 P2p_Server Byte_Stream App Chain Bcp Node_Chain Node_Stall Node_Fork
begin

text \<open>
  Verification of the BCP concept prototype, a block chain whose nodes agree on each block in
  timed rounds of proposals, votes and commits.

  The program. \<open>src/bryllite-core\<close> is the library of the system: elliptic-curve keys and
  signatures, hashes, text encodings, fixed-size blobs, packet messages and packet buffers.
  \<open>src/apps\<close> holds the four programs (node, bridge and game server, game client), which
  parse a command line, start their servers and turn them until a signal stops them.
  \<open>src/tests/dev/node-server-mono\<close> is the prototype of the protocol with all its sources:
  a chain, a consensus server, and nodes that exchange messages inside one process. A node
  signs a candidate block, the consensus server of each node collects what the others send
  and calls the node back at every step of the round, and the chain keeps what was committed.

  Theories, in the order of their imports.

  \<^item> \<open>Bcp_Prelude\<close>: word types, digit sequences, the collections \<open>len_simps\<close> and
    \<open>val_simps\<close>. \<open>Std_Map\<close>: \<open>std::map\<close> as a sorted association list.
  \<^item> \<open>Vli\<close>, \<open>Vli_Mult\<close>, \<open>Vli_Mod\<close>, \<open>Vli_ModMult\<close>
    (secp256r1.cpp, lines 10 to 700 and 968 to 1067): a number is the list of its four 64-bit
    digits and every \<open>vli_\<close> function keeps its name. The lemmas give the value of each result:
    exact sums, products and squares in the version over \<open>unsigned __int128\<close>, the residue after
    the fast reduction, modular inverses and products. Both versions of the multiplication are
    modelled; the portable one is proved wrong on operands below the prime.
  \<^item> \<open>Ecc_Field\<close>, \<open>Ecc_Point\<close>, \<open>Ecdsa\<close> (secp256r1.cpp, the rest):
    residues as a ring, the locale \<open>field_ops\<close> through which the point formulas use the
    modular functions (interpreted as \<open>fe\<close>), Jacobian doubling, co-Z additions, the ladder,
    point compression, key generation, signing and verification. The point formulas refine
    affine chords and tangents, the ladder refines an affine ladder wherever the chords exist,
    and a signature satisfies the equation of the scheme.
  \<^item> \<open>Str_Hex\<close>, \<open>Str_Base\<close>, \<open>Str_Num\<close>, \<open>Str_Text\<close>
    (utilstrencodings.cpp and .hpp): hexadecimal, base-64 and base-32 text (one proof for both in
    the locale \<open>base_codec\<close>), strict number parsers, fixed-point amounts, host and port,
    paragraphs, timing-resistant comparison. Encoders and decoders are inverse and accept
    nothing but canonical text.
  \<^item> \<open>Blob\<close> (uint256.hpp, uint256.cpp): \<open>base_blob\<close> with its order as an instance
    of \<open>linorder\<close>, so that blobs are keys of maps.
  \<^item> \<open>Sha256\<close> (sha256.hpp, sha256.cpp) and \<open>Ripemd160\<close> (ripemd160.cpp): the streaming
    hash over words of any width (locale \<open>wide_word\<close>, interpreted at 32 and 64 bits) and the
    unrolled compression function, each equal to the function of its standard on the padded
    message. \<open>Base58\<close> (base58.cpp): both radix conversions as one locale \<open>radix\<close>.
  \<^item> \<open>Messages\<close> (message.inl and the types it sends), \<open>Socket_Buffer\<close>
    (socket_buffer.hpp and the session that writes through it), \<open>App\<close> (apps/*/main.cpp).
  \<^item> \<open>Framing\<close> (tests/dev/p2p_server: the read handlers of p2p_server.cpp and
    p2p_client.cpp, and the client's write): both ends of a connection as one record
    \<open>reader\<close> that bytes reach in any chunks. They refine \<open>frames\<close>, which cuts the whole
    stream at once; with the queue of \<open>Socket_Buffer\<close> this gives that what one end writes
    is what the other hands over. \<open>P2p_Server\<close> (p2p_server.cpp, p2p_session.cpp, peer.cpp and
    node_server.cpp) is the server around the sessions as one function \<open>server_step\<close> of events:
    it accepts and closes sessions, answers pings, binds sessions to the peers that introduce
    themselves and connects back. \<open>Byte_Stream\<close> (byte_stream.cpp of the same prototype) is
    its growing buffer, a queue of bytes whatever its positions and size.
  \<^item> \<open>Chain\<close> (block_chain.cpp), \<open>Bcp\<close> (bcp_server.cpp), \<open>Node_Server\<close>
    (node_server.cpp, node_manager.cpp), \<open>Node_Round\<close>, \<open>Node_Chain\<close>,
    \<open>Node_Stall\<close> and \<open>Node_Fork\<close> (what the nodes do together, no code of their own): the boxes of the
    consensus server are maps, a turn of it is the function \<open>bcp_process\<close> and everything
    that can happen to it is the relation \<open>bcp_steps\<close>; the locale \<open>ballot\<close> states what
    the two polls share. A node is a record with a chain and a server, the manager a map of
    nodes, \<open>sendall\<close> and \<open>deliver\<close> are the nested calls by which a message reaches all
    nodes before its sender goes on, and the locale \<open>peer_closed\<close> carries a property of the
    servers through such a delivery. The lemmas show that the whole system is a run of each
    single server, hence its majorities, that a round whose clocks agree ends with the same
    block on every chain, and that after any number of such rounds from the start all nodes
    hold the same chain, whose balances are the rewards; that nodes whose chains differ in
    height never start a round again; and that without agreeing clocks the chains can fork,
    by the evaluation of a run in which five nodes are a list of chains and servers.

  Kinds of model. Machine integers are words of their width, or natural numbers with the
  wrap-around written out where the code can reach it; \<open>size_t\<close> has 64 bits. Errors, failed
  assertions and undefined reads are values of an option or a sum. Loops are recursive
  functions with a termination proof; the only loop that may run for ever, the main loop of
  the programs, is a \<open>partial_function\<close> into option, and when it ends is a theorem. The
  binary Euclidean algorithm and the loops that close the fast reduction are
  \<open>while_option\<close>s that are proved to return. No definition
  takes fuel: delivery ends because a message that is answered has a higher rank than its
  answer, and the retry loops of key generation and signing end after \<open>MAX_TRIES\<close> passes.

  Parameters. What the code calls without a source in the repository is an argument: the random
  source of the operating system, the digest of OpenSSL, the size of \<open>std::string\<close>, the
  serialization of blocks and transactions, the parsing of command lines and configuration, the
  clock, and for the nodes the chain, block, transaction and account classes (the record
  \<open>node_ops\<close>). \<open>Node_Round\<close> and
  \<open>Node_Chain\<close> instantiate the latter with the chain of \<open>Chain\<close>.

  Not modelled. Most of bryllite-core, bryllite-common and the libraries of the apps consists of
  headers whose .cpp files are not in the repository (keys, addresses, transactions, blocks, the
  database, timers, sockets, TCP sessions, peers and the current consensus classes): there is
  nothing to translate. json.hpp, tinyformat.hpp and secp256k1.h are third-party code; enum.hpp
  and singleton.hpp are templates of bit operators and of a pointer created on first use;
  udp_client.hpp hands packets to the sockets of boost. The
  locks are left out: the nodes of the prototype run in one thread, under one lock, and the
  handlers of the p2p server in its one io thread. Logging, key files and the other experiments
  under src/tests have no definitions here.
\<close>

end
